(* ===== verification/Prelude.thy ===== *)
theory Prelude
  imports Main "HOL-Library.Word"
begin

text \<open>
  Shared vocabulary of the development.

  \<^item> The machine types of the C and C++ sources: \<open>byte\<close> is \<open>uint8_t\<close> (and the
    octets of a \<open>std::string\<close>), \<open>u32\<close> is \<open>uint32_t\<close> or \<open>unsigned\<close>,
    \<open>u64\<close> is \<open>uintmax_t\<close> or \<open>size_t\<close> where its wrap-around matters.
  \<^item> Bit strings, most significant bit first: \<open>bits_of n v\<close> lists the low \<open>n\<close>
    bits of \<open>v\<close>; \<open>pad\<close> continues a bit string with ones for ever, which is how
    HPACK pads a Huffman-coded string; \<open>win k f\<close> is the number that the first \<open>k\<close>
    bits of a stream spell.
  \<^item> The facts that connect words, bit strings and windows.  The collections
    \<open>win_simps\<close> and \<open>bits_simps\<close> hold the equations the component proofs share.
\<close>

unbundle bit_operations_syntax

type_synonym byte = "8 word"
type_synonym u16 = "16 word"
type_synonym u32 = "32 word"
type_synonym u64 = "64 word"

named_theorems win_simps \<open>equations about windows of a bit stream\<close>
named_theorems bits_simps \<open>equations about bit strings of words\<close>


section \<open>Bit strings\<close>

definition bits_of :: "nat \<Rightarrow> 'a::semiring_bit_operations \<Rightarrow> bool list" where
  "bits_of n v = map (\<lambda>i. bit v (n - 1 - i)) [0..<n]"

definition pad :: "bool list \<Rightarrow> nat \<Rightarrow> bool" where
  "pad bs i = (if i < length bs then bs ! i else True)"

fun win :: "nat \<Rightarrow> (nat \<Rightarrow> bool) \<Rightarrow> nat" where
  "win 0 f = 0"
| "win (Suc k) f = 2 * win k f + of_bool (f k)"

definition bytes_bits :: "byte list \<Rightarrow> bool list" where
  "bytes_bits xs = concat (map (bits_of 8) xs)"

lemma length_bits_of [simp]: "length (bits_of n v) = n"
  by (simp add: bits_of_def)

lemma nth_bits_of [simp]: "i < n \<Longrightarrow> bits_of n v ! i = bit v (n - 1 - i)"
  by (simp add: bits_of_def)

lemma bits_of_0 [simp]: "bits_of 0 v = []"
  by (simp add: bits_of_def)

lemma bytes_bits_Nil [simp]: "bytes_bits [] = []"
  by (simp add: bytes_bits_def)

lemma bytes_bits_Cons [simp]: "bytes_bits (x # xs) = bits_of 8 x @ bytes_bits xs"
  by (simp add: bytes_bits_def)

lemma bytes_bits_append [simp]: "bytes_bits (xs @ ys) = bytes_bits xs @ bytes_bits ys"
  by (simp add: bytes_bits_def)

lemma length_bytes_bits [simp]: "length (bytes_bits xs) = 8 * length xs"
  by (induction xs) auto

lemma bits_of_eq_iff: "bits_of n v = bits_of n w \<longleftrightarrow> (\<forall>i<n. bit v i = bit w i)"
proof
  assume eq: "bits_of n v = bits_of n w"
  show "\<forall>i<n. bit v i = bit w i"
  proof (intro allI impI)
    fix i assume i: "i < n"
    with eq have "bits_of n v ! (n - 1 - i) = bits_of n w ! (n - 1 - i)" by simp
    with i show "bit v i = bit w i" by simp
  qed
qed (auto intro: nth_equalityI)

lemma bits_of_Suc [bits_simps]: "bits_of (Suc n) v = bit v n # bits_of n v"
  by (rule nth_equalityI) (auto simp: nth_Cons' intro!: arg_cong[where f = "bit v"])

lemma bits_of_numeral [bits_simps]:
  "bits_of (numeral k) v = bit v (pred_numeral k) # bits_of (pred_numeral k) v"
  by (simp add: numeral_eq_Suc bits_of_Suc)

lemma replicate_pred_numeral [bits_simps]:
  "replicate (numeral k) x = x # replicate (pred_numeral k) x"
  by (simp add: numeral_eq_Suc)

lemma bits_of_byte_inj: "bits_of 8 a = bits_of 8 b \<Longrightarrow> a = b" for a b :: byte
  by (rule bit_word_eqI) (auto simp: bits_of_eq_iff)

lemma bytes_bits_inj: "bytes_bits xs = bytes_bits ys \<Longrightarrow> xs = ys"
proof (induction xs arbitrary: ys)
  case Nil
  then show ?case using length_bytes_bits[of ys] by simp
next
  case (Cons x xs)
  from arg_cong[OF Cons.prems, of length] obtain y zs where "ys = y # zs" by (cases ys) auto
  with Cons show ?case by (auto dest: bits_of_byte_inj)
qed

lemma bits_of_append:
  "bits_of (m + n) v = bits_of m (drop_bit n v) @ bits_of n v"
  by (rule nth_equalityI) (auto simp: nth_append bit_drop_bit_eq algebra_simps intro!: arg_cong[where f = "bit v"])

lemma drop_bits_of: "drop k (bits_of n v) = bits_of (n - k) v"
  by (rule nth_equalityI) (auto intro!: arg_cong[where f = "bit v"])

lemma take_bits_of: "k \<le> n \<Longrightarrow> take k (bits_of n v) = bits_of k (drop_bit (n - k) v)"
  by (rule nth_equalityI) (auto simp: bit_drop_bit_eq intro!: arg_cong[where f = "bit v"])

lemma bits_of_ones: "(\<And>i. i < n \<Longrightarrow> bit v i) \<Longrightarrow> bits_of n v = replicate n True"
  by (rule nth_equalityI) auto

lemma all_True_replicate: "(\<forall>b\<in>set bs. b) \<longleftrightarrow> bs = replicate (length bs) True"
  by (induction bs) auto


section \<open>Words\<close>

lemma unat_byte_less [simp]: "unat b < 256" for b :: byte
  using unsigned_less[of b, where ?'a = nat] by simp

lemma byte_high_bit: "x AND 0x80 = 0 \<longleftrightarrow> unat x < 128" for x :: byte
proof -
  have "x AND 0x80 = 0 \<longleftrightarrow> \<not> bit x 7"
    using and_exp_eq_0_iff_not_bit[of x 7] by simp
  also have "\<dots> \<longleftrightarrow> \<not> bit (unat x) 7" by (simp add: bit_unsigned_iff)
  also have "\<dots> \<longleftrightarrow> \<not> odd (unat x div 128)" by (simp add: bit_iff_odd)
  also have "\<dots> \<longleftrightarrow> unat x < 128"
  proof (cases "unat x < 128")
    case False
    then have "unat x div 128 = 1" using unat_byte_less[of x] by (simp add: div_nat_eqI)
    then show ?thesis using False by simp
  qed simp
  finally show ?thesis .
qed

lemma unat_low_bits: "unat (x AND mask n) = unat x mod 2 ^ n" for x :: "'a::len word"
  by (simp add: unsigned_take_bit_eq flip: take_bit_eq_mask take_bit_eq_mod)

lemma mask_7f: "(0x7f :: byte) = mask 7"
  by (simp add: mask_eq_exp_minus_1)

lemma unat_and_7f [simp]: "unat (x AND 0x7f) = unat x mod 128" for x :: byte
  using unat_low_bits[of x 7] by (simp add: mask_7f)

lemma unat_ucast_byte [simp]: "unat (ucast b :: 'a::len word) = unat b"
  if "8 \<le> LENGTH('a)" for b :: byte
proof -
  have "unat b < 2 ^ 8" using unat_byte_less[of b] by simp
  also have "(2::nat) ^ 8 \<le> 2 ^ LENGTH('a)" using that by (rule power_increasing) simp
  finally show ?thesis by (simp add: unsigned_ucast_eq take_bit_nat_eq_self)
qed

lemma unat_pow2 [simp]: "n < LENGTH('a) \<Longrightarrow> unat (2 ^ n :: 'a::len word) = 2 ^ n"
  using unat_of_nat[of "2 ^ n", where 'a = 'a] by simp


section \<open>Padded streams\<close>

lemma pad_append: "pad (xs @ ys) i = (if i < length xs then xs ! i else pad ys (i - length xs))"
  by (auto simp: pad_def nth_append)

lemma pad_drop: "pad (drop k bs) i = pad bs (k + i)"
  by (auto simp: pad_def)

lemma pad_replicate_True [simp]: "pad (xs @ replicate n True) = pad xs"
  by (rule ext) (auto simp: pad_def nth_append)

lemma pad_all_True: "(\<forall>i<n. pad bs i) \<longleftrightarrow> (\<forall>i<min n (length bs). bs ! i)"
  by (auto simp: pad_def)


section \<open>Windows\<close>

lemma win_less [simp]: "win k f < 2 ^ k"
proof (induction k)
  case (Suc k)
  then show ?case by (cases "f k") auto
qed simp

lemma win_cong: "(\<And>i. i < k \<Longrightarrow> f i = g i) \<Longrightarrow> win k f = win k g"
  by (induction k) auto

lemma win_add [win_simps]: "win (a + b) f = win a f * 2 ^ b + win b (\<lambda>i. f (a + i))"
  by (induction b) (auto simp: algebra_simps)

lemma win_div: "a \<le> n \<Longrightarrow> win n f div 2 ^ (n - a) = win a f"
  using win_add[of a "n - a" f] by simp

lemma win_mod: "a \<le> n \<Longrightarrow> win n f mod 2 ^ (n - a) = win (n - a) (\<lambda>i. f (a + i))"
  using win_add[of a "n - a" f] by simp

lemma win_numeral [bits_simps]:
  "win (numeral k) f = 2 * win (pred_numeral k) f + of_bool (f (pred_numeral k))"
  by (simp add: numeral_eq_Suc)

lemma win_inj: "win n f = win n g \<Longrightarrow> \<forall>i<n. f i = g i"
proof (induction n)
  case (Suc n)
  have "f n = g n" using Suc.prems by (cases "f n"; cases "g n") (auto, presburger+)
  moreover from this Suc.prems have "win n f = win n g" by simp
  ultimately show ?case using Suc.IH by (auto simp: less_Suc_eq)
qed simp

lemma win_ones: "win k f = 2 ^ k - 1 \<longleftrightarrow> (\<forall>i<k. f i)"
proof (induction k)
  case (Suc k)
  obtain p where p: "(2::nat) ^ k = p" "0 < p" by simp
  have "win k f < p" using win_less[of k f] p by simp
  with p have "win (Suc k) f = 2 ^ Suc k - 1 \<longleftrightarrow> win k f = 2 ^ k - 1 \<and> f k"
    unfolding win.simps power_Suc p(1) by (cases "f k") auto
  then show ?case using Suc by (auto simp: less_Suc_eq)
qed simp

lemma win_bits_nat: "win n (\<lambda>i. bit v (n - 1 - i)) = take_bit n v" for v :: nat
proof (induction n arbitrary: v)
  case (Suc n)
  have "win n (\<lambda>i. bit v (n - i)) = win n (\<lambda>i. bit (v div 2) (n - 1 - i))"
    by (rule win_cong) (metis (no_types, lifting) Suc_diff_Suc Suc_leI bit_Suc diff_Suc_1 diff_diff_left
        plus_1_eq_Suc zero_less_diff less_imp_Suc_add diff_commute)
  also have "\<dots> = take_bit n (v div 2)" by (rule Suc)
  finally show ?case
    by (simp add: take_bit_Suc bit_0 odd_iff_mod_2_eq_one mod2_eq_if)
qed simp

lemma win_bits_word:
  "win n (\<lambda>i. bit w (n - 1 - i)) = unat (take_bit n w)" for w :: "'a::len word"
proof -
  have "win n (\<lambda>i. bit w (n - 1 - i)) = win n (\<lambda>i. bit (unat w) (n - 1 - i))"
    by (simp add: bit_unsigned_iff)
  also have "\<dots> = take_bit n (unat w)" by (rule win_bits_nat)
  finally show ?thesis by (simp add: unsigned_take_bit_eq)
qed

lemma unat_byte_win:
  assumes "\<And>i. i < 8 \<Longrightarrow> bit b (7 - i) = f i"
  shows "unat (b :: byte) = win 8 f"
proof -
  have "win 8 f = win 8 (\<lambda>i. bit b (8 - 1 - i))"
    by (rule win_cong) (simp add: assms)
  also have "\<dots> = unat (take_bit 8 b)" by (rule win_bits_word)
  also have "take_bit 8 b = b" by (rule bit_word_eqI) (simp add: bit_take_bit_iff)
  finally show ?thesis by (rule sym)
qed

lemma win_prefix:
  "win n (pad (bits_of n v @ xs)) = take_bit n v" for v :: nat
proof -
  have "win n (pad (bits_of n v @ xs)) = win n (\<lambda>i. bit v (n - 1 - i))"
    by (rule win_cong) (simp add: pad_append)
  then show ?thesis by (simp only: win_bits_nat)
qed


section \<open>Memory\<close>

text \<open>\<open>memmove (buf + dst, buf + src, n)\<close> within a buffer, and \<open>memcpy\<close> into it.\<close>

definition memmove :: "byte list \<Rightarrow> nat \<Rightarrow> nat \<Rightarrow> nat \<Rightarrow> byte list" where
  "memmove buf dst src n = take dst buf @ take n (drop src buf) @ drop (dst + n) buf"

definition memcpy_at :: "'a list \<Rightarrow> nat \<Rightarrow> 'a list \<Rightarrow> 'a list" where
  "memcpy_at buf dst xs = take dst buf @ xs @ drop (dst + length xs) buf"

lemma drop_memmove:
  "n \<le> length b \<Longrightarrow> drop n (memmove b n 1 k) = take k (drop 1 b) @ drop (n + k) b"
  by (simp add: memmove_def min_absorb2)

lemma length_memcpy_at: "dst + length xs \<le> length buf \<Longrightarrow> length (memcpy_at buf dst xs) = length buf"
  by (simp add: memcpy_at_def)

lemma take_memcpy_at:
  "dst + length xs \<le> length buf \<Longrightarrow> take (dst + length xs) (memcpy_at buf dst xs) = take dst buf @ xs"
  by (simp add: memcpy_at_def min_absorb2)

lemma take_memmove: "k + n \<le> length b \<Longrightarrow> take n (memmove b 0 k n) = take n (drop k b)"
  by (simp add: memmove_def)

lemma length_memmove: "src + n \<le> length b \<Longrightarrow> dst + n \<le> length b \<Longrightarrow> length (memmove b dst src n) = length b"
  by (simp add: memmove_def)

end
