(* ===== verification/Stream_Buf.thy ===== *)
theory Stream_Buf
  imports Prelude
begin

text \<open>
  The byte buffers of the server: \<open>src/StreamBuf.h\<close>, \<open>src/StreamBuf.cpp\<close> and
  \<open>src/Payload.h\<close>, \<open>src/Payload-inl.h\<close>.

  A \<open>StreamBuf\<close> is a vector, of which the first \<open>in_use\<close> octets are the content.  A
  \<open>Payload\<close> is a fixed array of 1440 octets that overflows into a \<open>StreamBuf\<close>; the
  pointer to it is the field \<open>target\<close>, since a payload is the only writer of its target
  while it lives.  \<open>std::length_error\<close> is \<open>None\<close>.

  The interface that writers of messages rely on is the locale \<open>byte_sink\<close>: a write appends.
  Both buffers provide it.
\<close>

section \<open>StreamBuf\<close>

record streambuf =
  in_use :: nat
  sb_data :: "byte list"

definition sb_empty :: streambuf where
  "sb_empty = \<lparr>in_use = 0, sb_data = []\<rparr>"

definition sb_size :: "streambuf \<Rightarrow> nat" where
  "sb_size sb = in_use sb"

definition sb_is_empty :: "streambuf \<Rightarrow> bool" where
  "sb_is_empty sb \<longleftrightarrow> sb_size sb = 0"

definition sb_capacity :: "streambuf \<Rightarrow> nat" where
  "sb_capacity sb = length (sb_data sb)"

definition sb_tailroom :: "streambuf \<Rightarrow> nat" where
  "sb_tailroom sb = sb_capacity sb - sb_size sb"

definition sb_add_tail_content :: "nat \<Rightarrow> streambuf \<Rightarrow> streambuf" where
  "sb_add_tail_content n sb = sb\<lparr>in_use := in_use sb + n\<rparr>"

definition sb_clear :: "streambuf \<Rightarrow> streambuf" where
  "sb_clear sb = sb\<lparr>in_use := 0\<rparr>"

definition sb_shrink_to_fit :: "streambuf \<Rightarrow> streambuf" where
  "sb_shrink_to_fit sb = sb\<lparr>sb_data := take (in_use sb) (sb_data sb)\<rparr>"

definition sb_reserve :: "nat \<Rightarrow> streambuf \<Rightarrow> streambuf" where
  "sb_reserve new_size sb =
     (if new_size < length (sb_data sb) then sb
      else sb\<lparr>sb_data := sb_data sb @ replicate (new_size - length (sb_data sb)) 0\<rparr>)"

definition sb_ensure :: "nat \<Rightarrow> streambuf \<Rightarrow> streambuf" where
  "sb_ensure extra_capacity sb = sb_reserve (sb_size sb + extra_capacity) sb"

definition sb_advance :: "nat \<Rightarrow> streambuf \<Rightarrow> streambuf option" where
  "sb_advance amount sb =
     (if sb_size sb < amount then None
      else if amount = sb_size sb then Some (sb_clear sb)
      else let n = in_use sb - amount
           in Some (sb\<lparr>in_use := n, sb_data := memmove (sb_data sb) 0 amount n\<rparr>))"

definition SIZE_MAX :: nat where "SIZE_MAX = 2 ^ 64 - 1"
definition GROWTH_FACTOR :: nat where "GROWTH_FACTOR = 4"

definition sb_grow :: "streambuf \<Rightarrow> streambuf" where
  "sb_grow sb =
     (if sb_size sb < 4096 div GROWTH_FACTOR then sb_reserve 4096 sb
      else if sb_capacity sb div 2 < sb_size sb then
        sb_reserve (if SIZE_MAX div GROWTH_FACTOR < sb_capacity sb then SIZE_MAX
                    else sb_capacity sb * GROWTH_FACTOR) sb
      else sb)"

definition sb_write :: "byte list \<Rightarrow> streambuf \<Rightarrow> streambuf" where
  "sb_write data sb =
     (let sb = sb_ensure (length data) sb;
          sb = sb\<lparr>sb_data := memcpy_at (sb_data sb) (in_use sb) data\<rparr>
      in sb_add_tail_content (length data) sb)"

definition sb_write_octet :: "byte \<Rightarrow> streambuf \<Rightarrow> streambuf" where
  "sb_write_octet oct sb =
     (let sb = sb_ensure 1 sb;
          sb = sb\<lparr>sb_data := (sb_data sb)[in_use sb := oct]\<rparr>
      in sb_add_tail_content 1 sb)"


section \<open>Payload\<close>

definition PAYLOAD_CAPACITY :: nat where "PAYLOAD_CAPACITY = 1440"

record payload =
  pl_len :: nat
  pl_data :: "byte list"
  target :: streambuf

text \<open>The array of a new payload is not initialised: its contents are an argument.\<close>

definition payload_on :: "byte list \<Rightarrow> streambuf \<Rightarrow> payload" where
  "payload_on garbage sb = \<lparr>pl_len = 0, pl_data = garbage, target = sb\<rparr>"

definition pl_tailroom :: "payload \<Rightarrow> nat" where
  "pl_tailroom p = PAYLOAD_CAPACITY - pl_len p"

definition pl_clear :: "payload \<Rightarrow> payload" where
  "pl_clear p = p\<lparr>pl_len := 0\<rparr>"

definition pl_flush :: "payload \<Rightarrow> payload" where
  "pl_flush p =
     (let t = sb_ensure (pl_len p) (target p);
          t = t\<lparr>sb_data := memcpy_at (sb_data t) (in_use t) (take (pl_len p) (pl_data p))\<rparr>;
          t = sb_add_tail_content (pl_len p) t
      in pl_clear (p\<lparr>target := t\<rparr>))"

definition pl_write :: "byte list \<Rightarrow> payload \<Rightarrow> payload" where
  "pl_write buf p =
     (let p = (if PAYLOAD_CAPACITY < pl_len p + length buf then pl_flush p else p)
      in if PAYLOAD_CAPACITY < length buf then p\<lparr>target := sb_write buf (target p)\<rparr>
         else p\<lparr>pl_data := memcpy_at (pl_data p) (pl_len p) buf, pl_len := pl_len p + length buf\<rparr>)"

definition pl_write_octet :: "byte \<Rightarrow> payload \<Rightarrow> payload" where
  "pl_write_octet oct p = pl_write [oct] p"


section \<open>Content\<close>

definition sb_ok :: "streambuf \<Rightarrow> bool" where
  "sb_ok sb \<longleftrightarrow> in_use sb \<le> length (sb_data sb)"

definition content :: "streambuf \<Rightarrow> byte list" where
  "content sb = take (in_use sb) (sb_data sb)"

definition pl_ok :: "payload \<Rightarrow> bool" where
  "pl_ok p \<longleftrightarrow> length (pl_data p) = PAYLOAD_CAPACITY \<and> pl_len p \<le> PAYLOAD_CAPACITY \<and> sb_ok (target p)"

text \<open>What was written to a payload, in order: what overflowed, then what it still holds.\<close>

definition pl_content :: "payload \<Rightarrow> byte list" where
  "pl_content p = take (pl_len p) (pl_data p)"

definition pending :: "payload \<Rightarrow> byte list" where
  "pending p = content (target p) @ pl_content p"

lemma length_content: "sb_ok sb \<Longrightarrow> length (content sb) = sb_size sb"
  by (simp add: sb_ok_def content_def sb_size_def)

lemma sb_empty_content [simp]: "sb_ok sb_empty" "content sb_empty = []"
  by (simp_all add: sb_empty_def sb_ok_def content_def)

lemma sb_reserve_content:
  "sb_ok sb \<Longrightarrow> sb_ok (sb_reserve n sb) \<and> content (sb_reserve n sb) = content sb
     \<and> in_use (sb_reserve n sb) = in_use sb \<and> n \<le> length (sb_data (sb_reserve n sb))
     \<and> length (sb_data sb) \<le> length (sb_data (sb_reserve n sb))"
  by (auto simp: sb_reserve_def sb_ok_def content_def)

lemma sb_put_content:
  assumes "sb_ok sb" "in_use sb + length xs \<le> length (sb_data sb)"
  shows "sb_ok (sb_add_tail_content (length xs) (sb\<lparr>sb_data := memcpy_at (sb_data sb) (in_use sb) xs\<rparr>))
    \<and> content (sb_add_tail_content (length xs) (sb\<lparr>sb_data := memcpy_at (sb_data sb) (in_use sb) xs\<rparr>))
      = content sb @ xs"
  using assms take_memcpy_at[OF assms(2)] length_memcpy_at[OF assms(2)]
  by (simp add: sb_ok_def content_def sb_add_tail_content_def)

lemma sb_write_content: "sb_ok sb \<Longrightarrow> sb_ok (sb_write xs sb) \<and> content (sb_write xs sb) = content sb @ xs"
  using sb_reserve_content[of sb "sb_size sb + length xs"]
    sb_put_content[of "sb_ensure (length xs) sb" xs]
  by (simp add: sb_write_def Let_def sb_ensure_def sb_size_def)

lemma sb_write_octet_eq: "sb_ok sb \<Longrightarrow> sb_write_octet x sb = sb_write [x] sb"
  using sb_reserve_content[of sb "sb_size sb + 1"]
  by (simp add: sb_write_octet_def sb_write_def Let_def sb_ensure_def sb_size_def memcpy_at_def
      upd_conv_take_nth_drop)

lemma sb_advance_content:
  assumes "sb_ok sb"
  shows "if n \<le> sb_size sb
    then \<exists>sb'. sb_advance n sb = Some sb' \<and> sb_ok sb' \<and> content sb' = drop n (content sb)
      \<and> sb_capacity sb' = sb_capacity sb
    else sb_advance n sb = None"
  using assms
  by (auto simp: sb_advance_def sb_size_def sb_clear_def sb_ok_def content_def sb_capacity_def Let_def
      take_memmove length_memmove drop_take)

lemma pl_flush_content:
  assumes "pl_ok p"
  shows "pl_ok (pl_flush p) \<and> pending (pl_flush p) = pending p \<and> pl_len (pl_flush p) = 0"
proof -
  let ?xs = "take (pl_len p) (pl_data p)"
  have l: "length ?xs = pl_len p" using assms by (simp add: pl_ok_def)
  have "sb_ok (sb_ensure (pl_len p) (target p)) \<and> content (sb_ensure (pl_len p) (target p)) = content (target p)
      \<and> in_use (sb_ensure (pl_len p) (target p)) + length ?xs \<le> length (sb_data (sb_ensure (pl_len p) (target p)))"
    using sb_reserve_content[of "target p" "sb_size (target p) + pl_len p"] assms l
    by (simp add: pl_ok_def sb_ensure_def sb_size_def)
  then show ?thesis
    using sb_put_content[of "sb_ensure (pl_len p) (target p)" ?xs] assms l
    by (simp add: pl_flush_def pl_clear_def pl_ok_def pending_def pl_content_def Let_def)
qed

lemma pl_write_content:
  assumes "pl_ok p"
  shows "pl_ok (pl_write xs p) \<and> pending (pl_write xs p) = pending p @ xs"
proof -
  define q where "q = (if PAYLOAD_CAPACITY < pl_len p + length xs then pl_flush p else p)"
  have q: "pl_ok q" "pending q = pending p" and room: "length xs \<le> PAYLOAD_CAPACITY \<Longrightarrow> pl_len q + length xs \<le> PAYLOAD_CAPACITY"
    and big: "PAYLOAD_CAPACITY < length xs \<Longrightarrow> pl_len q = 0"
    using pl_flush_content[OF assms] assms by (auto simp: q_def)
  have w: "pl_write xs p = (if PAYLOAD_CAPACITY < length xs then q\<lparr>target := sb_write xs (target q)\<rparr>
      else q\<lparr>pl_data := memcpy_at (pl_data q) (pl_len q) xs, pl_len := pl_len q + length xs\<rparr>)"
    unfolding pl_write_def q_def Let_def by (rule refl)
  show ?thesis
  proof (cases "PAYLOAD_CAPACITY < length xs")
    case True
    then show ?thesis using q big sb_write_content[of "target q" xs]
      by (auto simp: w pl_ok_def pending_def pl_content_def)
  next
    case False
    then have "pl_len q + length xs \<le> length (pl_data q)" using room q by (simp add: pl_ok_def)
    then show ?thesis using False q take_memcpy_at[of "pl_len q" xs "pl_data q"] length_memcpy_at[of "pl_len q" xs "pl_data q"]
      by (auto simp: w pl_ok_def pending_def pl_content_def)
  qed
qed


section \<open>The interface: a sink for octets\<close>

locale byte_sink =
  fixes inv :: "'s \<Rightarrow> bool" and written :: "'s \<Rightarrow> byte list" and put :: "byte list \<Rightarrow> 's \<Rightarrow> 's"
  assumes put_inv: "inv s \<Longrightarrow> inv (put xs s)"
    and put_appends: "inv s \<Longrightarrow> written (put xs s) = written s @ xs"
begin

lemma puts_inv: "inv s \<Longrightarrow> inv (fold put xss s)"
  by (induction xss arbitrary: s) (simp_all add: put_inv)

lemma puts_append: "inv s \<Longrightarrow> written (fold put xss s) = written s @ concat xss"
  by (induction xss arbitrary: s) (simp_all add: put_inv put_appends)

end

interpretation streambuf: byte_sink sb_ok content sb_write
  by unfold_locales (simp_all add: sb_write_content)

interpretation payload: byte_sink pl_ok pending pl_write
  by unfold_locales (simp_all add: pl_write_content)

text \<open>However many pieces are written to a payload, and of whatever sizes, the octets that
  overflowed into the stream buffer followed by those still in the payload are exactly the
  pieces, in order, behind what was there before.\<close>

lemma payload_writes_append:
  assumes "pl_ok p"
  shows "pending (fold pl_write xss p) = pending p @ concat xss \<and> pl_ok (fold pl_write xss p)"
  using payload.puts_append[OF assms] payload.puts_inv[OF assms] by blast

lemma payload_writes_append_witness:
  "pending (fold pl_write [[1, 2], [3]] (payload_on (replicate 1440 0) sb_empty)) = [1, 2, 3]"
  using payload_writes_append[of "payload_on (replicate 1440 0) sb_empty" "[[1, 2], [3]]"]
  by (simp add: pl_ok_def payload_on_def PAYLOAD_CAPACITY_def pending_def pl_content_def)

text \<open>\<open>grow\<close> keeps the content and leaves room to read into, so that the \<open>read\<close> of
  \<open>Connection::onPollIn\<close> is never asked for zero octets (whose result 0 would be taken for
  the end of the stream).\<close>

lemma sb_grow_makes_room:
  assumes "sb_ok sb" "sb_capacity sb < SIZE_MAX div GROWTH_FACTOR"
  shows "content (sb_grow sb) = content sb \<and> sb_ok (sb_grow sb) \<and> 0 < sb_tailroom (sb_grow sb)"
  using assms
  by (auto simp: sb_grow_def sb_reserve_def sb_ok_def content_def sb_tailroom_def sb_capacity_def sb_size_def
      GROWTH_FACTOR_def SIZE_MAX_def)

lemma sb_grow_makes_room_witness: "0 < sb_tailroom (sb_grow sb_empty)"
  using sb_grow_makes_room[of sb_empty]
  by (simp add: sb_capacity_def sb_empty_def SIZE_MAX_def GROWTH_FACTOR_def sb_ok_def)

end
