(* ===== verification/Http_Text.thy ===== *)
theory Http_Text
  imports Stream_Buf
begin

text \<open>
  Text handling: \<open>src/StringUtils-inl.h\<close>, \<open>src/Headers.h\<close>, \<open>src/Headers.cpp\<close>,
  \<open>src/StatusStrings.cpp\<close> and the parsers and printers of \<open>src/http1/HTTP1.cpp\<close>.

  A \<open>std::string\<close> is a byte list.  \<open>tolower\<close> is that of the C locale.  The multimap of
  \<open>Headers\<close> is the list of its entries; which one of several equal entries \<open>find\<close> returns is
  not specified, so the lookups take the choice as the argument \<open>pick\<close>.  Exceptions are the
  constructors of \<open>http_error\<close>; \<open>E_undefined\<close> stands for undefined behaviour.
\<close>

section \<open>Strings\<close>

type_synonym octets = "byte list"

definition str :: "string \<Rightarrow> octets" where
  "str s = map of_char s"

definition CH_SP :: byte where "CH_SP = 0x20"
definition CH_TAB :: byte where "CH_TAB = 0x09"
definition CH_LF :: byte where "CH_LF = 0x0a"
definition CH_CR :: byte where "CH_CR = 0x0d"
definition CH_COLON :: byte where "CH_COLON = 0x3a"

definition is_lws :: "byte \<Rightarrow> bool" where
  "is_lws c \<longleftrightarrow> c = CH_SP \<or> c = CH_TAB"

text \<open>The loop of \<open>trimTrailingLWS\<close>: where it stops.\<close>

fun trim_index :: "octets \<Rightarrow> nat \<Rightarrow> nat" where
  "trim_index s 0 = 0"
| "trim_index s (Suc i) = (if is_lws (s ! i) then trim_index s i else i)"

definition trim_trailing_lws :: "octets \<Rightarrow> octets" where
  "trim_trailing_lws s =
     (let initial_size = length s;
          i = trim_index s initial_size;
          new_size = i + 1
      in if new_size \<noteq> initial_size then take i s else s)"

definition trim_leading_lws :: "octets \<Rightarrow> octets" where
  "trim_leading_lws s =
     (let leading_whitespace = length (takeWhile is_lws s)
      in if leading_whitespace = 0 then s
         else let new_size = length s - leading_whitespace
              in take new_size (memmove s 0 leading_whitespace new_size))"

definition trim_lws :: "octets \<Rightarrow> octets" where
  "trim_lws s = trim_leading_lws (trim_trailing_lws s)"

definition tolower :: "byte \<Rightarrow> byte" where
  "tolower c = (if 0x41 \<le> c \<and> c \<le> 0x5a then c + 0x20 else c)"

definition ascii_lower :: "octets \<Rightarrow> octets" where
  "ascii_lower s = map tolower s"

definition ci_equal :: "octets \<Rightarrow> octets \<Rightarrow> bool" where
  "ci_equal l r \<longleftrightarrow> list_all2 (\<lambda>a b. tolower a = tolower b) l r"

definition split_at :: "octets \<Rightarrow> nat \<Rightarrow> octets \<times> octets" where
  "split_at src pos = (take pos src, drop pos src)"

text \<open>\<open>std::string::find\<close> of a character, from a position on; \<open>npos\<close> is \<open>None\<close>.\<close>

definition find_char :: "byte \<Rightarrow> nat \<Rightarrow> octets \<Rightarrow> nat option" where
  "find_char c start s = find (\<lambda>i. s ! i = c) [start..<length s]"


section \<open>Headers\<close>

datatype http_error =
  E_runtime | E_protocol | E_logic | E_range | E_out_of_range | E_length | E_invalid_argument
  | E_bad_function_call | E_assert | E_undefined

type_synonym hdr = "octets \<times> octets"
type_synonym headers = "hdr list"
type_synonym pick = "hdr list \<Rightarrow> hdr"

definition no_header :: hdr where "no_header = ([], [])"

definition hdr_matching :: "octets \<Rightarrow> headers \<Rightarrow> headers" where
  "hdr_matching n hs = filter (\<lambda>(k, v). ci_equal n k) hs"

definition hdr_find :: "pick \<Rightarrow> octets \<Rightarrow> headers \<Rightarrow> hdr option" where
  "hdr_find pick n hs = (let ms = hdr_matching n hs in if ms = [] then None else Some (pick ms))"

definition hdr_get :: "pick \<Rightarrow> octets \<Rightarrow> headers \<Rightarrow> hdr" where
  "hdr_get pick n hs = (case hdr_find pick n hs of Some h \<Rightarrow> h | None \<Rightarrow> no_header)"

definition hdr_add :: "octets \<Rightarrow> octets \<Rightarrow> headers \<Rightarrow> headers" where
  "hdr_add n v hs = hs @ [(n, v)]"

definition hdr_remove :: "octets \<Rightarrow> headers \<Rightarrow> headers" where
  "hdr_remove n hs = filter (\<lambda>(k, v). \<not> ci_equal n k) hs"

definition hdr_set :: "octets \<Rightarrow> octets \<Rightarrow> headers \<Rightarrow> headers" where
  "hdr_set n v hs = hdr_add n v (hdr_remove n hs)"

definition hdr_append :: "headers \<Rightarrow> headers \<Rightarrow> headers" where
  "hdr_append hs added = foldl (\<lambda>hs (k, v). hdr_add k v hs) hs added"

text \<open>The constructor from strings \<open>name:value\<close>.\<close>

fun hdr_of_strings :: "octets list \<Rightarrow> headers \<Rightarrow> http_error + headers" where
  "hdr_of_strings [] hs = Inr hs"
| "hdr_of_strings (s # ss) hs =
     (case find_char CH_COLON 0 s of
        None \<Rightarrow> Inl E_runtime
      | Some col \<Rightarrow>
          hdr_of_strings ss (hdr_add (trim_lws (take col s)) (trim_lws (drop (col + 1) s)) hs))"

text \<open>\<open>std::to_string\<close> of an unsigned number.\<close>

function to_decimal :: "nat \<Rightarrow> octets" where
  "to_decimal n = (if n < 10 then [of_nat (48 + n)] else to_decimal (n div 10) @ [of_nat (48 + n mod 10)])"
  by pat_completeness auto
termination
  by (relation "measure id") auto

declare to_decimal.simps [simp del]

definition set_content_length :: "headers \<Rightarrow> nat \<Rightarrow> headers" where
  "set_content_length hs n =
     (if hdr_matching (str ''content-length'') hs \<noteq> [] then hs
      else hdr_add (str ''content-length'') (to_decimal n) hs)"


section \<open>HTTP/1: numbers and lines\<close>

definition is_digit :: "byte \<Rightarrow> bool" where
  "is_digit c \<longleftrightarrow> 48 \<le> unat c \<and> unat c \<le> 57"

definition is_space :: "byte \<Rightarrow> bool" where
  "is_space c \<longleftrightarrow> unat c = 32 \<or> 9 \<le> unat c \<and> unat c \<le> 13"

fun decimal_value :: "octets \<Rightarrow> nat \<Rightarrow> nat" where
  "decimal_value [] n = n"
| "decimal_value (c # cs) n = decimal_value cs (10 * n + (unat c - 48))"

text \<open>
  \<open>std::stoul\<close>: white space, a sign, the longest run of digits; what follows is ignored, and a
  minus sign negates modulo 2^64.  \<open>None\<close> is \<open>invalid_argument\<close> or \<open>out_of_range\<close>.
\<close>

definition stoul :: "octets \<Rightarrow> nat option" where
  "stoul s =
     (let s = dropWhile is_space s;
          (neg, s) = (if s \<noteq> [] \<and> hd s = 0x2d then (True, tl s)
                      else if s \<noteq> [] \<and> hd s = 0x2b then (False, tl s) else (False, s));
          ds = takeWhile is_digit s;
          v = decimal_value ds 0
      in if ds = [] then None
         else if 2 ^ 64 \<le> v then None
         else Some (if neg then (2 ^ 64 - v) mod 2 ^ 64 else v))"

definition get_content_length :: "pick \<Rightarrow> headers \<Rightarrow> http_error + int" where
  "get_content_length pick hs =
     (case hdr_find pick (str ''content-length'') hs of
        Some (_, v) \<Rightarrow>
          (case stoul v of
             None \<Rightarrow> Inl E_runtime
           | Some len \<Rightarrow> if 2 ^ 63 - 1 < len then Inl E_runtime else Inr (int len))
      | None \<Rightarrow>
          (case hdr_find pick (str ''transfer-encoding'') hs of
             Some _ \<Rightarrow> Inr (-1)
           | None \<Rightarrow> Inr 0))"

definition render_headers :: "headers \<Rightarrow> octets" where
  "render_headers hs = concat (map (\<lambda>(k, v). k @ [CH_COLON, CH_SP] @ v @ [CH_CR, CH_LF]) hs) @ [CH_CR, CH_LF]"

definition request_line :: "octets \<Rightarrow> octets \<Rightarrow> octets" where
  "request_line meth path = meth @ [CH_SP] @ path @ str '' HTTP/1.1''"

definition status_string :: "nat \<Rightarrow> http_error + octets" where
  "status_string code =
     (if code < 100 \<or> 599 < code then Inl E_range
      else Inr [of_nat (48 + code div 100), of_nat (48 + code div 10 mod 10), of_nat (48 + code mod 10)])"

definition status_line :: "nat \<Rightarrow> http_error + octets" where
  "status_line code =
     (case status_string code of
        Inl e \<Rightarrow> Inl e
      | Inr s \<Rightarrow>
          let status = str ''HTTP/1.1 xxx '' @ [0xf0, 0x9f, 0x98, 0x8e]
          in Inr (status[9 := s ! 0, 10 := s ! 1, 11 := s ! 2]))"

text \<open>The end of the first line: the index behind its newline.\<close>

definition find_end_of_line :: "octets \<Rightarrow> nat option" where
  "find_end_of_line buf =
     (if length buf = 0 then None
      else if CH_LF \<notin> set buf then None
      else Some (length (takeWhile (\<lambda>c. c \<noteq> CH_LF) buf) + 1))"

definition remove_trailing_char :: "byte \<Rightarrow> octets \<Rightarrow> octets" where
  "remove_trailing_char c s = (if s \<noteq> [] \<and> s ! (length s - 1) = c then take (length s - 1) s else s)"

definition trim_newline :: "octets \<Rightarrow> octets" where
  "trim_newline s = remove_trailing_char CH_CR (remove_trailing_char CH_LF s)"

text \<open>
  The parsers read a \<open>StreamBuf\<close> through \<open>data\<close>, \<open>size\<close> and \<open>advance\<close>, so it is represented
  by its content here; \<open>advance_content\<close> below is the refinement.
\<close>

definition advance :: "nat \<Rightarrow> octets \<Rightarrow> http_error + octets" where
  "advance n buf = (if length buf < n then Inl E_length else Inr (drop n buf))"

definition get_line :: "octets \<Rightarrow> http_error + (octets \<times> octets) option" where
  "get_line buf =
     (case find_end_of_line buf of
        None \<Rightarrow> Inr None
      | Some line_len \<Rightarrow>
          (case advance line_len buf of
             Inl e \<Rightarrow> Inl e
           | Inr rest \<Rightarrow> Inr (Some (trim_newline (take line_len buf), rest))))"

record request_line_parts =
  rl_method :: octets
  rl_path :: octets
  rl_version :: octets

definition parse_request_line :: "octets \<Rightarrow> http_error + request_line_parts" where
  "parse_request_line s =
     (case find_char CH_SP 0 s of
        None \<Rightarrow> Inl E_protocol
      | Some sp1 \<Rightarrow>
          (case find_char CH_SP (sp1 + 1) s of
             None \<Rightarrow> Inl E_protocol
           | Some sp2 \<Rightarrow>
               Inr \<lparr>rl_method = take sp1 s, rl_path = take (sp2 - sp1 - 1) (drop (sp1 + 1) s),
                    rl_version = drop (sp2 + 1) s\<rparr>))"

record status_line_parts =
  sl_code :: nat
  sl_reason_phrase :: octets
  sl_version :: octets

definition code_to_number :: "octets \<Rightarrow> nat option" where
  "code_to_number code =
     (if is_digit (code ! 0) \<and> is_digit (code ! 1) \<and> is_digit (code ! 2)
      then Some ((unat (code ! 0) - 48) * 100 + (unat (code ! 1) - 48) * 10 + (unat (code ! 2) - 48))
      else None)"

definition parse_status_line :: "octets \<Rightarrow> http_error + status_line_parts" where
  "parse_status_line s =
     (case find_char CH_SP 0 s of
        None \<Rightarrow> Inl E_protocol
      | Some sp1 \<Rightarrow>
          (case find_char CH_SP (sp1 + 1) s of
             None \<Rightarrow> Inl E_protocol
           | Some sp2 \<Rightarrow>
               let code = take (sp2 - sp1 - 1) (drop (sp1 + 1) s)
               in if length code \<noteq> 3 then Inl E_protocol
                  else (case code_to_number code of
                          None \<Rightarrow> Inl E_protocol
                        | Some n \<Rightarrow>
                            Inr \<lparr>sl_code = n, sl_reason_phrase = drop (sp2 + 1) s, sl_version = take sp1 s\<rparr>)))"


section \<open>Lines\<close>

lemma find_end_of_line_Some:
  "CH_LF \<notin> set l \<Longrightarrow> find_end_of_line (l @ CH_LF # rest) = Some (length l + 1)"
  by (simp add: find_end_of_line_def takeWhile_append)

lemma trim_newline_LF: "trim_newline (l @ [CH_LF]) = remove_trailing_char CH_CR l"
  by (simp add: trim_newline_def remove_trailing_char_def)

lemma remove_trailing_char_snoc [simp]: "remove_trailing_char c (l @ [c]) = l"
  by (simp add: remove_trailing_char_def)

lemma remove_trailing_char_other: "l = [] \<or> last l \<noteq> c \<Longrightarrow> remove_trailing_char c l = l"
  by (auto simp: remove_trailing_char_def last_conv_nth)

text \<open>What \<open>getLine\<close> does to the content of a buffer.\<close>

definition next_line :: "octets \<Rightarrow> (octets \<times> octets) option" where
  "next_line s =
     (if CH_LF \<in> set s
      then let l = takeWhile (\<lambda>c. c \<noteq> CH_LF) s
           in Some (remove_trailing_char CH_CR l, drop (length l + 1) s)
      else None)"

lemma next_line_Some:
  "CH_LF \<notin> set l \<Longrightarrow> next_line (l @ CH_LF # rest) = Some (remove_trailing_char CH_CR l, rest)"
  by (simp add: next_line_def takeWhile_append)

lemma CH_LF_CR [simp]: "CH_LF \<noteq> CH_CR" "CH_CR \<noteq> CH_LF"
  by (simp_all add: CH_LF_def CH_CR_def)

lemma next_line_CRLF: "CH_LF \<notin> set l \<Longrightarrow> next_line (l @ CH_CR # CH_LF # rest) = Some (l, rest)"
  using next_line_Some[of "l @ [CH_CR]" rest] by simp

lemma next_line_None: "next_line s = None \<longleftrightarrow> CH_LF \<notin> set s"
  by (simp add: next_line_def Let_def)

lemma next_line_eq_Some:
  "next_line s = Some (l, r) \<longleftrightarrow>
     (\<exists>ys. s = ys @ CH_LF # r \<and> CH_LF \<notin> set ys \<and> l = remove_trailing_char CH_CR ys)"
proof
  assume s: "next_line s = Some (l, r)"
  then obtain ys zs where "s = ys @ CH_LF # zs" "CH_LF \<notin> set ys"
    using split_list_first[of CH_LF s] by (auto simp: next_line_def split: if_splits)
  then show "\<exists>ys. s = ys @ CH_LF # r \<and> CH_LF \<notin> set ys \<and> l = remove_trailing_char CH_CR ys"
    using s next_line_Some[of ys zs] by auto
qed (auto simp: next_line_Some)

lemma next_line_append: "next_line s = Some (l, r) \<Longrightarrow> next_line (s @ t) = Some (l, r @ t)"
  by (auto simp: next_line_eq_Some)

lemma next_line_shorter: "next_line s = Some (l, r) \<Longrightarrow> length r < length s"
  by (auto simp: next_line_eq_Some)

lemma get_line_eq: "get_line buf = Inr (next_line buf)"
proof (cases "CH_LF \<in> set buf")
  case False
  then show ?thesis by (simp add: next_line_def get_line_def find_end_of_line_def)
next
  case True
  then obtain l r where "buf = l @ CH_LF # r" "CH_LF \<notin> set l"
    using split_list_first by metis
  then show ?thesis
    using next_line_Some[of l r] find_end_of_line_Some[of l r] trim_newline_LF[of l]
    by (simp add: get_line_def advance_def)
qed

lemma advance_content:
  "sb_ok sb \<Longrightarrow> advance n (content sb)
     = (case sb_advance n sb of None \<Rightarrow> Inl E_length | Some sb' \<Rightarrow> Inr (content sb'))"
  using sb_advance_content[of sb n] by (auto simp: advance_def length_content split: if_splits)


section \<open>Blanks around a value\<close>

lemma trim_index_append: "n \<le> length s \<Longrightarrow> trim_index (s @ t) n = trim_index s n"
  by (induction n) (simp_all add: nth_append)

lemma trim_index_blanks:
  "\<forall>c\<in>set ws. is_lws c \<Longrightarrow> u = [] \<or> \<not> is_lws (last u) \<Longrightarrow> trim_index (u @ ws) (length u + length ws) = length u - 1"
proof (induction ws rule: rev_induct)
  case Nil
  then show ?case by (cases u rule: rev_cases) auto
next
  case (snoc w ws)
  then show ?case using trim_index_append[of "length u + length ws" "u @ ws" "[w]"] by (simp add: nth_append)
qed

lemma trim_trailing_blanks:
  assumes "\<forall>c\<in>set ws. is_lws c" "u \<noteq> []" "\<not> is_lws (last u)"
  shows "trim_trailing_lws (u @ ws) = (if ws = [] then u else butlast u)"
  using trim_index_blanks[OF assms(1)] assms
  by (auto simp: trim_trailing_lws_def butlast_conv_take)

lemma trim_leading_blanks:
  assumes "\<forall>c\<in>set ws. is_lws c" "u = [] \<or> \<not> is_lws (hd u)"
  shows "trim_leading_lws (ws @ u) = u"
proof -
  have "takeWhile is_lws (ws @ u) = ws"
    using assms by (cases u) (simp_all add: takeWhile_append)
  then show ?thesis
    using take_memmove[of "length ws" "length u" "ws @ u"] by (simp add: trim_leading_lws_def Let_def)
qed

lemma trim_lws_blanks:
  assumes "\<forall>c\<in>set pre. is_lws c" "\<forall>c\<in>set post. is_lws c" "u \<noteq> []" "\<not> is_lws (hd u)" "\<not> is_lws (last u)"
  shows "trim_lws (pre @ u @ post) = (if post = [] then u else butlast u)"
proof -
  have "trim_trailing_lws ((pre @ u) @ post) = pre @ (if post = [] then u else butlast u)"
    using trim_trailing_blanks[OF assms(2), of "pre @ u"] assms(3,5) by (simp add: butlast_append)
  moreover have "butlast u = [] \<or> \<not> is_lws (hd (butlast u))"
    using assms(3,4) by (cases u) auto
  ultimately show ?thesis
    using trim_leading_blanks[OF assms(1), of u] trim_leading_blanks[OF assms(1), of "butlast u"] assms(4)
    by (simp add: trim_lws_def)
qed

lemma trim_lws_Nil [simp]: "trim_lws [] = []"
  by (simp add: trim_lws_def trim_trailing_lws_def trim_leading_lws_def)


section \<open>First lines\<close>

lemma find_char_Some:
  assumes "c \<notin> set a"
  shows "find_char c (length p) (p @ a @ c # b) = Some (length p + length a)"
proof -
  have "[length p..<length (p @ a @ c # b)] ! length a = length p + length a"
    by (subst nth_upt) simp_all
  then show ?thesis
    using assms unfolding find_char_def find_Some_iff
    by (intro exI[of _ "length a"]) (auto simp: nth_append in_set_conv_nth)
qed

lemma find_char_0: "c \<notin> set a \<Longrightarrow> find_char c 0 (a @ c # b) = Some (length a)"
  using find_char_Some[of c a "[]" b] by simp

lemma find_char_None: "find_char c k s = None \<longleftrightarrow> c \<notin> set (drop k s)"
proof -
  have "drop k s = map ((!) s) [k..<length s]" by (metis add_0 drop_map drop_upt map_nth)
  then show ?thesis by (auto simp: find_char_def find_None_iff)
qed

lemma find_char_Some_iff: "find_char c 0 s = Some i \<longleftrightarrow> (\<exists>a b. s = a @ c # b \<and> c \<notin> set a \<and> i = length a)"
proof
  assume i: "find_char c 0 s = Some i"
  then have "c \<in> set s" using find_char_None[of c 0 s] by auto
  then obtain a b where "s = a @ c # b" "c \<notin> set a" using split_list_first by metis
  then show "\<exists>a b. s = a @ c # b \<and> c \<notin> set a \<and> i = length a" using i find_char_0[of c a b] by auto
qed (auto simp: find_char_0)

lemma parse_request_line_bad:
  assumes "length (filter (\<lambda>c. c = CH_SP) s) < 2"
  shows "parse_request_line s = Inl E_protocol"
proof (cases "find_char CH_SP 0 s")
  case (Some i)
  then obtain a b where s: "s = a @ CH_SP # b" "CH_SP \<notin> set a" "i = length a" by (auto simp: find_char_Some_iff)
  then have "CH_SP \<notin> set b" using assms by (auto simp: filter_empty_conv)
  then have "find_char CH_SP (i + 1) s = None" by (simp add: find_char_None s)
  then show ?thesis using Some by (simp add: parse_request_line_def)
qed (simp add: parse_request_line_def)

lemma parse_request_line_parts:
  assumes "CH_SP \<notin> set meth" "CH_SP \<notin> set path"
  shows "parse_request_line (meth @ CH_SP # path @ CH_SP # vers)
    = Inr \<lparr>rl_method = meth, rl_path = path, rl_version = vers\<rparr>"
  using find_char_0[OF assms(1), of "path @ CH_SP # vers"]
    find_char_Some[OF assms(2), of "meth @ [CH_SP]" vers]
  by (simp add: parse_request_line_def)

lemma str_HTTP11: "str '' HTTP/1.1'' = CH_SP # str ''HTTP/1.1''"
  by (simp add: str_def CH_SP_def of_char_def)

lemma parse_request_line_request_line:
  assumes "CH_SP \<notin> set meth" "CH_SP \<notin> set path"
  shows "parse_request_line (request_line meth path)
    = Inr \<lparr>rl_method = meth, rl_path = path, rl_version = str ''HTTP/1.1''\<rparr>"
  using parse_request_line_parts[OF assms, of "str ''HTTP/1.1''"] by (simp add: request_line_def str_HTTP11)


section \<open>Numbers\<close>

lemma decimal_value_append: "decimal_value (xs @ [d]) n = 10 * decimal_value xs n + (unat d - 48)"
  by (induction xs arbitrary: n) simp_all

lemma unat_digit: "d < 10 \<Longrightarrow> unat (of_nat (48 + d) :: byte) = 48 + d"
  by (simp add: unat_of_nat del: of_nat_add)

lemma decimal_value_to_decimal: "decimal_value (to_decimal n) 0 = n"
proof (induction n rule: to_decimal.induct)
  case (1 n)
  show ?case
  proof (cases "n < 10")
    case True
    then show ?thesis using unat_digit[of n] by (subst to_decimal.simps) simp
  next
    case False
    then show ?thesis using 1 unat_digit[of "n mod 10"]
      by (subst to_decimal.simps) (simp add: decimal_value_append)
  qed
qed

lemma to_decimal_digits: "c \<in> set (to_decimal n) \<Longrightarrow> is_digit c"
proof (induction n rule: to_decimal.induct)
  case (1 n)
  have "is_digit (of_nat (48 + d))" if "d < 10" for d
    using unat_digit[OF that] that by (simp add: is_digit_def)
  from this[of n] this[of "n mod 10"] show ?case
    using 1 by (cases "n < 10") (auto simp: to_decimal.simps[of n])
qed

lemma to_decimal_not_Nil [simp]: "to_decimal n \<noteq> []"
  by (subst to_decimal.simps) simp

lemma digit_not_space: "is_digit c \<Longrightarrow> \<not> is_space c \<and> c \<noteq> 0x2d \<and> c \<noteq> 0x2b"
  by (auto simp: is_digit_def is_space_def)

lemma stoul_to_decimal:
  assumes "n < 2 ^ 64" "rest = [] \<or> \<not> is_digit (hd rest)"
  shows "stoul (to_decimal n @ rest) = Some n"
proof -
  let ?s = "to_decimal n @ rest"
  have h: "is_digit (hd (to_decimal n))" by (rule to_decimal_digits[OF hd_in_set[OF to_decimal_not_Nil]])
  then have "dropWhile is_space ?s = ?s" "hd ?s \<noteq> 0x2d" "hd ?s \<noteq> 0x2b"
    using digit_not_space[OF h] by (cases "to_decimal n"; simp)+
  moreover have "takeWhile is_digit ?s = to_decimal n"
    using assms(2) to_decimal_digits by (cases rest) (simp_all add: takeWhile_append)
  ultimately show ?thesis
    using assms(1) by (simp add: stoul_def decimal_value_to_decimal)
qed

lemma status_line_octets:
  assumes "100 \<le> code" "code \<le> 599"
  shows "status_line code = Inr (str ''HTTP/1.1'' @ CH_SP #
    [of_nat (48 + code div 100), of_nat (48 + code div 10 mod 10), of_nat (48 + code mod 10)]
    @ CH_SP # [0xf0, 0x9f, 0x98, 0x8e])"
  using assms by (simp add: status_line_def status_string_def str_def of_char_def CH_SP_def Let_def del: of_nat_add)

text \<open>The status line the server prints for a status code between 100 and 599 is read by the
  client as that code; other codes are refused when printing.\<close>

lemma status_line_roundtrip:
  "if 100 \<le> code \<and> code \<le> 599
   then \<exists>line. status_line code = Inr line \<and>
     parse_status_line line
       = Inr \<lparr>sl_code = code, sl_reason_phrase = [0xf0, 0x9f, 0x98, 0x8e], sl_version = str ''HTTP/1.1''\<rparr>
   else status_line code = Inl E_range"
proof (cases "100 \<le> code \<and> code \<le> 599")
  case True
  let ?d = "[of_nat (48 + code div 100), of_nat (48 + code div 10 mod 10), of_nat (48 + code mod 10)] :: octets"
  let ?e = "[0xf0, 0x9f, 0x98, 0x8e] :: octets"
  have d100: "code div 100 < 10" using True by (simp add: less_mult_imp_div_less)
  have u: "unat (?d ! 0) = 48 + code div 100" "unat (?d ! 1) = 48 + code div 10 mod 10" "unat (?d ! 2) = 48 + code mod 10"
    using True unat_digit[OF d100] unat_digit[of "code div 10 mod 10"] unat_digit[of "code mod 10"]
    by (simp_all del: of_nat_add)
  then have n: "code_to_number ?d = Some (code div 100 * 100 + code div 10 mod 10 * 10 + code mod 10)"
    using d100 by (simp add: code_to_number_def is_digit_def less_Suc_eq_le[symmetric] del: of_nat_add)
  have "code div 10 div 10 = code div 100" using div_mult2_eq[of code 10 10] by simp
  then have c: "code div 100 * 100 + code div 10 mod 10 * 10 + code mod 10 = code"
    using div_mult_mod_eq[of code 10] div_mult_mod_eq[of "code div 10" 10] by linarith
  have nosp: "CH_SP \<notin> set (str ''HTTP/1.1'')" by (simp add: str_def of_char_def CH_SP_def)
  have "unat CH_SP = 32" by (simp add: CH_SP_def)
  then have "CH_SP \<notin> set ?d" using u by (auto simp del: of_nat_add)
  then have "parse_status_line (str ''HTTP/1.1'' @ CH_SP # ?d @ CH_SP # ?e)
      = Inr \<lparr>sl_code = code, sl_reason_phrase = ?e, sl_version = str ''HTTP/1.1''\<rparr>"
    using find_char_0[OF nosp, of "?d @ CH_SP # ?e"] find_char_Some[of CH_SP ?d "str ''HTTP/1.1'' @ [CH_SP]" ?e] n c
    by (simp add: parse_status_line_def Let_def str_def del: of_nat_add)
  then show ?thesis using True status_line_octets[of code] by (auto simp del: of_nat_add)
next
  case False
  then show ?thesis by (auto simp: status_line_def status_string_def)
qed

end
