(* ===== verification/Http_Message.thy ===== *)
theory Http_Message
  imports Http_Text "HOL-Library.Multiset" "HOL-Library.Sublist"
begin

text \<open>
  Messages, routes and the interface of a transport to its connection: \<open>src/Message.h\<close>,
  \<open>src/Request.h\<close>, \<open>src/Response.h\<close>, \<open>src/StaticResponder.cpp\<close>, \<open>src/Routes.cpp\<close>,
  \<open>src/Stream.cpp\<close>, \<open>src/http1/UpgradeRegistry.cpp\<close> and the senders of
  \<open>src/http1/Transport.cpp\<close>.

  A transport never looks at the state of its connection, it only calls it.  An operation of a
  transport is therefore a \<open>'a run\<close>: the calls it makes, in order, and its result or the
  exception that leaves it; the calls made before an exception are kept.

  What the code leaves open or does not own is the record \<open>env\<close>: which of several equal headers
  \<open>find\<close> returns, the order in which the multimap is iterated, the value of \<open>Date::now\<close>, the
  routes with their handlers, the functions of the fb64 submodule (\<open>fb64_decode\<close> yields the octets
  it writes, as many as \<open>fb64_decoded_size_nopad\<close> announces, or fails), whether \<open>char\<close> is signed
  and whether assertions are compiled out.  A handler is the list of
  the responses it gives, in order (a handler that responds later is not covered).
\<close>

section \<open>Messages\<close>

record message =
  m_body :: octets
  m_headers :: headers

definition message_new :: message where
  "message_new = \<lparr>m_body = [], m_headers = []\<rparr>"

record request =
  rq_message :: message
  rq_method :: octets
  rq_path :: octets

record response =
  rs_message :: message
  rs_status :: nat

definition response_new :: "nat \<Rightarrow> octets \<Rightarrow> response" where
  "response_new status body = \<lparr>rs_message = \<lparr>m_body = body, m_headers = []\<rparr>, rs_status = status\<rparr>"

type_synonym handler = "request \<Rightarrow> response list"
type_synonym routes = "(octets \<times> handler) list"

definition add_standard_headers :: "response \<Rightarrow> response" where
  "add_standard_headers r =
     r\<lparr>rs_message := (rs_message r)\<lparr>m_headers :=
        hdr_set (str ''content-length'') (to_decimal (length (m_body (rs_message r)))) (m_headers (rs_message r))\<rparr>\<rparr>"

definition static_responder :: "response \<Rightarrow> handler" where
  "static_responder r = (\<lambda>request. [add_standard_headers r])"

definition add_handler :: "octets \<Rightarrow> handler \<Rightarrow> routes \<Rightarrow> routes" where
  "add_handler path h routes = routes @ [(path, h)]"

text \<open>\<open>Routes::dispatch\<close>: the responses given to the request.\<close>

fun routes_dispatch :: "routes \<Rightarrow> request \<Rightarrow> response list" where
  "routes_dispatch [] req = []"
| "routes_dispatch ((path, h) # routes) req =
     (if take (length path) (rq_path req) = path then h req else routes_dispatch routes req)"


section \<open>The environment\<close>

record env =
  e_pick :: pick
  e_order :: "headers \<Rightarrow> headers"
  e_now :: octets
  e_routes :: routes
  e_fb64_size :: "nat \<Rightarrow> nat"
  e_fb64 :: "octets \<Rightarrow> octets option"
  e_char_signed :: bool
  e_ndebug :: bool

text \<open>What the standard says of \<open>find\<close> and of iteration.\<close>

definition env_ok :: "env \<Rightarrow> bool" where
  "env_ok e \<longleftrightarrow> (\<forall>hs. hs \<noteq> [] \<longrightarrow> e_pick e hs \<in> set hs) \<and> (\<forall>hs. mset (e_order e hs) = mset hs)"


section \<open>Calls on the connection\<close>

text \<open>
  \<open>Send_payload\<close>: the pieces written to a payload of \<open>getOutgoingPayload\<close>, which is then
  sent.  \<open>Send_raw\<close>: \<open>send(data, len)\<close>.  \<open>Handle_response\<close>: the response handler of a client stream is
  called; only the transports of proxied requests do that.
\<close>

datatype action =
  Send_payload "octets list" | Send_raw octets | Close_connection | Handle_response response

type_synonym 'a run = "action list \<times> (http_error + 'a)"

definition return :: "'a \<Rightarrow> 'a run" where
  "return x = ([], Inr x)"

definition raise :: "http_error \<Rightarrow> 'a run" where
  "raise err = ([], Inl err)"

definition call :: "action \<Rightarrow> unit run" where
  "call a = ([a], Inr ())"

definition and_then :: "'a run \<Rightarrow> ('a \<Rightarrow> 'b run) \<Rightarrow> 'b run" where
  "and_then m f =
     (case m of
        (acts, Inl err) \<Rightarrow> (acts, Inl err)
      | (acts, Inr x) \<Rightarrow> (case f x of (acts', r) \<Rightarrow> (acts @ acts', r)))"

definition lift_sum :: "http_error + 'a \<Rightarrow> 'a run" where
  "lift_sum r = ([], r)"

named_theorems run_simps \<open>evaluation of runs\<close>

lemma return_run [run_simps]: "return x = ([], Inr x)" by (rule return_def)
lemma raise_run [run_simps]: "raise err = ([], Inl err)" by (rule raise_def)
lemma call_run [run_simps]: "call a = ([a], Inr ())" by (rule call_def)
lemma lift_sum_run [run_simps]: "lift_sum r = ([], r)" by (rule lift_sum_def)

lemma and_then_run [run_simps]:
  "and_then (acts, Inl err) f = (acts, Inl err)"
  "and_then (acts, Inr x) f = (acts @ fst (f x), snd (f x))"
  by (simp_all add: and_then_def split_beta)

lemma and_then_Inr:
  "and_then m f = (acts, Inr y) \<longleftrightarrow>
     (\<exists>a1 x a2. m = (a1, Inr x) \<and> f x = (a2, Inr y) \<and> acts = a1 @ a2)"
  by (cases m; cases "snd m") (auto simp: and_then_def split: prod.splits)

lemma and_then_assoc: "and_then (and_then m f) g = and_then m (\<lambda>x. and_then (f x) g)"
  by (auto simp: and_then_def split: prod.splits sum.splits)

lemma and_then_return [simp]: "and_then m return = m" "and_then (return x) f = f x"
  by (auto simp: and_then_def return_def split: prod.splits sum.splits)


section \<open>Sending HTTP/1 messages\<close>

definition PRODUCT :: octets where "PRODUCT = str ''Shitty''"

definition set_date_header :: "env \<Rightarrow> headers \<Rightarrow> headers" where
  "set_date_header e hs =
     (if hdr_matching (str ''date'') hs \<noteq> [] then hs else hdr_add (str ''date'') (e_now e) hs)"

definition set_server_header :: "headers \<Rightarrow> headers" where
  "set_server_header hs =
     (if hdr_matching (str ''server'') hs \<noteq> [] then hs else hdr_add (str ''server'') PRODUCT hs)"

definition set_general_server_headers :: "env \<Rightarrow> headers \<Rightarrow> headers" where
  "set_general_server_headers e hs = set_server_header (set_date_header e hs)"

definition set_user_agent_header :: "headers \<Rightarrow> headers" where
  "set_user_agent_header hs =
     (if hdr_matching (str ''user-agent'') hs \<noteq> [] then hs else hdr_add (str ''user-agent'') PRODUCT hs)"

definition send_headers :: "env \<Rightarrow> octets \<Rightarrow> headers \<Rightarrow> unit run" where
  "send_headers e first_line hs =
     (let hs = set_general_server_headers e hs
      in call (Send_payload [first_line, [CH_CR, CH_LF], render_headers (e_order e hs)]))"

definition outgoing_headers :: "env \<Rightarrow> message \<Rightarrow> headers" where
  "outgoing_headers e m =
     set_content_length (set_general_server_headers e (m_headers m)) (length (m_body m))"

definition send_message :: "env \<Rightarrow> octets \<Rightarrow> message \<Rightarrow> unit run" where
  "send_message e first_line m =
     call (Send_payload [first_line, [CH_CR, CH_LF], render_headers (e_order e (outgoing_headers e m)), m_body m])"

definition send_response :: "env \<Rightarrow> response \<Rightarrow> unit run" where
  "send_response e r =
     and_then (lift_sum (status_line (rs_status r))) (\<lambda>line. send_message e line (rs_message r))"

fun send_responses :: "env \<Rightarrow> response list \<Rightarrow> unit run" where
  "send_responses e [] = return ()"
| "send_responses e (r # rs) = and_then (send_response e r) (\<lambda>_. send_responses e rs)"


section \<open>Upgrades\<close>

text \<open>The registry maps tokens to upgraders; \<open>try_emplace\<close> keeps an existing entry.\<close>

type_synonym 'u registry = "octets \<Rightarrow> 'u option"

definition registry_add :: "octets \<Rightarrow> 'u \<Rightarrow> 'u registry \<Rightarrow> 'u registry \<times> bool" where
  "registry_add token u reg =
     (case reg token of Some _ \<Rightarrow> (reg, False) | None \<Rightarrow> (reg(token := Some u), True))"

definition registry_get :: "'u registry \<Rightarrow> octets \<Rightarrow> 'u option" where
  "registry_get reg token = reg token"


section \<open>Headers and their framing\<close>

lemma ci_equal_refl [simp]: "ci_equal n n"
  by (simp add: ci_equal_def list_all2_refl)

lemma ci_equal_sym: "ci_equal a b \<Longrightarrow> ci_equal b a"
  by (auto simp: ci_equal_def list_all2_conv_all_nth)

lemma ci_equal_trans: "ci_equal a b \<Longrightarrow> ci_equal b c \<Longrightarrow> ci_equal a c"
  by (auto simp: ci_equal_def list_all2_conv_all_nth)

lemma hdr_matching_add [simp]:
  "hdr_matching n (hdr_add k v hs) = hdr_matching n hs @ (if ci_equal n k then [(k, v)] else [])"
  by (simp add: hdr_matching_def hdr_add_def)

lemma hdr_matching_remove:
  "hdr_matching n (hdr_remove k hs) = (if ci_equal n k then [] else hdr_matching n hs)"
proof -
  have "ci_equal n k \<Longrightarrow> ci_equal n x = ci_equal k x" for x
    using ci_equal_trans ci_equal_sym by blast
  moreover have "\<not> ci_equal n k \<Longrightarrow> ci_equal n x \<Longrightarrow> \<not> ci_equal k x" for x
    using ci_equal_trans ci_equal_sym by blast
  ultimately show ?thesis
    by (auto simp: hdr_matching_def hdr_remove_def filter_empty_conv split_beta intro!: filter_cong)
qed

text \<open>
  The interface of the header map: what a lookup sees after an insertion or a removal.  Its
  clients rely on the laws only.
\<close>

locale header_map =
  fixes same :: "octets \<Rightarrow> octets \<Rightarrow> bool"
    and entries_of :: "octets \<Rightarrow> 'm \<Rightarrow> hdr list"
    and add :: "octets \<Rightarrow> octets \<Rightarrow> 'm \<Rightarrow> 'm"
    and remove :: "octets \<Rightarrow> 'm \<Rightarrow> 'm"
  assumes same_refl: "same n n"
    and entries_of_add: "entries_of n (add k v m) = entries_of n m @ (if same n k then [(k, v)] else [])"
    and entries_of_remove: "entries_of n (remove k m) = (if same n k then [] else entries_of n m)"
begin

lemma set_then_get: "entries_of n (add n v (remove n m)) = [(n, v)]"
  by (simp add: entries_of_add entries_of_remove same_refl)

lemma set_other: "\<not> same k n \<Longrightarrow> entries_of k (add n v (remove n m)) = entries_of k m"
  by (simp add: entries_of_add entries_of_remove)

lemma add_new: "entries_of n m = [] \<Longrightarrow> entries_of n (add n v m) = [(n, v)]"
  by (simp add: entries_of_add same_refl)

end

interpretation hdrs: header_map ci_equal hdr_matching hdr_add hdr_remove
  by unfold_locales (simp_all add: hdr_matching_remove)

lemma hdr_find_single:
  assumes "env_ok e" "hdr_matching n hs = [h]"
  shows "hdr_find (e_pick e) n hs = Some h"
proof -
  have "e_pick e [h] \<in> set [h]" using assms(1) unfolding env_ok_def by blast
  then show ?thesis using assms(2) by (simp add: hdr_find_def)
qed

lemma hdr_matching_order:
  assumes "env_ok e"
  shows "mset (hdr_matching n (e_order e hs)) = mset (hdr_matching n hs)"
  using assms by (simp add: hdr_matching_def env_ok_def)

lemma ci_equal_length: "ci_equal a b \<Longrightarrow> length a = length b"
  by (simp add: ci_equal_def list_all2_lengthD)

lemma general_header_names:
  "length (str ''content-length'') = 14" "length (str ''date'') = 4" "length (str ''server'') = 6"
  by (simp_all add: str_def)

lemma matching_general_headers:
  "length n \<noteq> 4 \<Longrightarrow> length n \<noteq> 6 \<Longrightarrow>
     hdr_matching n (set_general_server_headers e hs) = hdr_matching n hs"
  by (auto simp: set_general_server_headers_def set_server_header_def set_date_header_def
      general_header_names dest!: ci_equal_length)

lemma get_content_length_single:
  assumes "env_ok e" "hdr_matching (str ''content-length'') hs = [(n, to_decimal len)]" "len < 2 ^ 63"
  shows "get_content_length (e_pick e) hs = Inr (int len)"
  using hdr_find_single[OF assms(1,2)] stoul_to_decimal[of len "[]"] assms(3)
  by (simp add: get_content_length_def)

text \<open>The headers \<open>sendMessage\<close> prints, in whatever order the map yields them, announce the
  length of the body it prints, when the caller has set no Content-Length of its own (such a
  header is trusted).\<close>

lemma send_message_framed:
  assumes "env_ok e" "hdr_matching (str ''content-length'') (m_headers m) = []" "length (m_body m) < 2 ^ 63"
  shows "\<exists>hs. send_message e line m
      = ([Send_payload [line, [CH_CR, CH_LF], render_headers hs, m_body m]], Inr ())
    \<and> get_content_length (e_pick e) hs = Inr (int (length (m_body m)))"
proof -
  let ?n = "str ''content-length''" and ?hs = "outgoing_headers e m"
  have "hdr_matching ?n ?hs = [(?n, to_decimal (length (m_body m)))]"
    using assms(2) hdrs.add_new matching_general_headers[of ?n e "m_headers m"]
    by (simp add: outgoing_headers_def set_content_length_def general_header_names)
  then have "hdr_matching ?n (e_order e ?hs) = [(?n, to_decimal (length (m_body m)))]"
    using hdr_matching_order[OF assms(1), of ?n ?hs] by simp
  from get_content_length_single[OF assms(1) this assms(3)] show ?thesis
    by (auto simp: send_message_def call_def)
qed

definition plain_env :: "routes \<Rightarrow> env" where
  "plain_env rs = \<lparr>e_pick = hd, e_order = id, e_now = str ''Thu, 01 Jan 1970 00:00:00 GMT'', e_routes = rs,
     e_fb64_size = (\<lambda>n. n * 3 div 4), e_fb64 = (\<lambda>s. if s = [] then Some [] else None),
     e_char_signed = True, e_ndebug = False\<rparr>"

lemma plain_env_ok: "env_ok (plain_env rs)"
  by (simp add: plain_env_def env_ok_def)

lemma send_message_framed_witness:
  "\<exists>hs. send_message (plain_env []) [] \<lparr>m_body = [1, 2], m_headers = []\<rparr>
      = ([Send_payload [[], [CH_CR, CH_LF], render_headers hs, [1, 2]]], Inr ())
    \<and> get_content_length hd hs = Inr 2"
  using send_message_framed[OF plain_env_ok, of "\<lparr>m_body = [1, 2], m_headers = []\<rparr>" "[]" "[]"]
  by (simp add: hdr_matching_def plain_env_def)

text \<open>A request goes to the handler that was added first among those whose path is a prefix of
  its path, and a request no handler matches gets no response at all: the 404 response of
  \<open>defaultHandler\<close> is never given.\<close>

lemma routes_dispatch_spec:
  "routes_dispatch rs req =
     (case filter (\<lambda>(path, h). prefix path (rq_path req)) rs of
        [] \<Rightarrow> []
      | (path, h) # others \<Rightarrow> h req)"
proof (induction rs)
  case (Cons r rs)
  obtain path h where "r = (path, h)" by (cases r)
  moreover have "prefix path (rq_path req) \<longleftrightarrow> take (length path) (rq_path req) = path"
    by (metis append_take_drop_id prefixE prefixI append_eq_conv_conj)
  ultimately show ?case using Cons by simp
qed simp

end
