(* ===== verification/Http2_Frame.thy ===== *)
theory Http2_Frame
  imports Http_Message
begin

text \<open>
  HTTP/2 frames: \<open>src/http2/Frame.h\<close>, \<open>Frame.cpp\<close>, \<open>DataFrame.h\<close>, \<open>HeadersFrame.h\<close>,
  \<open>Settings.h\<close>, \<open>Settings.cpp\<close>, \<open>FlowControl.h\<close>.

  Bit fields are words of their width.  A buffer holds \<open>char\<close>s; whether \<open>char\<close> is signed is
  implementation-defined, so the readers take it as the argument \<open>cs\<close> (it is on x86, it is not
  on ARM).  A frame type is its octet: the enumeration has the underlying type \<open>uint8_t\<close>.
\<close>

section \<open>Frame headers\<close>

definition FT_DATA :: byte where "FT_DATA = 0x00"
definition FT_HEADERS :: byte where "FT_HEADERS = 0x01"
definition FT_RST_STREAM :: byte where "FT_RST_STREAM = 0x03"
definition FT_SETTINGS :: byte where "FT_SETTINGS = 0x04"
definition FT_PING :: byte where "FT_PING = 0x06"
definition FT_WINDOW_UPDATE :: byte where "FT_WINDOW_UPDATE = 0x08"

lemmas frame_types =
  FT_DATA_def FT_HEADERS_def FT_RST_STREAM_def FT_SETTINGS_def FT_PING_def FT_WINDOW_UPDATE_def

definition FRAME_HEADER_SIZE :: nat where "FRAME_HEADER_SIZE = 9"

record frame_header =
  fh_length :: "24 word"
  fh_type :: byte
  fh_flags :: byte
  fh_reserved :: bool
  fh_stream :: "31 word"

definition frame_header_new :: "byte \<Rightarrow> frame_header" where
  "frame_header_new t = \<lparr>fh_length = 0, fh_type = t, fh_flags = 0, fh_reserved = False, fh_stream = 0\<rparr>"

definition flag_set :: "nat \<Rightarrow> bool \<Rightarrow> frame_header \<Rightarrow> frame_header" where
  "flag_set i v h = h\<lparr>fh_flags := (if v then set_bit i (fh_flags h) else unset_bit i (fh_flags h))\<rparr>"

definition flag_test :: "nat \<Rightarrow> frame_header \<Rightarrow> bool" where
  "flag_test i h = bit (fh_flags h) i"

text \<open>\<open>FrameHeader::writeTo\<close>: the octets written.\<close>

definition frame_header_octets :: "frame_header \<Rightarrow> octets" where
  "frame_header_octets h =
     (let reserved_and_stream_id = push_bit 31 (of_bool (fh_reserved h)) OR ucast (fh_stream h) :: u32
      in [ucast (drop_bit 16 (fh_length h)), ucast (drop_bit 8 (fh_length h)), ucast (fh_length h),
          fh_type h, fh_flags h,
          ucast (drop_bit 24 reserved_and_stream_id), ucast (drop_bit 16 reserved_and_stream_id),
          ucast (drop_bit 8 reserved_and_stream_id), ucast reserved_and_stream_id])"

text \<open>The conversion of a \<open>char\<close> to an unsigned type.\<close>

definition char_val :: "bool \<Rightarrow> byte \<Rightarrow> 'a::len word" where
  "char_val cs c = (if cs then scast c else ucast c)"

definition read_frame_header :: "bool \<Rightarrow> octets \<Rightarrow> http_error + frame_header \<times> octets" where
  "read_frame_header cs input =
     (if length input < FRAME_HEADER_SIZE then Inl E_runtime
      else
        let c = (\<lambda>i. char_val cs (input ! i) :: u32);
            len = push_bit 16 (c 0) OR push_bit 8 (c 1) OR c 2;
            reserved_and_stream_id = push_bit 24 (c 5) OR push_bit 16 (c 6) OR push_bit 8 (c 7) OR c 8
        in map_sum id (\<lambda>rest.
             (\<lparr>fh_length = ucast len, fh_type = input ! 3, fh_flags = input ! 4,
               fh_reserved = (drop_bit 31 reserved_and_stream_id \<noteq> 0),
               fh_stream = ucast (reserved_and_stream_id AND 0x7fffffff)\<rparr>, rest))
             (advance FRAME_HEADER_SIZE input))"

definition try_read_frame_header :: "bool \<Rightarrow> octets \<Rightarrow> (http_error + frame_header \<times> octets) option" where
  "try_read_frame_header cs input =
     (if length input < FRAME_HEADER_SIZE then None else Some (read_frame_header cs input))"

definition is_settings_ack :: "frame_header \<Rightarrow> bool" where
  "is_settings_ack h \<longleftrightarrow> fh_type h = FT_SETTINGS \<and> flag_test 0 h"

definition is_ping_ack :: "frame_header \<Rightarrow> bool" where
  "is_ping_ack h \<longleftrightarrow> fh_type h = FT_PING \<and> flag_test 0 h"


section \<open>DATA and HEADERS frames\<close>

definition data_is_end_stream :: "frame_header \<Rightarrow> bool" where
  "data_is_end_stream h = flag_test 3 h"

definition data_is_padded :: "frame_header \<Rightarrow> bool" where
  "data_is_padded h = flag_test 0 h"

text \<open>\<open>DataFrame::padding\<close> does not return a value for a padded frame.\<close>

definition data_padding :: "frame_header \<Rightarrow> http_error + u32" where
  "data_padding h = (if \<not> data_is_padded h then Inr 0 else Inl E_undefined)"

record headers_frame =
  hf_header :: frame_header
  hf_exclusive :: bool
  hf_dependency :: "31 word"
  hf_weight :: byte
  hf_fragment :: octets
  hf_padding :: octets

definition hf_length :: "headers_frame \<Rightarrow> u32" where
  "hf_length f = of_nat (length (hf_fragment f) + length (hf_padding f))"

definition headers_frame_new :: "31 word \<Rightarrow> headers_frame" where
  "headers_frame_new stream_id =
     \<lparr>hf_header = flag_set 2 True ((frame_header_new FT_HEADERS)\<lparr>fh_stream := stream_id\<rparr>),
      hf_exclusive = False, hf_dependency = 0, hf_weight = 15, hf_fragment = [], hf_padding = []\<rparr>"

definition hf_set_end_stream :: "bool \<Rightarrow> headers_frame \<Rightarrow> headers_frame" where
  "hf_set_end_stream v f = f\<lparr>hf_header := flag_set 0 v (hf_header f)\<rparr>"

definition hf_set_end_headers :: "bool \<Rightarrow> headers_frame \<Rightarrow> headers_frame" where
  "hf_set_end_headers v f = f\<lparr>hf_header := flag_set 2 v (hf_header f)\<rparr>"

definition hf_set_is_priority :: "bool \<Rightarrow> headers_frame \<Rightarrow> headers_frame" where
  "hf_set_is_priority v f = f\<lparr>hf_header := flag_set 5 v (hf_header f)\<rparr>"

definition hf_get_weight :: "headers_frame \<Rightarrow> nat" where
  "hf_get_weight f = unat (hf_weight f) + 1"

definition hf_set_weight :: "nat \<Rightarrow> headers_frame \<Rightarrow> http_error + headers_frame" where
  "hf_set_weight w f =
     (if w < 1 \<or> 256 < w then Inl E_runtime else Inr (f\<lparr>hf_weight := of_nat (w - 1)\<rparr>))"

definition hf_set_fragment :: "octets \<Rightarrow> headers_frame \<Rightarrow> headers_frame" where
  "hf_set_fragment frag f =
     (let f = f\<lparr>hf_fragment := frag\<rparr>
      in f\<lparr>hf_header := (hf_header f)\<lparr>fh_length := ucast (hf_length f)\<rparr>\<rparr>)"

definition hf_set_padding :: "octets \<Rightarrow> headers_frame \<Rightarrow> headers_frame" where
  "hf_set_padding pdg f =
     (let f = f\<lparr>hf_padding := pdg, hf_header := flag_set 3 (pdg \<noteq> []) (hf_header f)\<rparr>
      in f\<lparr>hf_header := (hf_header f)\<lparr>fh_length := ucast (hf_length f)\<rparr>\<rparr>)"

text \<open>\<open>HeadersFrame::writeTo\<close>: the pieces written.\<close>

definition headers_frame_pieces :: "headers_frame \<Rightarrow> octets list" where
  "headers_frame_pieces f = [frame_header_octets (hf_header f), hf_fragment f, hf_padding f]"


section \<open>Settings\<close>

text \<open>The array \<open>values_\<close>, indexed by the name of the setting less one.\<close>

type_synonym settings = "u32 list"

definition SETTINGS_FIRST :: nat where "SETTINGS_FIRST = 1"
definition SETTINGS_LAST :: nat where "SETTINGS_LAST = 6"
definition ENABLE_PUSH :: nat where "ENABLE_PUSH = 2"
definition INITIAL_WINDOW_SIZE :: nat where "INITIAL_WINDOW_SIZE = 4"

definition settings_default :: settings where
  "settings_default = [4096, 1, NOT 0, 65535, 16384, NOT 0]"

definition setting_value :: "nat \<Rightarrow> settings \<Rightarrow> u32" where
  "setting_value name s = s ! (name - SETTINGS_FIRST)"

definition set_setting :: "nat \<Rightarrow> u32 \<Rightarrow> settings \<Rightarrow> settings" where
  "set_setting name v s = s[name - SETTINGS_FIRST := v]"

text \<open>One entry of the buffer; an identifier out of range is skipped.\<close>

definition apply_setting :: "bool \<Rightarrow> octets \<Rightarrow> settings \<Rightarrow> settings" where
  "apply_setting cs setting s =
     (let sid = push_bit 8 (char_val cs (setting ! 0)) OR char_val cs (setting ! 1) :: 16 word;
          c = (\<lambda>i. char_val cs (setting ! i) :: u32);
          v = push_bit 24 (c 2) OR push_bit 16 (c 3) OR push_bit 8 (c 4) OR c 5
      in if unat sid < SETTINGS_FIRST \<or> SETTINGS_LAST < unat sid then s
         else set_setting (unat sid) v s)"

function settings_loop :: "bool \<Rightarrow> octets \<Rightarrow> settings \<Rightarrow> settings" where
  "settings_loop cs buf s =
     (if buf = [] then s else settings_loop cs (drop 6 buf) (apply_setting cs (take 6 buf) s))"
  by pat_completeness auto
termination
  by (relation "measure (\<lambda>(cs, buf, s). length buf)") auto

declare settings_loop.simps [simp del]

definition settings_from_buffer :: "bool \<Rightarrow> octets \<Rightarrow> http_error + settings" where
  "settings_from_buffer cs buf =
     (if length buf mod 6 \<noteq> 0 then Inl E_runtime else Inr (settings_loop cs buf settings_default))"

definition setting_octets :: "nat \<Rightarrow> u32 \<Rightarrow> octets" where
  "setting_octets name v =
     (let sid = of_nat name :: 16 word
      in [ucast (drop_bit 8 sid), ucast sid,
          ucast (drop_bit 24 v), ucast (drop_bit 16 v), ucast (drop_bit 8 v), ucast v])"

definition settings_octets :: "settings \<Rightarrow> octets" where
  "settings_octets s =
     concat (map (\<lambda>i. setting_octets (SETTINGS_FIRST + i) (s ! i)) [0..<SETTINGS_LAST - SETTINGS_FIRST + 1])"


section \<open>Flow control\<close>

text \<open>\<open>int32_t\<close> values are integers; overflow is undefined.\<close>

definition INT32_MAX :: int where "INT32_MAX = 2 ^ 31 - 1"
definition INT32_MIN :: int where "INT32_MIN = - (2 ^ 31)"

definition int32_ok :: "int \<Rightarrow> bool" where
  "int32_ok x \<longleftrightarrow> INT32_MIN \<le> x \<and> x \<le> INT32_MAX"

definition int32 :: "int \<Rightarrow> http_error + int" where
  "int32 x = (if int32_ok x then Inr x else Inl E_undefined)"

definition would_add_overflow :: "int \<Rightarrow> int \<Rightarrow> bool" where
  "would_add_overflow first second \<longleftrightarrow> INT32_MAX - first < second"

definition add_window_size :: "int \<Rightarrow> int \<Rightarrow> http_error + int" where
  "add_window_size existing added =
     (if added < 1 then Inl E_runtime
      else if existing < 0 then int32 (existing + added)
      else if would_add_overflow existing added then Inl E_runtime
      else int32 (existing + added))"

definition subtract_window_size :: "int \<Rightarrow> nat \<Rightarrow> http_error + int" where
  "subtract_window_size window adjustment =
     (if window = INT32_MIN then Inl E_undefined
      else if (window < 0 \<and> \<bar>window\<bar> < int adjustment) \<or> INT32_MAX < int adjustment then Inl E_runtime
      else int32 (window - int adjustment))"


section \<open>Round trips\<close>

text \<open>An octet below 128, or any octet when \<open>char\<close> is unsigned, is read as it was written.\<close>

definition char_exact :: "bool \<Rightarrow> byte \<Rightarrow> bool" where
  "char_exact cs c \<longleftrightarrow> \<not> cs \<or> unat c < 128"

lemma bit_7_iff: "bit c 7 \<longleftrightarrow> 128 \<le> unat c" for c :: byte
  using byte_high_bit[of c] and_exp_eq_0_iff_not_bit[of c 7] by (simp flip: not_less)

lemma byte_index: "bit c n \<Longrightarrow> n < 8" for c :: byte
  using bit_imp_le_length[of c n] by simp

lemma char_val_exact:
  assumes "char_exact cs c" "8 \<le> LENGTH('a)"
  shows "char_val cs c = (ucast c :: 'a::len word)"
proof (cases cs)
  case True
  then have "\<not> bit c 7" using assms(1) by (simp add: char_exact_def bit_7_iff)
  then have "scast c = (ucast c :: 'a word)"
    by (intro bit_word_eqI) (auto simp: bit_simps min_def le_eq_less_or_eq dest: byte_index split: if_splits)
  then show ?thesis using True by (simp add: char_val_def)
qed (simp add: char_val_def)

lemma join_24:
  "ucast (push_bit 16 (ucast (ucast (drop_bit 16 l) :: byte)) OR push_bit 8 (ucast (ucast (drop_bit 8 l) :: byte))
     OR ucast (ucast l :: byte) :: u32) = l" for l :: "24 word"
proof (rule bit_word_eqI)
  fix n assume "n < LENGTH(24)"
  then show "bit (ucast (push_bit 16 (ucast (ucast (drop_bit 16 l) :: byte)) OR
      push_bit 8 (ucast (ucast (drop_bit 8 l) :: byte)) OR ucast (ucast l :: byte) :: u32) :: 24 word) n = bit l n"
    by (cases "16 \<le> n"; cases "8 \<le> n") (auto simp: bit_simps)
qed

lemma join_32:
  "push_bit 24 (ucast (ucast (drop_bit 24 v) :: byte)) OR push_bit 16 (ucast (ucast (drop_bit 16 v) :: byte))
     OR push_bit 8 (ucast (ucast (drop_bit 8 v) :: byte)) OR ucast (ucast v :: byte) = v" for v :: u32
proof (rule bit_word_eqI)
  fix n assume "n < LENGTH(32)"
  then show "bit (push_bit 24 (ucast (ucast (drop_bit 24 v) :: byte)) OR
      push_bit 16 (ucast (ucast (drop_bit 16 v) :: byte)) OR push_bit 8 (ucast (ucast (drop_bit 8 v) :: byte))
      OR ucast (ucast v :: byte) :: u32) n = bit v n"
    by (cases "24 \<le> n"; cases "16 \<le> n"; cases "8 \<le> n") (auto simp: bit_simps)
qed

lemma mask_31: "(0x7fffffff :: 'a::len word) = mask 31"
  by (simp add: mask_eq_exp_minus_1)

lemma split_stream_id:
  fixes sid :: "31 word" and r :: bool
  defines "v \<equiv> push_bit 31 (of_bool r) OR ucast sid :: u32"
  shows "drop_bit 31 v \<noteq> 0 \<longleftrightarrow> r" "ucast (v AND 0x7fffffff) = sid"
proof -
  have "bit (drop_bit 31 v) 0 \<longleftrightarrow> r"
    by (auto simp: v_def bit_simps dest: bit_imp_le_length)
  moreover have "drop_bit 31 v = 0" if "\<not> r"
    using that by (intro bit_word_eqI) (auto simp: v_def bit_simps dest: bit_imp_le_length)
  ultimately show "drop_bit 31 v \<noteq> 0 \<longleftrightarrow> r" by (metis bit_0_eq bot_apply bot_bool_def)
  show "ucast (v AND 0x7fffffff) = sid"
    unfolding mask_31 by (rule bit_word_eqI) (auto simp: v_def bit_simps)
qed

lemma frame_header_octets_length [simp]: "length (frame_header_octets h) = 9"
  by (simp add: frame_header_octets_def Let_def)

lemma read_frame_header_octets:
  assumes "\<forall>c\<in>set (frame_header_octets h). char_exact cs c"
  shows "read_frame_header cs (frame_header_octets h @ rest) = Inr (h, rest)"
proof -
  have c: "char_val cs (frame_header_octets h ! i) = (ucast (frame_header_octets h ! i) :: u32)" if "i < 9" for i
    by (rule char_val_exact) (use assms that nth_mem[of i "frame_header_octets h"] in simp_all)
  define w where "w = (push_bit 31 (of_bool (fh_reserved h)) OR ucast (fh_stream h) :: u32)"
  have w: "frame_header_octets h = [ucast (drop_bit 16 (fh_length h)), ucast (drop_bit 8 (fh_length h)),
      ucast (fh_length h), fh_type h, fh_flags h, ucast (drop_bit 24 w), ucast (drop_bit 16 w),
      ucast (drop_bit 8 w), ucast w]"
    unfolding frame_header_octets_def Let_def w_def by (rule refl)
  have "drop_bit 31 w \<noteq> 0 \<longleftrightarrow> fh_reserved h" "ucast (w AND 0x7fffffff) = fh_stream h"
    unfolding w_def by (rule split_stream_id)+
  then show ?thesis
    using c[of 0] c[of 1] c[of 2] c[of 5] c[of 6] c[of 7] c[of 8]
    by (simp add: read_frame_header_def FRAME_HEADER_SIZE_def advance_def Let_def join_24 join_32 w
        del: drop_bit_or)
qed

text \<open>C30: A frame header is read back as it was written, when \<open>char\<close> is unsigned or all nine
  octets are below 128.\<close>

theorem frame_header_roundtrip:
  assumes "\<forall>c\<in>set (frame_header_octets h). char_exact cs c"
  shows "read_frame_header cs (frame_header_octets h @ rest) = Inr (h, rest)"
  using assms by (rule read_frame_header_octets)

theorem frame_header_roundtrip_witness:
  "read_frame_header True (frame_header_octets ((frame_header_new FT_PING)\<lparr>fh_length := 8\<rparr>) @ [7])
     = Inr ((frame_header_new FT_PING)\<lparr>fh_length := 8\<rparr>, [7])"
  using frame_header_roundtrip[of "(frame_header_new FT_PING)\<lparr>fh_length := 8\<rparr>" True "[7]"]
  by (simp add: frame_header_octets_def frame_header_new_def Let_def char_exact_def frame_types)

lemma scast_high:
  assumes "128 \<le> unat c"
  shows "bit (scast (c :: byte) :: u32) n \<longleftrightarrow> n < 32 \<and> (8 \<le> n \<or> bit c n)"
  using assms by (auto simp: bit_simps min_def bit_7_iff le_eq_less_or_eq dest: byte_index)

lemma sign_extended_length:
  fixes a b :: u32
  assumes "128 \<le> unat c"
  shows "unat (ucast (push_bit 16 a OR push_bit 8 b OR scast (c :: byte)) :: 24 word) = 2 ^ 24 - 256 + unat c"
proof -
  let ?x = "ucast (push_bit 16 a OR push_bit 8 b OR scast c) :: 24 word"
  have "?x = NOT (mask 8) OR ucast c"
    by (rule bit_word_eqI) (auto simp: bit_word_ucast_iff bit_or_iff bit_push_bit_iff bit_not_iff
        bit_mask_iff scast_high[OF assms] dest: byte_index)
  moreover have "NOT (mask 8) AND (ucast c :: 24 word) = 0"
    by (rule bit_word_eqI) (auto simp: bit_simps dest: byte_index)
  ultimately have "?x = NOT (mask 8) + ucast c"
    using word_plus_and_or[of "NOT (mask 8) :: 24 word" "ucast c"] by simp
  moreover have "(NOT (mask 8) :: 24 word) = 0xffff00" by (simp add: mask_eq_exp_minus_1)
  moreover have "unat c < 256" by simp
  ultimately show ?thesis by (simp add: unat_word_ariths)
qed

text \<open>Where \<open>char\<close> is signed, a length whose low octet is 128 or more is read as one with all
  the higher bits set: the frame is taken to be longer than 2^24 - 129 octets, whatever its
  length is.\<close>

lemma frame_length_sign_extended:
  assumes "9 \<le> length input" "128 \<le> unat (input ! 2)"
  shows "\<exists>h rest. read_frame_header True input = Inr (h, rest)
    \<and> unat (fh_length h) = 2 ^ 24 - 256 + unat (input ! 2)"
  using assms sign_extended_length[OF assms(2)]
  by (auto simp: read_frame_header_def FRAME_HEADER_SIZE_def advance_def Let_def char_val_def)

lemma frame_length_sign_extended_witness:
  "\<exists>h rest. read_frame_header True [0, 0, 200, 1, 4, 0, 0, 0, 1] = Inr (h, rest) \<and> unat (fh_length h) = 16777160"
  using frame_length_sign_extended[of "[0, 0, 200, 1, 4, 0, 0, 0, 1]"] by simp


section \<open>Settings\<close>

lemma join_16:
  "push_bit 8 (ucast (ucast (drop_bit 8 v) :: byte)) OR ucast (ucast v :: byte) = v" for v :: "16 word"
proof (rule bit_word_eqI)
  fix n assume "n < LENGTH(16)"
  then show "bit (push_bit 8 (ucast (ucast (drop_bit 8 v) :: byte)) OR ucast (ucast v :: byte) :: 16 word) n = bit v n"
    by (cases "8 \<le> n") (auto simp: bit_simps)
qed

definition put_setting :: "nat \<times> u32 \<Rightarrow> settings \<Rightarrow> settings" where
  "put_setting nv s = (if 1 \<le> fst nv \<and> fst nv \<le> 6 then s[fst nv - 1 := snd nv] else s)"

lemma setting_octets_length [simp]: "length (setting_octets n v) = 6"
  by (simp add: setting_octets_def Let_def)

lemma char_val_nth:
  assumes "\<forall>c\<in>set xs. char_exact cs c" "i < length xs" "8 \<le> LENGTH('a)"
  shows "char_val cs (xs ! i) = (ucast (xs ! i) :: 'a::len word)"
  using assms by (intro char_val_exact) simp_all

lemma apply_setting_octets:
  assumes "\<forall>c\<in>set (setting_octets n v). char_exact cs c" "n < 2 ^ 16"
  shows "apply_setting cs (setting_octets n v) s = put_setting (n, v) s"
proof -
  note c16 = char_val_nth[OF assms(1), where 'a = 16] and c32 = char_val_nth[OF assms(1), where 'a = 32]
  have "unat (of_nat n :: 16 word) = n" using assms(2) by (simp add: unat_of_nat)
  then show ?thesis
    using c16[of 0] c16[of 1] c32[of 2] c32[of 3] c32[of 4] c32[of 5]
    by (auto simp: apply_setting_def put_setting_def setting_octets_def Let_def join_16 join_32
        SETTINGS_FIRST_def SETTINGS_LAST_def set_setting_def)
qed

lemma settings_loop_entries:
  assumes "\<forall>(n, v)\<in>set es. n < 2 ^ 16 \<and> (\<forall>c\<in>set (setting_octets n v). char_exact cs c)"
  shows "settings_loop cs (concat (map (\<lambda>(n, v). setting_octets n v) es)) s = fold put_setting es s"
  using assms
proof (induction es arbitrary: s)
  case Nil
  then show ?case by (simp add: settings_loop.simps[of cs "[]"])
next
  case (Cons e es)
  obtain n v where e: "e = (n, v)" by (cases e)
  have "setting_octets n v \<noteq> []" using setting_octets_length[of n v] by (metis list.size(3) zero_neq_numeral)
  then have "settings_loop cs (setting_octets n v @ concat (map (\<lambda>(n, v). setting_octets n v) es)) s
      = settings_loop cs (concat (map (\<lambda>(n, v). setting_octets n v) es)) (apply_setting cs (setting_octets n v) s)"
    by (subst settings_loop.simps) simp
  then show ?case using Cons apply_setting_octets[of n v cs s] e by simp
qed

lemma length_setting_entries: "length (concat (map (\<lambda>(n, v). setting_octets n v) es)) = 6 * length es"
  by (induction es) auto

lemma settings_from_buffer_put:
  assumes "\<forall>(n, v)\<in>set es. n < 2 ^ 16 \<and> (\<forall>c\<in>set (setting_octets n v). char_exact cs c)"
  shows "settings_from_buffer cs (concat (map (\<lambda>(n, v). setting_octets n v) es))
    = Inr (fold put_setting es settings_default)"
  using settings_loop_entries[OF assms] by (simp add: settings_from_buffer_def length_setting_entries)

text \<open>The payload of a SETTINGS frame is read entry by entry, unknown settings are skipped; but
  the entries are applied to the initial values, not to the settings in force, so a setting the
  frame does not mention goes back to its initial value.\<close>

lemma settings_from_buffer_entries:
  assumes "\<forall>(n, v)\<in>set es. n < 2 ^ 16 \<and> (\<forall>c\<in>set (setting_octets n v). char_exact cs c)"
  shows "settings_from_buffer cs (concat (map (\<lambda>(n, v). setting_octets n v) es))
    = Inr (fold put_setting es settings_default)"
  using assms by (rule settings_from_buffer_put)

lemma settings_from_buffer_entries_witness:
  "settings_from_buffer True [0, 3, 0, 0, 0, 100, 0, 9, 0, 0, 0, 1] = Inr [4096, 1, 100, 65535, 16384, NOT 0]"
  using settings_from_buffer_entries[of "[(3, 100), (9, 1)]" True]
  by (simp add: setting_octets_def char_exact_def put_setting_def settings_default_def)

lemma settings_roundtrip:
  assumes "length s = 6" "\<forall>i<6. \<forall>c\<in>set (setting_octets (1 + i) (s ! i)). char_exact cs c"
  shows "settings_from_buffer cs (settings_octets s) = Inr s"
proof -
  let ?es = "map (\<lambda>i. (1 + i, s ! i)) [0..<6]"
  have "settings_octets s = concat (map (\<lambda>(n, v). setting_octets n v) ?es)"
    by (simp add: settings_octets_def SETTINGS_FIRST_def SETTINGS_LAST_def comp_def)
  moreover have "settings_from_buffer cs (concat (map (\<lambda>(n, v). setting_octets n v) ?es))
      = Inr (fold put_setting ?es settings_default)"
    by (rule settings_from_buffer_put) (use assms(2) in auto)
  moreover have "fold put_setting ?es settings_default = s"
    using assms(1) by (auto simp: put_setting_def settings_default_def upt_rec numeral_eq_Suc length_Suc_conv)
  ultimately show ?thesis by simp
qed


section \<open>Flow control\<close>

text \<open>\<open>addWindowSize\<close> never overflows: for an increment of at least one it is the exact sum, or
  the error when the sum exceeds 2^31 - 1; other increments are refused.\<close>

lemma add_window_size_correct:
  assumes "int32_ok existing" "int32_ok added"
  shows "add_window_size existing added
    = (if 1 \<le> added \<and> existing + added \<le> INT32_MAX then Inr (existing + added) else Inl E_runtime)"
  using assms by (auto simp: add_window_size_def int32_def int32_ok_def would_add_overflow_def INT32_MAX_def INT32_MIN_def)

lemma add_window_size_correct_witness:
  "add_window_size (-5) 7 = Inr 2 \<and> add_window_size 65535 2147483647 = Inl E_runtime"
  using add_window_size_correct[of "-5" 7] add_window_size_correct[of 65535 2147483647]
  by (simp add: int32_ok_def INT32_MAX_def INT32_MIN_def)

text \<open>
  \<open>subtractWindowSize\<close> refuses some reductions of a negative window that fit, and lets others
  overflow: the check compares with the size of the window, not with the room below it.  On the
  windows and frame lengths that occur it is defined.
\<close>

lemma subtract_window_size_check:
  "subtract_window_size (-(2 ^ 30) - 1) (2 ^ 30 + 1) = Inl E_undefined"
  "subtract_window_size (-1) 2 = Inl E_runtime"
  by (simp_all add: subtract_window_size_def int32_def int32_ok_def INT32_MAX_def INT32_MIN_def)

lemma subtract_window_size_defined:
  "- (2 ^ 30) \<le> w \<Longrightarrow> w \<le> INT32_MAX \<Longrightarrow> n < 2 ^ 24 \<Longrightarrow> subtract_window_size w n \<noteq> Inl E_undefined"
  by (auto simp: subtract_window_size_def int32_def int32_ok_def INT32_MAX_def INT32_MIN_def)

end
