(* ===== verification/Input_Loop.thy ===== *)
theory Input_Loop
  imports Http_Message
begin

text \<open>
  The loop both transports run on their input: \<open>do step while (more && !buf.empty())\<close>.  The
  locale \<open>input_loop\<close> states what a step has to promise for the way the network cuts the input
  into pieces to have no effect: it may leave octets for later only in a state (\<open>live\<close>) from
  which it goes on where it stopped, and what follows the octets it consumes has no influence on
  it.  The transports interpret it on their steps.
\<close>

definition prepend :: "action list \<Rightarrow> 'a run \<Rightarrow> 'a run" where
  "prepend acts r = (acts @ fst r, snd r)"

lemma prepend_run [run_simps]: "prepend acts (acts', r) = (acts @ acts', r)"
  by (simp add: prepend_def)

lemma prepend_Nil [simp]: "prepend [] r = r"
  by (simp add: prepend_def)

lemma prepend_prepend [simp]: "prepend a (prepend b r) = prepend (a @ b) r"
  by (simp add: prepend_def)

lemma and_then_prepend: "and_then (acts, Inr x) f = prepend acts (f x)"
  by (simp add: and_then_def prepend_def split_beta)

lemma fst_snd_prepend [simp]: "fst (prepend acts r) = acts @ fst r" "snd (prepend acts r) = snd r"
  by (simp_all add: prepend_def)

locale input_loop =
  fixes step :: "'s \<Rightarrow> octets \<Rightarrow> (bool \<times> 's \<times> octets) run"
    and loop :: "'s \<Rightarrow> octets \<Rightarrow> ('s \<times> octets) run"
    and weight :: "'s \<Rightarrow> octets \<Rightarrow> nat"
    and live :: "'s \<Rightarrow> bool"
  assumes loop_eq: "loop s buf =
      (case step s buf of
         (acts, Inl err) \<Rightarrow> (acts, Inl err)
       | (acts, Inr (go, s', rest)) \<Rightarrow>
           if go \<and> rest \<noteq> [] then prepend acts (loop s' rest) else (acts, Inr (s', rest)))"
    and step_weight: "step s buf = (acts, Inr (True, s', rest)) \<Longrightarrow> weight s' rest < weight s buf"
    and step_live: "step s buf = (acts, Inr (True, s', rest)) \<Longrightarrow> live s \<Longrightarrow> live s'"
    and step_more: "step s buf = (acts, Inr (True, s', rest)) \<Longrightarrow> live s \<Longrightarrow>
      step s (buf @ later) = (acts, Inr (True, s', rest @ later))"
    and step_wait: "step s buf = (acts, Inr (False, s', rest)) \<Longrightarrow> live s \<Longrightarrow> live s' \<Longrightarrow>
      step s (buf @ later) = prepend acts (step s' (rest @ later))"
begin

lemma loop_step_cases:
  assumes "loop s buf = (acts, Inr (s', rest))"
  obtains (Last) go where "step s buf = (acts, Inr (go, s', rest))" "go \<longrightarrow> rest = []"
  | (Again) a1 a2 s1 r1 where "step s buf = (a1, Inr (True, s1, r1))" "r1 \<noteq> []"
      "loop s1 r1 = (a2, Inr (s', rest))" "acts = a1 @ a2"
proof -
  obtain a1 go s1 r1 where st: "step s buf = (a1, Inr (go, s1, r1))"
    using assms by (subst (asm) loop_eq) (auto split: prod.splits sum.splits)
  show ?thesis
  proof (cases "go \<and> r1 \<noteq> []")
    case True
    then have "loop s buf = prepend a1 (loop s1 r1)" using st by (subst loop_eq) simp
    then show ?thesis using Again[of a1 s1 r1 "fst (loop s1 r1)"] st True assms by (cases "loop s1 r1") (simp add: prepend_def)
  next
    case False
    then have "loop s buf = (a1, Inr (s1, r1))" using st by (subst loop_eq) auto
    then show ?thesis using Last[of go] st False assms by auto
  qed
qed

lemma loop_induct [consumes 1, case_names Last Again]:
  assumes "loop s buf = (acts, Inr (s', rest))"
    and "\<And>s buf acts go. step s buf = (acts, Inr (go, s', rest)) \<Longrightarrow> go \<longrightarrow> rest = [] \<Longrightarrow> P s buf acts"
    and "\<And>s buf a1 a2 s1 r1. step s buf = (a1, Inr (True, s1, r1)) \<Longrightarrow> loop s1 r1 = (a2, Inr (s', rest)) \<Longrightarrow>
      P s1 r1 a2 \<Longrightarrow> P s buf (a1 @ a2)"
  shows "P s buf acts"
  using assms(1)
proof (induction "weight s buf" arbitrary: s buf acts rule: less_induct)
  case less
  from less.prems show ?case
  proof (cases rule: loop_step_cases)
    case (Last go)
    then show ?thesis by (rule assms(2))
  next
    case (Again a1 a2 s1 r1)
    show ?thesis unfolding Again(4)
      by (rule assms(3)[OF Again(1,3) less.hyps[OF step_weight[OF Again(1)] Again(3)]])
  qed
qed

lemma loop_chunks:
  assumes "loop s buf = (acts, Inr (s', rest))" "live s" "live s'" "later \<noteq> []"
  shows "loop s (buf @ later) = prepend acts (loop s' (rest @ later))"
  using assms(1,2)
proof (induction rule: loop_induct)
  case (Last s buf acts go)
  show ?case
  proof (cases go)
    case True
    then show ?thesis
      using step_more[of s buf acts s' rest later] Last assms(4) by (subst loop_eq) simp
  next
    case False
    then have "step s (buf @ later) = prepend acts (step s' (rest @ later))"
      using step_wait[of s buf acts s' rest later] Last assms(3) by simp
    then show ?thesis
      using loop_eq[of s "buf @ later"] loop_eq[of s' "rest @ later"]
      by (auto simp: prepend_def split: prod.splits sum.splits)
  qed
next
  case (Again s buf a1 a2 s1 r1)
  then show ?case
    using step_more[OF Again.hyps(1) Again.prems, of later] step_live[OF Again.hyps(1) Again.prems] assms(4)
    by (subst loop_eq) simp
qed

end

text \<open>
  The loop with a bound on the number of its rounds, \<open>None\<close> when the bound is reached: the weight
  of a state with its buffer bounds them.
\<close>

primrec rounds :: "nat \<Rightarrow> ('s \<Rightarrow> octets \<Rightarrow> (bool \<times> 's \<times> octets) run) \<Rightarrow> 's \<Rightarrow> octets \<Rightarrow> ('s \<times> octets) run option" where
  "rounds 0 step s buf = None"
| "rounds (Suc n) step s buf =
     (case step s buf of
        (acts, Inl err) \<Rightarrow> Some (acts, Inl err)
      | (acts, Inr (go, s', rest)) \<Rightarrow>
          if go \<and> rest \<noteq> [] then map_option (prepend acts) (rounds n step s' rest)
          else Some (acts, Inr (s', rest)))"

context input_loop
begin

lemma rounds_enough: "weight s buf < n \<Longrightarrow> rounds n step s buf = Some (loop s buf)"
proof (induction n arbitrary: s buf)
  case (Suc n)
  have "weight s' rest < n" if "step s buf = (acts, Inr (True, s', rest))" for acts s' rest
    using step_weight[OF that] Suc.prems by simp
  then show ?case
    using Suc.IH by (subst loop_eq) (auto split: prod.splits sum.splits)
qed simp

end

text \<open>When every state can wait, the input may be cut anywhere, any number of times.\<close>

locale patient_input_loop = input_loop +
  assumes patient: "live s"
begin

primrec feed :: "'a \<Rightarrow> octets \<Rightarrow> octets list \<Rightarrow> ('a \<times> octets) run" where
  "feed s rest [] = return (s, rest)"
| "feed s rest (chunk # chunks) = and_then (loop s (rest @ chunk)) (\<lambda>(s', rest'). feed s' rest' chunks)"

lemma feed_concat:
  assumes "feed s rest (chunk # chunks) = (acts, Inr (s', rest'))" "[] \<notin> set chunks"
  shows "loop s (rest @ chunk @ concat chunks) = (acts, Inr (s', rest'))"
  using assms
proof (induction chunks arbitrary: s rest chunk acts)
  case Nil
  then show ?case by (auto simp: and_then_Inr return_def)
next
  case (Cons c cs)
  obtain a1 s1 r1 a2 where l: "loop s (rest @ chunk) = (a1, Inr (s1, r1))"
    and f: "feed s1 r1 (c # cs) = (a2, Inr (s', rest'))" and a: "acts = a1 @ a2"
    using Cons.prems(1) by (auto simp: and_then_Inr )
  have "loop s1 (r1 @ c @ concat cs) = (a2, Inr (s', rest'))"
    using Cons.IH[OF f] Cons.prems(2) by simp
  then show ?case
    using loop_chunks[OF l patient patient, of "c @ concat cs"] Cons.prems(2) a
    by (cases c) (simp_all add: prepend_def)
qed

end

end
