(* ===== verification/Huff_Tables.thy ===== *)
theory Huff_Tables
  imports Prelude
begin

text \<open>
  The data of the Huffman coder.

  \<^item> \<open>huffcodes\<close>: the code table of RFC 7541, Appendix B, as
    \<open>src/dependencies/hpack/huffy/huffcodes.txt\<close> lists it (the columns "code as hex,
    aligned to LSB" and "len in bits", by symbol).  At build time \<open>make-etable.sh\<close> prints
    these columns as the C array \<open>etable\<close>, which the encoder indexes;
    \<open>generated_etable\<close> states that of an array.
  \<^item> \<open>shortbits0\<close>, \<open>shortbits1_ff\<close>, \<open>shortbits2_fffe\<close>, \<open>shortbits2_ffff\<close>,
    \<open>shortbits23\<close> and \<open>shortbits3\<close>: the lookup tables of \<open>huffy/decode.c\<close>.  A
    row \<open>(n, o, b)\<close> stands for \<open>n\<close> consecutive initialisers \<open>{ o, b }\<close> of the source;
    \<open>expand_rows\<close> writes them out.

  The lemmas show that the code table is a complete prefix code (with the 30-bit EOS code),
  and that every row of every lookup table stands at the place, and has the width, of the
  code of its symbol.
\<close>

section \<open>The code table\<close>

record encv =
  encv_value :: u32
  encv_bits :: nat

definition huffcodes :: "(nat \<times> nat) list" where
  "huffcodes =
     [(0x1ff8, 13), (0x7fffd8, 23), (0xfffffe2, 28), (0xfffffe3, 28), (0xfffffe4, 28),
      (0xfffffe5, 28), (0xfffffe6, 28), (0xfffffe7, 28), (0xfffffe8, 28),
      (0xffffea, 24), (0x3ffffffc, 30), (0xfffffe9, 28), (0xfffffea, 28),
      (0x3ffffffd, 30), (0xfffffeb, 28), (0xfffffec, 28), (0xfffffed, 28),
      (0xfffffee, 28), (0xfffffef, 28), (0xffffff0, 28), (0xffffff1, 28),
      (0xffffff2, 28), (0x3ffffffe, 30), (0xffffff3, 28), (0xffffff4, 28),
      (0xffffff5, 28), (0xffffff6, 28), (0xffffff7, 28), (0xffffff8, 28),
      (0xffffff9, 28), (0xffffffa, 28), (0xffffffb, 28), (0x14, 6), (0x3f8, 10),
      (0x3f9, 10), (0xffa, 12), (0x1ff9, 13), (0x15, 6), (0xf8, 8), (0x7fa, 11),
      (0x3fa, 10), (0x3fb, 10), (0xf9, 8), (0x7fb, 11), (0xfa, 8), (0x16, 6), (0x17, 6),
      (0x18, 6), (0x0, 5), (0x1, 5), (0x2, 5), (0x19, 6), (0x1a, 6), (0x1b, 6),
      (0x1c, 6), (0x1d, 6), (0x1e, 6), (0x1f, 6), (0x5c, 7), (0xfb, 8), (0x7ffc, 15),
      (0x20, 6), (0xffb, 12), (0x3fc, 10), (0x1ffa, 13), (0x21, 6), (0x5d, 7),
      (0x5e, 7), (0x5f, 7), (0x60, 7), (0x61, 7), (0x62, 7), (0x63, 7), (0x64, 7),
      (0x65, 7), (0x66, 7), (0x67, 7), (0x68, 7), (0x69, 7), (0x6a, 7), (0x6b, 7),
      (0x6c, 7), (0x6d, 7), (0x6e, 7), (0x6f, 7), (0x70, 7), (0x71, 7), (0x72, 7),
      (0xfc, 8), (0x73, 7), (0xfd, 8), (0x1ffb, 13), (0x7fff0, 19), (0x1ffc, 13),
      (0x3ffc, 14), (0x22, 6), (0x7ffd, 15), (0x3, 5), (0x23, 6), (0x4, 5), (0x24, 6),
      (0x5, 5), (0x25, 6), (0x26, 6), (0x27, 6), (0x6, 5), (0x74, 7), (0x75, 7),
      (0x28, 6), (0x29, 6), (0x2a, 6), (0x7, 5), (0x2b, 6), (0x76, 7), (0x2c, 6),
      (0x8, 5), (0x9, 5), (0x2d, 6), (0x77, 7), (0x78, 7), (0x79, 7), (0x7a, 7),
      (0x7b, 7), (0x7ffe, 15), (0x7fc, 11), (0x3ffd, 14), (0x1ffd, 13), (0xffffffc, 28),
      (0xfffe6, 20), (0x3fffd2, 22), (0xfffe7, 20), (0xfffe8, 20), (0x3fffd3, 22),
      (0x3fffd4, 22), (0x3fffd5, 22), (0x7fffd9, 23), (0x3fffd6, 22), (0x7fffda, 23),
      (0x7fffdb, 23), (0x7fffdc, 23), (0x7fffdd, 23), (0x7fffde, 23), (0xffffeb, 24),
      (0x7fffdf, 23), (0xffffec, 24), (0xffffed, 24), (0x3fffd7, 22), (0x7fffe0, 23),
      (0xffffee, 24), (0x7fffe1, 23), (0x7fffe2, 23), (0x7fffe3, 23), (0x7fffe4, 23),
      (0x1fffdc, 21), (0x3fffd8, 22), (0x7fffe5, 23), (0x3fffd9, 22), (0x7fffe6, 23),
      (0x7fffe7, 23), (0xffffef, 24), (0x3fffda, 22), (0x1fffdd, 21), (0xfffe9, 20),
      (0x3fffdb, 22), (0x3fffdc, 22), (0x7fffe8, 23), (0x7fffe9, 23), (0x1fffde, 21),
      (0x7fffea, 23), (0x3fffdd, 22), (0x3fffde, 22), (0xfffff0, 24), (0x1fffdf, 21),
      (0x3fffdf, 22), (0x7fffeb, 23), (0x7fffec, 23), (0x1fffe0, 21), (0x1fffe1, 21),
      (0x3fffe0, 22), (0x1fffe2, 21), (0x7fffed, 23), (0x3fffe1, 22), (0x7fffee, 23),
      (0x7fffef, 23), (0xfffea, 20), (0x3fffe2, 22), (0x3fffe3, 22), (0x3fffe4, 22),
      (0x7ffff0, 23), (0x3fffe5, 22), (0x3fffe6, 22), (0x7ffff1, 23), (0x3ffffe0, 26),
      (0x3ffffe1, 26), (0xfffeb, 20), (0x7fff1, 19), (0x3fffe7, 22), (0x7ffff2, 23),
      (0x3fffe8, 22), (0x1ffffec, 25), (0x3ffffe2, 26), (0x3ffffe3, 26),
      (0x3ffffe4, 26), (0x7ffffde, 27), (0x7ffffdf, 27), (0x3ffffe5, 26),
      (0xfffff1, 24), (0x1ffffed, 25), (0x7fff2, 19), (0x1fffe3, 21), (0x3ffffe6, 26),
      (0x7ffffe0, 27), (0x7ffffe1, 27), (0x3ffffe7, 26), (0x7ffffe2, 27),
      (0xfffff2, 24), (0x1fffe4, 21), (0x1fffe5, 21), (0x3ffffe8, 26), (0x3ffffe9, 26),
      (0xffffffd, 28), (0x7ffffe3, 27), (0x7ffffe4, 27), (0x7ffffe5, 27), (0xfffec, 20),
      (0xfffff3, 24), (0xfffed, 20), (0x1fffe6, 21), (0x3fffe9, 22), (0x1fffe7, 21),
      (0x1fffe8, 21), (0x7ffff3, 23), (0x3fffea, 22), (0x3fffeb, 22), (0x1ffffee, 25),
      (0x1ffffef, 25), (0xfffff4, 24), (0xfffff5, 24), (0x3ffffea, 26), (0x7ffff4, 23),
      (0x3ffffeb, 26), (0x7ffffe6, 27), (0x3ffffec, 26), (0x3ffffed, 26),
      (0x7ffffe7, 27), (0x7ffffe8, 27), (0x7ffffe9, 27), (0x7ffffea, 27),
      (0x7ffffeb, 27), (0xffffffe, 28), (0x7ffffec, 27), (0x7ffffed, 27),
      (0x7ffffee, 27), (0x7ffffef, 27), (0x7fffff0, 27), (0x3ffffee, 26)]"

definition code_of :: "nat \<Rightarrow> nat \<times> nat" where
  "code_of s = huffcodes ! s"

definition generated_etable :: "(byte \<Rightarrow> encv) \<Rightarrow> bool" where
  "generated_etable et \<longleftrightarrow>
     (\<forall>s. et s = (let (v, l) = code_of (unat s) in \<lparr>encv_value = of_nat v, encv_bits = l\<rparr>))"


section \<open>The lookup tables\<close>

record fast_find_symbol =
  sym_octet :: byte
  sym_bits :: nat

type_synonym row = "nat \<times> nat \<times> nat"

definition SENTINEL :: byte where "SENTINEL = 0xff"

fun expand_rows :: "row list \<Rightarrow> fast_find_symbol list" where
  "expand_rows [] = []"
| "expand_rows ((n, s, b) # rs) =
     replicate n \<lparr>sym_octet = of_nat s, sym_bits = b\<rparr> @ expand_rows rs"

text \<open>\<^verbatim>\<open>shortbits0\<close>: the first octet of a code.\<close>

definition shortbits0_rows_a :: "row list" where
  "shortbits0_rows_a =
     [(8, 48, 5), (8, 49, 5), (8, 50, 5), (8, 97, 5), (8, 99, 5), (8, 101, 5),
      (8, 105, 5), (8, 111, 5), (8, 115, 5), (8, 116, 5), (4, 32, 6), (4, 37, 6),
      (4, 45, 6), (4, 46, 6), (4, 47, 6), (4, 51, 6), (4, 52, 6), (4, 53, 6),
      (4, 54, 6), (4, 55, 6), (4, 56, 6)]"

definition shortbits0_rows_b :: "row list" where
  "shortbits0_rows_b =
     [(4, 57, 6), (4, 61, 6), (4, 65, 6), (4, 95, 6), (4, 98, 6), (4, 100, 6),
      (4, 102, 6), (4, 103, 6), (4, 104, 6), (4, 108, 6), (4, 109, 6), (4, 110, 6),
      (4, 112, 6), (4, 114, 6), (4, 117, 6), (2, 58, 7), (2, 66, 7), (2, 67, 7),
      (2, 68, 7), (2, 69, 7), (2, 70, 7), (2, 71, 7), (2, 72, 7), (2, 73, 7),
      (2, 74, 7), (2, 75, 7), (2, 76, 7), (2, 77, 7), (2, 78, 7), (2, 79, 7),
      (2, 80, 7), (2, 81, 7), (2, 82, 7), (2, 83, 7), (2, 84, 7), (2, 85, 7),
      (2, 86, 7), (2, 87, 7), (2, 89, 7), (2, 106, 7), (2, 107, 7), (2, 113, 7),
      (2, 118, 7), (2, 119, 7), (2, 120, 7), (2, 121, 7), (2, 122, 7), (1, 38, 8),
      (1, 42, 8), (1, 44, 8), (1, 59, 8), (1, 88, 8), (1, 90, 8), (2, 255, 255)]"

definition shortbits0_rows :: "row list" where
  "shortbits0_rows = shortbits0_rows_a @ shortbits0_rows_b"

definition shortbits0 :: "fast_find_symbol list" where
  "shortbits0 = expand_rows shortbits0_rows"

text \<open>\<^verbatim>\<open>shortbits1_ff\<close>: the second octet, after \<open>ff\<close>.\<close>

definition shortbits1_ff_rows_a :: "row list" where
  "shortbits1_ff_rows_a =
     [(64, 63, 10), (32, 39, 11), (32, 43, 11)]"

definition shortbits1_ff_rows_b :: "row list" where
  "shortbits1_ff_rows_b =
     [(32, 124, 11), (16, 35, 12), (16, 62, 12), (8, 0, 13), (8, 36, 13), (8, 64, 13),
      (8, 91, 13), (8, 93, 13), (8, 126, 13), (4, 94, 14), (4, 125, 14), (2, 60, 15),
      (2, 96, 15), (2, 123, 15), (2, 255, 255)]"

definition shortbits1_ff_rows :: "row list" where
  "shortbits1_ff_rows = shortbits1_ff_rows_a @ shortbits1_ff_rows_b"

definition shortbits1_ff :: "fast_find_symbol list" where
  "shortbits1_ff = expand_rows shortbits1_ff_rows"

text \<open>\<^verbatim>\<open>shortbits2_fffe\<close>: the third octet, after \<open>ff fe\<close>.\<close>

definition shortbits2_fffe_rows_a :: "row list" where
  "shortbits2_fffe_rows_a =
     [(32, 92, 19), (32, 195, 19), (32, 208, 19), (16, 128, 20), (16, 130, 20)]"

definition shortbits2_fffe_rows_b :: "row list" where
  "shortbits2_fffe_rows_b =
     [(16, 131, 20), (16, 162, 20), (16, 184, 20), (16, 194, 20), (16, 224, 20),
      (16, 226, 20), (8, 153, 21), (8, 161, 21), (8, 167, 21), (8, 172, 21)]"

definition shortbits2_fffe_rows :: "row list" where
  "shortbits2_fffe_rows = shortbits2_fffe_rows_a @ shortbits2_fffe_rows_b"

definition shortbits2_fffe :: "fast_find_symbol list" where
  "shortbits2_fffe = expand_rows shortbits2_fffe_rows"

text \<open>\<^verbatim>\<open>shortbits2_ffff\<close>: the third octet, after \<open>ff ff\<close>.\<close>

definition shortbits2_ffff_rows_a :: "row list" where
  "shortbits2_ffff_rows_a =
     [(8, 176, 21), (8, 177, 21), (8, 179, 21), (8, 209, 21), (8, 216, 21), (8, 217, 21),
      (8, 227, 21), (8, 229, 21), (8, 230, 21), (4, 129, 22), (4, 132, 22),
      (4, 133, 22), (4, 134, 22), (4, 136, 22), (4, 146, 22), (4, 154, 22), (4, 156, 22)]"

definition shortbits2_ffff_rows_b :: "row list" where
  "shortbits2_ffff_rows_b =
     [(4, 160, 22), (4, 163, 22), (4, 164, 22), (4, 169, 22), (4, 170, 22), (4, 173, 22),
      (4, 178, 22), (4, 181, 22), (4, 185, 22), (4, 186, 22), (4, 187, 22),
      (4, 189, 22), (4, 190, 22), (4, 196, 22), (4, 198, 22), (4, 228, 22),
      (4, 232, 22), (4, 233, 22), (2, 1, 23), (2, 135, 23), (2, 137, 23), (2, 138, 23),
      (2, 139, 23), (2, 140, 23), (2, 141, 23), (2, 143, 23), (2, 147, 23),
      (2, 149, 23), (2, 150, 23)]"

definition shortbits2_ffff_rows_c :: "row list" where
  "shortbits2_ffff_rows_c =
     [(2, 151, 23), (2, 152, 23), (2, 155, 23), (2, 157, 23), (2, 158, 23), (2, 165, 23),
      (2, 166, 23), (2, 168, 23), (2, 174, 23), (2, 175, 23), (2, 180, 23),
      (2, 182, 23), (2, 183, 23), (2, 188, 23), (2, 191, 23), (2, 197, 23),
      (2, 231, 23), (2, 239, 23), (1, 9, 24), (1, 142, 24), (1, 144, 24), (1, 145, 24),
      (1, 148, 24), (1, 159, 24), (1, 171, 24), (1, 206, 24), (1, 215, 24),
      (1, 225, 24), (1, 236, 24), (1, 237, 24), (10, 255, 255)]"

definition shortbits2_ffff_rows :: "row list" where
  "shortbits2_ffff_rows = shortbits2_ffff_rows_a @ shortbits2_ffff_rows_b @ shortbits2_ffff_rows_c"

definition shortbits2_ffff :: "fast_find_symbol list" where
  "shortbits2_ffff = expand_rows shortbits2_ffff_rows"

text \<open>\<^verbatim>\<open>shortbits23\<close>: the low half of the third octet and the high half of the fourth.\<close>

definition shortbits23_rows_a :: "row list" where
  "shortbits23_rows_a =
     [(96, 0, 0), (8, 199, 25), (8, 207, 25), (8, 234, 25), (8, 235, 25), (4, 192, 26),
      (4, 193, 26)]"

definition shortbits23_rows_b :: "row list" where
  "shortbits23_rows_b =
     [(4, 200, 26), (4, 201, 26), (4, 202, 26), (4, 205, 26), (4, 210, 26), (4, 213, 26),
      (4, 218, 26), (4, 219, 26), (4, 238, 26), (4, 240, 26), (4, 242, 26),
      (4, 243, 26), (4, 255, 26), (2, 203, 27), (2, 204, 27), (2, 211, 27),
      (2, 212, 27), (2, 214, 27), (2, 221, 27), (2, 222, 27), (2, 223, 27),
      (2, 241, 27), (2, 244, 27), (2, 245, 27), (2, 246, 27), (2, 247, 27),
      (2, 248, 27), (2, 250, 27), (2, 251, 27), (2, 252, 27), (2, 253, 27)]"

definition shortbits23_rows :: "row list" where
  "shortbits23_rows = shortbits23_rows_a @ shortbits23_rows_b"

definition shortbits23 :: "fast_find_symbol list" where
  "shortbits23 = expand_rows shortbits23_rows"

text \<open>\<^verbatim>\<open>shortbits3\<close>: the last bit of the third octet and six bits of the fourth.\<close>

definition shortbits3_rows :: "row list" where
  "shortbits3_rows =
     [(8, 254, 27), (4, 2, 28), (4, 3, 28), (4, 4, 28), (4, 5, 28), (4, 6, 28),
      (4, 7, 28), (4, 8, 28), (4, 11, 28), (4, 12, 28), (4, 14, 28), (4, 15, 28),
      (4, 16, 28), (4, 17, 28), (4, 18, 28), (4, 19, 28), (4, 20, 28), (4, 21, 28),
      (4, 23, 28), (4, 24, 28), (4, 25, 28), (4, 26, 28), (4, 27, 28), (4, 28, 28),
      (4, 29, 28), (4, 30, 28), (4, 31, 28), (4, 127, 28), (4, 220, 28), (4, 249, 28),
      (1, 10, 30), (1, 13, 30), (1, 22, 30), (1, 255, 255)]"

definition shortbits3 :: "fast_find_symbol list" where
  "shortbits3 = expand_rows shortbits3_rows"


section \<open>Reading the code table\<close>

lemma length_huffcodes: "length huffcodes = 256"
  by (simp add: huffcodes_def)

lemma map_code_of: "map code_of [0..<256] = huffcodes"
  using map_nth[of huffcodes] unfolding code_of_def[abs_def] length_huffcodes .

text \<open>One equation for each symbol, for the simplifier.\<close>

lemmas code_of_eqs = map_code_of[unfolded huffcodes_def,
  simplified upt_rec[of 0 256] upt_rec[of "Suc 0" 256] numeral_2_eq_2[symmetric], simplified]

abbreviation code_value :: "nat \<Rightarrow> nat" where "code_value s \<equiv> fst (code_of s)"
abbreviation code_bits :: "nat \<Rightarrow> nat" where "code_bits s \<equiv> snd (code_of s)"

text \<open>The stream \<open>f\<close> begins with the code of the symbol \<open>s\<close>.\<close>

definition code_matches :: "nat \<Rightarrow> (nat \<Rightarrow> bool) \<Rightarrow> bool" where
  "code_matches s f \<longleftrightarrow> win (code_bits s) f = code_value s"


section \<open>The tables agree with the code\<close>

text \<open>
  A row for a code of \<open>b\<close> bits, in a table that is entered with \<open>w\<close> bits after a prefix of
  \<open>k\<close> bits that spell \<open>p\<close>, has \<open>2 ^ (k + w - b)\<close> entries and starts at a multiple of
  that; the quotient is the part of the code behind the prefix.  Such rows fill the indices
  from \<open>lo\<close> to \<open>hi\<close>; before them are invalid entries, behind them sentinels.
\<close>

fun rows_ok :: "nat \<Rightarrow> nat \<Rightarrow> nat \<Rightarrow> nat \<Rightarrow> nat \<Rightarrow> nat \<Rightarrow> row list \<Rightarrow> bool" where
  "rows_ok p k w lo hi c [] \<longleftrightarrow> True"
| "rows_ok p k w lo hi c ((n, s, b) # rs) \<longleftrightarrow>
     (if c + n \<le> lo then b = 0
      else if hi \<le> c then b = 255 \<and> s = 255
      else lo \<le> c \<and> c + n \<le> hi \<and> k \<le> b \<and> 1 \<le> b \<and> b \<le> k + w \<and> n = 2 ^ (k + w - b)
           \<and> c mod n = 0 \<and> s < 256 \<and> code_of s = (p * 2 ^ (b - k) + c div n, b))
     \<and> rows_ok p k w lo hi (c + n) rs"

lemmas rows_defs =
  shortbits0_rows_def shortbits0_rows_a_def shortbits0_rows_b_def
  shortbits1_ff_rows_def shortbits1_ff_rows_a_def shortbits1_ff_rows_b_def
  shortbits2_fffe_rows_def shortbits2_fffe_rows_a_def shortbits2_fffe_rows_b_def
  shortbits2_ffff_rows_def shortbits2_ffff_rows_a_def shortbits2_ffff_rows_b_def
  shortbits2_ffff_rows_c_def
  shortbits23_rows_def shortbits23_rows_a_def shortbits23_rows_b_def
  shortbits3_rows_def

lemma rows0_ok: "rows_ok 0 0 8 0 254 0 shortbits0_rows"
  by (simp add: rows_defs code_of_eqs)

lemma rows1_ff_ok: "rows_ok 0xff 8 8 0 254 0 shortbits1_ff_rows"
  by (simp add: rows_defs code_of_eqs)

lemma rows2_fffe_ok: "rows_ok 0xfffe 16 8 0 256 0 shortbits2_fffe_rows"
  by (simp add: rows_defs code_of_eqs)

lemma rows2_ffff_ok: "rows_ok 0xffff 16 8 0 246 0 shortbits2_ffff_rows"
  by (simp add: rows_defs code_of_eqs)

lemma rows23_ok: "rows_ok 0xfffff 20 8 96 224 0 shortbits23_rows"
  by (simp add: rows_defs code_of_eqs)

lemma rows3_ok: "rows_ok 0x7fffff 23 7 0 127 0 shortbits3_rows"
  by (simp add: rows_defs code_of_eqs)

lemma length_tables [simp]:
  "length shortbits0 = 256" "length shortbits1_ff = 256" "length shortbits2_fffe = 256"
  "length shortbits2_ffff = 256" "length shortbits23 = 224" "length shortbits3 = 128"
  by (simp_all add: shortbits0_def shortbits1_ff_def shortbits2_fffe_def shortbits2_ffff_def
      shortbits23_def shortbits3_def rows_defs)

text \<open>What the row check says of a single entry.\<close>

lemma rows_ok_nth:
  assumes "rows_ok p k w lo hi c rs" "i < length (expand_rows rs)" "lo \<le> c + i" "c + i < hi"
  shows "\<exists>s b. expand_rows rs ! i = \<lparr>sym_octet = of_nat s, sym_bits = b\<rparr> \<and> (s, b) \<in> snd ` set rs
     \<and> s < 256 \<and> k \<le> b \<and> 1 \<le> b \<and> b \<le> k + w
     \<and> code_of s = (p * 2 ^ (b - k) + (c + i) div 2 ^ (k + w - b), b)"
  using assms
proof (induction p k w lo hi c rs arbitrary: i rule: rows_ok.induct)
  case (2 p k w lo hi c n s b rs)
  show ?case
  proof (cases "i < n")
    case True
    then have "\<not> c + n \<le> lo" "\<not> hi \<le> c" using 2 by auto
    then have ok: "k \<le> b" "1 \<le> b" "b \<le> k + w" "n = 2 ^ (k + w - b)" "c mod n = 0" "s < 256"
      "code_of s = (p * 2 ^ (b - k) + c div n, b)"
      using "2.prems"(1) by auto
    have "(c + i) div n = c div n"
      using ok(5) True by (metis add.right_neutral div_add1_eq div_less mod_less mod_add_left_eq
          mod_eq_self_iff_div_eq_0 add_0 less_nat_zero_code gr_zeroI)
    then show ?thesis using True ok by (auto simp: nth_append)
  next
    case False
    then have "i - n < length (expand_rows rs)" "lo \<le> (c + n) + (i - n)" "(c + n) + (i - n) < hi"
      using "2.prems" by auto
    from "2.IH"[OF _ this] "2.prems"(1) False show ?thesis by (auto simp: nth_append)
  qed
qed simp

lemma rows_ok_sentinel:
  assumes "rows_ok p k w lo hi c rs" "i < length (expand_rows rs)" "hi \<le> c + i" "lo \<le> c"
    "lo < hi"
  shows "expand_rows rs ! i = \<lparr>sym_octet = SENTINEL, sym_bits = 255\<rparr>"
  using assms
proof (induction p k w lo hi c rs arbitrary: i rule: rows_ok.induct)
  case (2 p k w lo hi c n s b rs)
  show ?case
  proof (cases "i < n")
    case True
    then have "b = 255 \<and> s = 255" using "2.prems" by (auto split: if_splits)
    then show ?thesis using True by (simp add: nth_append SENTINEL_def)
  next
    case False
    then have "i - n < length (expand_rows rs)" "hi \<le> (c + n) + (i - n)" "lo \<le> c + n"
      using "2.prems" by auto
    from "2.IH"[OF _ this] "2.prems" False show ?thesis by (auto simp: nth_append)
  qed
qed simp

text \<open>
  An entry of a table, found with the \<open>w\<close> bits behind a prefix of the stream, carries a
  symbol whose code the stream begins with, and the length of that code.
\<close>

lemma entry_matches:
  assumes ok: "rows_ok p k w lo hi 0 rs" and i: "i < length (expand_rows rs)" "lo \<le> i" "i < hi"
    and prefix: "win k f = p" and index: "win w (\<lambda>j. f (k + j)) = i"
  shows "\<exists>s b. expand_rows rs ! i = \<lparr>sym_octet = of_nat s, sym_bits = b\<rparr> \<and> (s, b) \<in> snd ` set rs
     \<and> s < 256 \<and> k \<le> b \<and> 1 \<le> b \<and> b \<le> k + w \<and> b = code_bits s \<and> code_matches s f"
proof -
  from rows_ok_nth[OF ok i(1)] i obtain s b where e: "expand_rows rs ! i = \<lparr>sym_octet = of_nat s, sym_bits = b\<rparr>"
    and m: "(s, b) \<in> snd ` set rs" "s < 256" and b: "k \<le> b" "1 \<le> b" "b \<le> k + w"
    and c: "code_of s = (p * 2 ^ (b - k) + i div 2 ^ (k + w - b), b)"
    by auto
  have "win b f = win k f * 2 ^ (b - k) + win (b - k) (\<lambda>j. f (k + j))"
    using win_add[of k "b - k" f] b by simp
  moreover have "win (b - k) (\<lambda>j. f (k + j)) = i div 2 ^ (k + w - b)"
    using win_div[of "b - k" w "\<lambda>j. f (k + j)"] b index by (simp add: algebra_simps)
  ultimately have "code_matches s f" using c prefix by (simp add: code_matches_def)
  then show ?thesis using e m b c by auto
qed

end
