(* ===== verification/Huff_Code.thy ===== *)
theory Huff_Code
  imports Huff_Tables
begin

text \<open>
  The code of \<open>huffcodes.txt\<close> as a prefix code: in the order in which the lookup tables
  list the symbols, the codes cover the 32-bit windows in consecutive intervals, which leave
  only the windows that begin with thirty ones (EOS).  So every stream begins with the code
  of exactly one symbol, or with EOS.  \<open>first_symbol\<close> is the decoding step that follows
  from the code alone; the decoder's table lookups are compared with it.
\<close>

section \<open>Intervals of windows\<close>

definition row_symbols :: "row list \<Rightarrow> nat list" where
  "row_symbols rs = map (\<lambda>(n, s, b). s) (filter (\<lambda>(n, s, b). 1 \<le> b \<and> b \<le> 30) rs)"

definition code_order :: "nat list" where
  "code_order = row_symbols shortbits0_rows @ [33, 34, 40, 41] @ row_symbols shortbits1_ff_rows
     @ row_symbols shortbits2_fffe_rows @ row_symbols shortbits2_ffff_rows
     @ row_symbols shortbits23_rows @ row_symbols shortbits3_rows"

definition code_start :: "nat \<Rightarrow> nat" where
  "code_start s = code_value s * 2 ^ (32 - code_bits s)"

definition code_size :: "nat \<Rightarrow> nat" where
  "code_size s = 2 ^ (32 - code_bits s)"

fun contiguous :: "nat \<Rightarrow> nat list \<Rightarrow> nat \<Rightarrow> bool" where
  "contiguous w [] e \<longleftrightarrow> w = e"
| "contiguous w (s # ss) e \<longleftrightarrow>
     1 \<le> code_bits s \<and> code_bits s \<le> 30 \<and> code_start s = w \<and> contiguous (w + code_size s) ss e"

lemma code_order_contiguous: "contiguous 0 code_order (2 ^ 32 - 4)"
  unfolding code_order_def row_symbols_def
  by (simp add: rows_defs code_of_eqs code_start_def code_size_def)

lemma length_code_order: "length code_order = 256"
  unfolding code_order_def row_symbols_def by (simp add: rows_defs)

lemma code_order_less: "\<forall>s\<in>set code_order. s < 256"
  unfolding code_order_def row_symbols_def by (simp add: rows_defs)

lemma contiguous_le: "contiguous w ss e \<Longrightarrow> w \<le> e"
  by (induction w ss e rule: contiguous.induct) auto

lemma contiguous_start: "contiguous w ss e \<Longrightarrow> t \<in> set ss \<Longrightarrow> w \<le> code_start t"
  by (induction w ss e rule: contiguous.induct) fastforce+

lemma code_size_pos: "0 < code_size s"
  by (simp add: code_size_def)

lemma contiguous_distinct: "contiguous w ss e \<Longrightarrow> distinct ss"
proof (induction w ss e rule: contiguous.induct)
  case (2 w s ss e)
  then have "s \<notin> set ss"
    using contiguous_start[of "w + code_size s" ss e s] code_size_pos[of s] by auto
  then show ?case using 2 by simp
qed simp

lemma contiguous_bits: "contiguous w ss e \<Longrightarrow> t \<in> set ss \<Longrightarrow> 1 \<le> code_bits t \<and> code_bits t \<le> 30"
  by (induction w ss e rule: contiguous.induct) auto

lemma contiguous_cover:
  "contiguous w ss e \<Longrightarrow> w \<le> x \<Longrightarrow> x < e \<Longrightarrow>
     \<exists>t\<in>set ss. code_start t \<le> x \<and> x < code_start t + code_size t"
proof (induction w ss e rule: contiguous.induct)
  case (2 w s ss e)
  show ?case
  proof (cases "x < w + code_size s")
    case True
    then show ?thesis using 2 by auto
  next
    case False
    then show ?thesis using 2 by auto
  qed
qed simp

lemma contiguous_unique:
  "contiguous w ss e \<Longrightarrow> s \<in> set ss \<Longrightarrow> t \<in> set ss \<Longrightarrow>
     code_start s \<le> x \<Longrightarrow> x < code_start s + code_size s \<Longrightarrow>
     code_start t \<le> x \<Longrightarrow> x < code_start t + code_size t \<Longrightarrow> s = t"
proof (induction w ss e rule: contiguous.induct)
  case (2 w r ss e)
  then have c: "contiguous (w + code_size r) ss e" "code_start r = w" by auto
  have later: "u \<in> set ss \<Longrightarrow> w + code_size r \<le> code_start u" for u
    using contiguous_start[OF c(1)] .
  show ?case
  proof (cases "s = r \<or> t = r")
    case True
    then show ?thesis using 2 c later[of s] later[of t] by auto
  next
    case False
    then show ?thesis using 2 c by auto
  qed
qed simp

lemma contiguous_below: "contiguous w ss e \<Longrightarrow> t \<in> set ss \<Longrightarrow> code_start t + code_size t \<le> e"
proof (induction w ss e rule: contiguous.induct)
  case (2 w s ss e)
  then show ?case using contiguous_le[of "w + code_size s" ss e] by auto
qed simp

lemma set_code_order: "set code_order = {..<256}"
proof (rule card_subset_eq)
  show "card (set code_order) = card {..<256::nat}"
    using contiguous_distinct[OF code_order_contiguous] length_code_order
    by (simp add: distinct_card)
qed (use code_order_less in auto)

lemma code_bits_range: "s < 256 \<Longrightarrow> 1 \<le> code_bits s \<and> code_bits s \<le> 30"
  using contiguous_bits[OF code_order_contiguous, of s] by (simp add: set_code_order)


section \<open>A complete prefix code\<close>

lemma div_eq_iff_interval: "0 < d \<Longrightarrow> n div d = q \<longleftrightarrow> q * d \<le> n \<and> n < (q + 1) * d" for n d q :: nat
  by (metis Suc_eq_plus1 div_nat_eqI div_times_less_eq_dividend dividend_less_div_times mult.commute mult_Suc)

lemma code_matches_interval:
  assumes "s < 256"
  shows "code_matches s f \<longleftrightarrow> code_start s \<le> win 32 f \<and> win 32 f < code_start s + code_size s"
proof -
  have l: "code_bits s \<le> 32" using code_bits_range[OF assms] by simp
  have "code_matches s f \<longleftrightarrow> win 32 f div code_size s = code_value s"
    using win_div[OF l, of f] by (simp add: code_matches_def code_size_def)
  also have "\<dots> \<longleftrightarrow> code_value s * code_size s \<le> win 32 f \<and> win 32 f < (code_value s + 1) * code_size s"
    using code_size_pos[of s] by (simp only: div_eq_iff_interval)
  finally show ?thesis by (simp add: code_start_def code_size_def add.commute)
qed

lemma code_unique:
  "s < 256 \<Longrightarrow> t < 256 \<Longrightarrow> code_matches s f \<Longrightarrow> code_matches t f \<Longrightarrow> s = t"
  using contiguous_unique[OF code_order_contiguous, of s t "win 32 f"]
  by (simp add: code_matches_interval set_code_order)

lemma code_complete: "(\<exists>s<256. code_matches s f) \<longleftrightarrow> \<not> (\<forall>i<30. f i)"
proof -
  have "(\<exists>s<256. code_matches s f) \<longleftrightarrow> win 32 f < 2 ^ 32 - 4"
  proof
    assume "\<exists>s<256. code_matches s f"
    then obtain s where "s < 256" "code_matches s f" by blast
    then show "win 32 f < 2 ^ 32 - 4"
      using contiguous_below[OF code_order_contiguous, of s]
      by (simp add: code_matches_interval set_code_order)
  next
    assume "win 32 f < 2 ^ 32 - 4"
    from contiguous_cover[OF code_order_contiguous _ this] show "\<exists>s<256. code_matches s f"
      by (auto simp: code_matches_interval set_code_order)
  qed
  also have "\<dots> \<longleftrightarrow> win 30 f < 2 ^ 30 - 1"
  proof -
    have "win 32 f = win 30 f * 4 + win 2 (\<lambda>i. f (30 + i))" using win_add[of 30 2 f] by simp
    moreover have "win 2 (\<lambda>i. f (30 + i)) < 4" using win_less[of 2 "\<lambda>i. f (30 + i)"] by simp
    ultimately show ?thesis by (simp only:) auto
  qed
  also have "\<dots> \<longleftrightarrow> win 30 f \<noteq> 2 ^ 30 - 1" using win_less[of 30 f] by (auto simp: nat_less_le)
  also have "\<dots> \<longleftrightarrow> \<not> (\<forall>i<30. f i)" by (simp only: win_ones)
  finally show ?thesis .
qed


section \<open>The decoding step that the code defines\<close>

definition first_symbol :: "(nat \<Rightarrow> bool) \<Rightarrow> nat option" where
  "first_symbol f = find (\<lambda>s. code_matches s f) [0..<256]"

lemma first_symbol_eq: "s < 256 \<Longrightarrow> code_matches s f \<Longrightarrow> first_symbol f = Some s"
proof -
  assume s: "s < 256" "code_matches s f"
  then obtain t where "first_symbol f = Some t"
    unfolding first_symbol_def by (metis (mono_tags, lifting) atLeastLessThan_iff find_None_iff2
        not_None_eq set_upt zero_le)
  moreover from this have "t < 256" "code_matches t f"
    by (auto simp: first_symbol_def find_Some_iff)
  ultimately show ?thesis using code_unique s by blast
qed

lemma first_symbol_Some: "first_symbol f = Some s \<Longrightarrow> s < 256 \<and> code_matches s f"
  by (auto simp: first_symbol_def find_Some_iff)

lemma first_symbol_None: "first_symbol f = None \<longleftrightarrow> (\<forall>i<30. f i)"
proof -
  have "first_symbol f = None \<longleftrightarrow> \<not> (\<exists>s<256. code_matches s f)"
    by (auto simp: first_symbol_def find_None_iff)
  then show ?thesis using code_complete[of f] by simp
qed

text \<open>The bits the code assigns to a symbol and to a text.\<close>

definition symbol_bits :: "byte \<Rightarrow> bool list" where
  "symbol_bits s = bits_of (code_bits (unat s)) (code_value (unat s))"

definition text_bits :: "byte list \<Rightarrow> bool list" where
  "text_bits xs = concat (map symbol_bits xs)"

lemma text_bits_Nil [simp]: "text_bits [] = []"
  by (simp add: text_bits_def)

lemma text_bits_Cons [simp]: "text_bits (x # xs) = symbol_bits x @ text_bits xs"
  by (simp add: text_bits_def)

lemma text_bits_append [simp]: "text_bits (xs @ ys) = text_bits xs @ text_bits ys"
  by (simp add: text_bits_def)

lemma length_symbol_bits: "length (symbol_bits s) = code_bits (unat s)"
  by (simp add: symbol_bits_def)

lemma code_value_less: "s < 256 \<Longrightarrow> code_value s < 2 ^ code_bits s"
proof -
  assume s: "s < 256"
  then have "code_start s + code_size s \<le> 2 ^ 32"
    using contiguous_below[OF code_order_contiguous, of s] by (simp add: set_code_order)
  moreover have "(2::nat) ^ 32 = 2 ^ code_bits s * code_size s"
    using code_bits_range[OF s] by (simp add: code_size_def flip: power_add)
  ultimately have "(code_value s + 1) * code_size s \<le> 2 ^ code_bits s * code_size s"
    by (simp add: code_start_def code_size_def)
  then show ?thesis using code_size_pos[of s] by (simp only: mult_le_cancel2) simp
qed

lemma first_symbol_text: "first_symbol (pad (symbol_bits s @ bs)) = Some (unat s)"
proof (rule first_symbol_eq)
  show "code_matches (unat s) (pad (symbol_bits s @ bs))"
    using code_value_less[of "unat s"]
    by (simp add: code_matches_def symbol_bits_def win_prefix take_bit_nat_eq_self)
qed simp

end
