(* ===== verification/Hpack_Number.thy ===== *)
theory Hpack_Number
  imports Prelude
begin

text \<open>
  The HPACK prefixed integers of \<open>src/dependencies/hpack/number.c\<close> (RFC 7541, 5.1):
  \<open>decode_number\<close> and \<open>encode_number\<close>.

  A pointer with its length is a byte list; a null pointer is \<open>None\<close>.  The number that
  \<open>decode_number\<close> writes through its out parameter is returned beside the result, and
  the buffer that \<open>encode_number\<close> writes in place is returned updated.  \<open>uintmax_t\<close> is
  \<open>u64\<close>, so the accumulation wraps as the code's does; buffer lengths and indices are
  \<open>nat\<close>, \<open>ptrdiff_t\<close> results are \<open>int\<close>.

  The reference side is \<open>vdec\<close> and \<open>venc\<close>, the continuation octets as a
  little-endian base-128 number, over unbounded naturals.
\<close>

unbundle bit_operations_syntax

section \<open>The code\<close>

definition PROTOCOL_ERROR :: int where "PROTOCOL_ERROR = 1"
definition INTERNAL_ERROR :: int where "INTERNAL_ERROR = 2"

definition MAX_OCTETS :: nat where "MAX_OCTETS = 10"

definition mask_from_bits :: "nat \<Rightarrow> byte" where
  "mask_from_bits bits = drop_bit (8 - bits) 0xff"

text \<open>The \<open>for\<close> loop of \<open>decode_number\<close>, entered at index \<open>i\<close>.\<close>

function decode_loop :: "byte list \<Rightarrow> nat \<Rightarrow> nat \<Rightarrow> u64 \<Rightarrow> u64 \<Rightarrow> int \<times> u64" where
  "decode_loop buf len i mult number =
     (if i < len \<and> i \<le> MAX_OCTETS then
        let field = (buf ! i) AND 0x7f;
            number = number + ucast field * mult
        in if (buf ! i) AND 0x80 = 0 then (int i + 1, number)
           else if push_bit 7 mult < mult then (- INTERNAL_ERROR, number)
           else decode_loop buf len (i + 1) (push_bit 7 mult) number
      else (- PROTOCOL_ERROR, number))"
  by pat_completeness auto
termination
  by (relation "measure (\<lambda>(buf, len, i, mult, number). Suc MAX_OCTETS - i)") auto

declare decode_loop.simps [simp del]

definition decode_number ::
  "byte list option \<Rightarrow> nat \<Rightarrow> nat \<Rightarrow> u64 option \<Rightarrow> int \<times> u64 option" where
  "decode_number buf len bits number =
     (if len = 0 \<or> 8 < bits then (- PROTOCOL_ERROR, number)
      else case (buf, number) of
        (Some b, Some _) \<Rightarrow>
          (let mask = mask_from_bits bits;
               field = (b ! 0) AND mask
           in if field \<noteq> mask then (1, Some (ucast field))
              else let (r, n) = decode_loop b len 1 1 (ucast field) in (r, Some n))
      | _ \<Rightarrow> (- INTERNAL_ERROR, number))"

text \<open>The \<open>while\<close> loop of \<open>encode_number\<close> and the code after it.\<close>

function encode_loop :: "u64 \<Rightarrow> byte list \<Rightarrow> nat \<Rightarrow> nat \<Rightarrow> int \<times> byte list" where
  "encode_loop number buf buflen octet =
     (if 0x80 \<le> number then
        let octet = octet + 1
        in if buflen \<le> octet then (-1, buf)
           else encode_loop (number div 0x80)
                  (buf[octet := ucast (0x80 OR (number mod 0x80))]) buflen octet
      else
        let octet = octet + 1
        in if buflen \<le> octet then (-1, buf)
           else (int octet + 1, buf[octet := ucast number]))"
  by pat_completeness auto
termination
proof (relation "measure (\<lambda>(number, buf, buflen, octet). unat number)", goal_cases)
  case 1
  then show ?case by simp
next
  case (2 number buf buflen octet x)
  then have "0x80 \<le> unat number" by (simp add: word_le_nat_alt)
  then show ?case by (simp add: unat_div)
qed

declare encode_loop.simps [simp del]

definition encode_number ::
  "u64 \<Rightarrow> nat \<Rightarrow> byte list option \<Rightarrow> nat \<Rightarrow> int \<times> byte list option" where
  "encode_number number prefix_bits buf buflen =
     (case buf of
        None \<Rightarrow> (-1, None)
      | Some b \<Rightarrow>
        if buflen = 0 \<or> 8 < prefix_bits \<or> prefix_bits < 1 then (-1, Some b)
        else
          let mask = mask_from_bits prefix_bits
          in if number < ucast mask
             then (1, Some (b[0 := ((b ! 0) AND NOT mask) OR ucast number]))
             else let (r, b') = encode_loop (number - ucast mask) (b[0 := (b ! 0) OR mask]) buflen 0
                  in (r, Some b'))"


section \<open>Reference: continuation octets as a base-128 number\<close>

fun venc :: "nat \<Rightarrow> byte list" where
  "venc n = (if n < 128 then [of_nat n] else of_nat (128 + n mod 128) # venc (n div 128))"

declare venc.simps [simp del]

fun vdec :: "byte list \<Rightarrow> (nat \<times> nat) option" where
  "vdec [] = None"
| "vdec (x # xs) =
     (if unat x < 128 then Some (unat x, 1)
      else map_option (\<lambda>(v, k). (unat x - 128 + 128 * v, Suc k)) (vdec xs))"

lemma venc_nonempty [simp]: "venc n \<noteq> []"
  by (subst venc.simps) simp

lemma length_venc_pos: "0 < length (venc n)"
  by simp

lemma vdec_venc: "vdec (venc n @ xs) = Some (n, length (venc n))"
proof (induction n rule: venc.induct)
  case (1 n)
  show ?case
  proof (cases "n < 128")
    case True
    then show ?thesis by (simp add: venc.simps[of n] unat_of_nat)
  next
    case False
    have u: "unat (of_nat (128 + n mod 128) :: byte) = 128 + n mod 128"
      by (simp add: unat_of_nat del: of_nat_add)
    from False 1 have "vdec (venc (n div 128) @ xs) = Some (n div 128, length (venc (n div 128)))"
      by simp
    with False u show ?thesis by (simp add: venc.simps[of n] del: of_nat_add)
  qed
qed

lemma vdec_length: "vdec xs = Some (v, k) \<Longrightarrow> 0 < k \<and> k \<le> length xs"
proof (induction xs arbitrary: v k)
  case (Cons x xs)
  then show ?case by (fastforce split: if_splits)
qed simp

lemma vdec_append: "vdec xs = Some r \<Longrightarrow> vdec (xs @ ys) = Some r"
  by (induction xs arbitrary: r) (auto split: if_splits)

lemma length_venc_le: "n < 128 ^ k \<Longrightarrow> 0 < k \<Longrightarrow> length (venc n) \<le> k"
proof (induction k arbitrary: n)
  case (Suc k)
  show ?case
  proof (cases "n < 128")
    case True
    then show ?thesis by (simp add: venc.simps[of n])
  next
    case False
    then have "0 < k" using Suc.prems by (cases k) auto
    moreover have "n div 128 < 128 ^ k" using Suc.prems by (simp add: less_mult_imp_div_less mult.commute)
    ultimately have "length (venc (n div 128)) \<le> k" by (rule Suc.IH[rotated])
    with False show ?thesis by (simp add: venc.simps[of n])
  qed
qed simp


section \<open>The decoding loop reads one continuation number\<close>

lemma mult_overflow_check:
  assumes "1 \<le> i" "i \<le> 10"
  shows "push_bit 7 (2 ^ (7 * (i - 1)) :: u64) < 2 ^ (7 * (i - 1)) \<longleftrightarrow> i = 10"
proof (cases "i = 10")
  case True
  then show ?thesis by (simp add: push_bit_eq_mult word_less_nat_alt)
next
  case False
  then have "7 * (i - 1) + 7 < 64" using assms by simp
  moreover have "push_bit 7 (2 ^ (7 * (i - 1)) :: u64) = 2 ^ (7 * (i - 1) + 7)"
    by (simp only: push_bit_eq_mult power_add)
  ultimately have "\<not> push_bit 7 (2 ^ (7 * (i - 1)) :: u64) < 2 ^ (7 * (i - 1))"
    by (simp add: word_less_nat_alt)
  with False show ?thesis by simp
qed

lemma push_mult: "1 \<le> i \<Longrightarrow> push_bit 7 (2 ^ (7 * (i - 1)) :: u64) = 2 ^ (7 * (i + 1 - 1))"
  by (cases i) (simp_all add: push_bit_eq_mult power_add mult.commute)

lemma u64_field: "(ucast (x AND 0x7f :: byte) :: u64) = of_nat (unat x mod 128)"
  by (rule word_unat_eq_iff[THEN iffD2]) (simp add: unat_of_nat)

lemma u64_of_byte: "(ucast x :: u64) = of_nat (unat x)" for x :: byte
  by (rule word_unat_eq_iff[THEN iffD2]) (simp add: unat_of_nat)

lemma decode_loop_spec:
  assumes "1 \<le> i" "len \<le> length buf" "mult = 2 ^ (7 * (i - 1))"
  shows "case vdec (take (min len 11 - i) (drop i buf)) of
           Some (v, k) \<Rightarrow> decode_loop buf len i mult num = (int (i + k), num + mult * of_nat v)
         | None \<Rightarrow> fst (decode_loop buf len i mult num) < 0"
  using assms
proof (induction buf len i mult num rule: decode_loop.induct)
  case (1 buf len i mult num)
  show ?case
  proof (cases "i < len \<and> i \<le> MAX_OCTETS")
    case False
    then have "min len 11 - i = 0" by (auto simp: MAX_OCTETS_def)
    moreover from False have "decode_loop buf len i mult num = (- PROTOCOL_ERROR, num)"
      by (subst decode_loop.simps) (simp only: if_False)
    ultimately show ?thesis by (simp add: PROTOCOL_ERROR_def)
  next
    case True
    then have i: "i < len" "i \<le> 10" by (simp_all add: MAX_OCTETS_def)
    define x where "x = buf ! i"
    have split: "take (min len 11 - i) (drop i buf)
        = x # take (min len 11 - (i + 1)) (drop (i + 1) buf)"
      using i "1.prems" by (simp add: x_def take_Cons' Cons_nth_drop_Suc[symmetric])
    show ?thesis
    proof (cases "unat x < 128")
      case last: True
      then have "decode_loop buf len i mult num = (int i + 1, num + of_nat (unat x) * mult)"
        using True by (simp add: decode_loop.simps[of buf len i] byte_high_bit u64_field x_def)
      with last split show ?thesis by (simp add: mult.commute)
    next
      case more: False
      show ?thesis
      proof (cases "i = 10")
        case ten: True
        then have over: "push_bit 7 mult < mult"
          using mult_overflow_check[of i] "1.prems" i by simp
        have "fst (decode_loop buf len i mult num) < 0"
          using True more over
          by (subst decode_loop.simps) (simp add: byte_high_bit x_def INTERNAL_ERROR_def)
        with split more ten show ?thesis by simp
      next
        case nine: False
        let ?num = "num + of_nat (unat x mod 128) * mult"
        have no: "\<not> push_bit 7 mult < mult"
          using mult_overflow_check[of i] "1.prems" i nine by simp
        have step: "decode_loop buf len i mult num = decode_loop buf len (i + 1) (push_bit 7 mult) ?num"
          using True more no
          by (simp add: decode_loop.simps[of buf len i] byte_high_bit u64_field x_def)
        have IH: "case vdec (take (min len 11 - (i + 1)) (drop (i + 1) buf)) of
           Some (v, k) \<Rightarrow> decode_loop buf len (i + 1) (push_bit 7 mult) ?num
             = (int (i + 1 + k), ?num + push_bit 7 mult * of_nat v)
         | None \<Rightarrow> fst (decode_loop buf len (i + 1) (push_bit 7 mult) ?num) < 0"
        proof -
          have nonlast: "(buf ! i) AND 0x80 \<noteq> 0" using more by (simp add: byte_high_bit x_def)
          have pos: "1 \<le> i + 1" by simp
          have pow: "push_bit 7 mult = 2 ^ (7 * (i + 1 - 1))"
            by (simp only: "1.prems"(3) push_mult[OF "1.prems"(1)])
          from "1.IH"[OF True refl refl nonlast no pos "1.prems"(2) pow]
          show ?thesis unfolding u64_field x_def[symmetric] .
        qed
        have "unat x - 128 < 128" using unat_byte_less[of x] by linarith
        then have mod: "unat x mod 128 = unat x - 128"
          using more by (simp add: le_mod_geq)
        have num: "?num + push_bit 7 mult * of_nat v = num + mult * of_nat (unat x - 128 + 128 * v)" for v
          by (simp add: mod push_bit_eq_mult algebra_simps)
        from IH step split more num show ?thesis
          by (auto split: option.splits)
      qed
    qed
  qed
qed


section \<open>Prefix masks\<close>

lemma mask_from_bits_eq: "bits \<le> 8 \<Longrightarrow> mask_from_bits bits = mask bits"
proof -
  assume "bits \<le> 8"
  have "(0xff :: byte) = mask 8" by (simp add: mask_eq_exp_minus_1)
  then have "mask_from_bits bits = drop_bit (8 - bits) (mask 8)" by (simp only: mask_from_bits_def)
  also have "\<dots> = mask bits"
    using \<open>bits \<le> 8\<close> by (auto intro!: bit_word_eqI simp: bit_simps)
  finally show ?thesis .
qed

lemma unat_mask_byte: "p \<le> 8 \<Longrightarrow> unat (mask p :: byte) = 2 ^ p - 1"
  using unat_pow2[of p, where 'a = 8] by (cases "p = 8")
    (simp_all add: mask_eq_exp_minus_1 unat_minus_one)

lemma unat_mask_from_bits: "p \<le> 8 \<Longrightarrow> unat (mask_from_bits p) = 2 ^ p - 1"
  by (simp add: mask_from_bits_eq unat_mask_byte)

lemma or_mask_and_mask: "(x OR mask p) AND mask p = (mask p :: byte)"
  by (rule bit_word_eqI) (auto simp: bit_simps)

lemma splice_and_mask:
  assumes "unat n < 2 ^ p" "p \<le> 8"
  shows "((x AND NOT (mask p)) OR (ucast (n :: u64) :: byte)) AND mask p = ucast n"
proof -
  have n: "take_bit p n = n"
    by (rule word_unat_eq_iff[THEN iffD2]) (simp add: unsigned_take_bit_eq take_bit_nat_eq_self assms)
  then have "bit n i \<Longrightarrow> i < p" for i by (metis bit_take_bit_iff)
  then show ?thesis by (intro bit_word_eqI) (auto simp: bit_simps)
qed

lemma unat_ucast_u64:
  "unat n < 256 \<Longrightarrow> unat (ucast (n :: u64) :: byte) = unat n"
  by (simp add: unsigned_ucast_eq take_bit_nat_eq_self)


section \<open>The encoding loop writes one continuation number\<close>

lemma more_octet:
  "(ucast (0x80 OR (n mod 0x80)) :: byte) = of_nat (128 + unat n mod 128)" for n :: u64
proof -
  have "n mod 0x80 = take_bit 7 n" by (simp add: take_bit_eq_mod)
  moreover have "(0x80 :: u64) + take_bit 7 n = 0x80 OR take_bit 7 n"
  proof (rule disjunctive_add)
    fix i
    have "(0x80 :: u64) = 2 ^ 7" by simp
    then have "bit (0x80 :: u64) i \<longleftrightarrow> i = 7" by (simp only: bit_exp_iff) auto
    then show "\<not> bit (0x80 :: u64) i \<or> \<not> bit (take_bit 7 n) i" by (simp add: bit_take_bit_iff)
  qed
  ultimately have "0x80 OR (n mod 0x80) = 0x80 + take_bit 7 n" by simp
  moreover have "unat (0x80 + take_bit 7 n) = 128 + unat n mod 128"
    by (simp add: unat_word_ariths unsigned_take_bit_eq take_bit_eq_mod)
  ultimately have "unat (0x80 OR (n mod 0x80)) = 128 + unat n mod 128" by simp
  then show ?thesis
    by (intro word_unat_eq_iff[THEN iffD2]) (simp add: unsigned_ucast_eq unat_of_nat take_bit_eq_mod del: of_nat_add)
qed

lemma encode_loop_spec:
  assumes "octet < buflen" "buflen \<le> length buf"
  shows "(if octet + length (venc (unat number)) < buflen
          then encode_loop number buf buflen octet
               = (int (octet + length (venc (unat number))) + 1,
                  take (octet + 1) buf @ venc (unat number)
                    @ drop (octet + 1 + length (venc (unat number))) buf)
          else fst (encode_loop number buf buflen octet) = -1)
         \<and> length (snd (encode_loop number buf buflen octet)) = length buf"
  using assms
proof (induction number buf buflen octet rule: encode_loop.induct)
  case (1 number buf buflen octet)
  show ?case
  proof (cases "0x80 \<le> number")
    case False
    then have small: "unat number < 128" by (simp add: word_le_nat_alt)
    have "(ucast number :: byte) = of_nat (unat number)"
      by (rule word_unat_eq_iff[THEN iffD2]) (simp add: unat_of_nat unsigned_ucast_eq take_bit_eq_mod)
    with False small "1.prems" show ?thesis
      by (auto simp: encode_loop.simps[of number] venc.simps[of "unat number"] Let_def
          upd_conv_take_nth_drop)
  next
    case True
    then have big: "\<not> unat number < 128" by (simp add: word_le_nat_alt)
    let ?x = "ucast (0x80 OR (number mod 0x80)) :: byte"
    have v: "venc (unat number) = ?x # venc (unat (number div 0x80))"
      using big by (simp add: venc.simps[of "unat number"] more_octet unat_div)
    show ?thesis
    proof (cases "buflen \<le> octet + 1")
      case full: True
      with True v show ?thesis by (simp add: encode_loop.simps[of number])
    next
      case room: False
      have step: "encode_loop number buf buflen octet
          = encode_loop (number div 0x80) (buf[octet + 1 := ?x]) buflen (octet + 1)"
        using True room by (simp add: encode_loop.simps[of number])
      have upd: "take (Suc (Suc octet)) (buf[Suc octet := ?x]) = take (Suc octet) buf @ [?x]"
        using room "1.prems" by (simp add: take_Suc_conv_app_nth)
      from "1.IH"[OF True refl room] room "1.prems" show ?thesis
        unfolding step v by (simp add: upd split: if_splits)
    qed
  qed
qed


section \<open>Correctness of the integer codec\<close>

text \<open>
  The representation RFC 7541 gives the number \<open>n\<close> with a \<open>p\<close>-bit prefix, in a first
  octet whose other bits are those of \<open>b0\<close>.
\<close>

definition hpack_int :: "nat \<Rightarrow> byte \<Rightarrow> nat \<Rightarrow> byte list" where
  "hpack_int p b0 n =
     (if n < 2 ^ p - 1 then [(b0 AND NOT (mask p)) OR of_nat n]
      else (b0 OR mask p) # venc (n - (2 ^ p - 1)))"

lemma length_hpack_int_pos: "0 < length (hpack_int p b0 n)"
  by (simp add: hpack_int_def)

lemma hpack_int_nonempty [simp]: "hpack_int p b0 n \<noteq> []"
  by (simp add: hpack_int_def)

lemma length_hpack_int_le: "n < 2 ^ 64 \<Longrightarrow> length (hpack_int p b0 n) \<le> 11"
proof -
  assume n: "n < 2 ^ 64"
  then have "n - (2 ^ p - 1) < 128 ^ 10" by simp
  then have "length (venc (n - (2 ^ p - 1))) \<le> 10" by (rule length_venc_le) simp
  then show ?thesis by (simp add: hpack_int_def)
qed

lemma of_nat_unat_byte: "(of_nat (unat n) :: byte) = ucast (n :: u64)"
  by (rule word_unat_eq_iff[THEN iffD2]) (simp add: unat_of_nat unsigned_ucast_eq take_bit_eq_mod)

lemma less_ucast_mask:
  "p \<le> 8 \<Longrightarrow> n < ucast (mask_from_bits p) \<longleftrightarrow> unat n < 2 ^ p - 1" for n :: u64
  by (simp add: word_less_nat_alt unat_mask_from_bits)

lemma encode_number_spec:
  assumes "1 \<le> p" "p \<le> 8" "0 < buflen" "buflen \<le> length b"
  shows "if length (hpack_int p (hd b) (unat n)) \<le> buflen
         then encode_number n p (Some b) buflen
              = (int (length (hpack_int p (hd b) (unat n))),
                 Some (hpack_int p (hd b) (unat n) @ drop (length (hpack_int p (hd b) (unat n))) b))
         else fst (encode_number n p (Some b) buflen) = -1"
proof -
  from assms obtain b0 bs where b: "b = b0 # bs" by (cases b) auto
  show ?thesis
  proof (cases "n < ucast (mask_from_bits p)")
    case True
    then have "unat n < 2 ^ p - 1" using less_ucast_mask[OF assms(2)] by blast
    with True assms b show ?thesis
      by (simp add: encode_number_def hpack_int_def of_nat_unat_byte mask_from_bits_eq)
  next
    case False
    let ?m = "ucast (mask_from_bits p) :: u64"
    have "unat (n - ?m) = unat n - (2 ^ p - 1)"
      using False assms by (simp add: unat_sub_if' unat_mask_from_bits word_less_nat_alt)
    moreover have "\<not> unat n < 2 ^ p - 1" using False less_ucast_mask[OF assms(2)] by blast
    moreover have "encode_number n p (Some b) buflen
        = (let (r, b') = encode_loop (n - ?m) ((b0 OR mask_from_bits p) # bs) buflen 0 in (r, Some b'))"
      using False assms b by (simp add: encode_number_def Let_def)
    ultimately show ?thesis
      using encode_loop_spec[of 0 buflen "(b0 OR mask_from_bits p) # bs" "n - ?m"] assms b
      by (simp add: hpack_int_def mask_from_bits_eq split: if_splits prod.splits)
  qed
qed

text \<open>\<open>encode_number\<close> writes exactly the RFC 7541 representation of the number, in
  place, and returns its length; the bits of the first octet above the prefix and all the
  octets behind the representation are kept.  It returns a negative value exactly when the
  representation does not fit in \<open>buflen\<close> octets.\<close>

lemma encode_number_correct:
  assumes "1 \<le> p" "p \<le> 8" "0 < buflen" "buflen \<le> length b"
  shows "if length (hpack_int p (hd b) (unat n)) \<le> buflen
         then encode_number n p (Some b) buflen
              = (int (length (hpack_int p (hd b) (unat n))),
                 Some (hpack_int p (hd b) (unat n) @ drop (length (hpack_int p (hd b) (unat n))) b))
         else fst (encode_number n p (Some b) buflen) = -1"
  using assms by (rule encode_number_spec)

lemma encode_number_correct_witness:
  "encode_number 1337 5 (Some [0xe0, 0, 0, 7]) 4 = (3, Some [0xff, 154, 10, 7])"
  using encode_number_correct[of 5 4 "[0xe0, 0, 0, 7]" 1337]
  by (simp add: hpack_int_def venc.simps mask_eq_exp_minus_1)

lemma decode_hpack_int:
  assumes p: "1 \<le> p" "p \<le> 8" and n: "n < 2 ^ 64"
    and len: "length (hpack_int p b0 n) \<le> len" "len \<le> length (hpack_int p b0 n @ xs)"
  shows "decode_number (Some (hpack_int p b0 n @ xs)) len p (Some v)
         = (int (length (hpack_int p b0 n)), Some (of_nat n))"
proof (cases "n < 2 ^ p - 1")
  case True
  have pow: "(2::nat) ^ p \<le> 2 ^ 8" using p by (intro power_increasing) auto
  have u: "unat (of_nat n :: u64) = n" using n by (simp add: unat_of_nat)
  have b: "(of_nat n :: byte) = ucast (of_nat n :: u64)"
    by (rule word_unat_eq_iff[THEN iffD2])
      (use u in \<open>simp add: unat_of_nat unsigned_ucast_eq take_bit_eq_mod\<close>)
  have f: "((b0 AND NOT (mask p)) OR of_nat n) AND mask p = (of_nat n :: byte)"
    unfolding b by (rule splice_and_mask) (use u True p in auto)
  have un: "unat (of_nat n :: byte) = n" using True pow by (simp add: unat_of_nat)
  then have ne: "(of_nat n :: byte) \<noteq> mask p" using True p unat_mask_byte[of p] by auto
  have "(ucast (of_nat n :: byte) :: u64) = of_nat n"
    by (rule word_unat_eq_iff[THEN iffD2]) (simp add: un u)
  with True p len f ne show ?thesis
    by (simp add: decode_number_def hpack_int_def mask_from_bits_eq)
next
  case False
  define k where "k = n - (2 ^ p - 1)"
  have nk: "n = 2 ^ p - 1 + k" using False by (simp add: k_def)
  have hl: "hpack_int p b0 n = (b0 OR mask p) # venc k" using False by (simp add: hpack_int_def k_def)
  have bound: "length (venc k) \<le> 10" using length_hpack_int_le[OF n, of p b0] by (simp add: hl)
  let ?buf = "hpack_int p b0 n @ xs"
  have "length (venc k) \<le> min len 11 - 1" using bound len by (simp add: hl)
  then have "take (min len 11 - 1) (drop 1 ?buf)
      = venc k @ take (min len 11 - 1 - length (venc k)) xs"
    by (simp add: hl)
  then have "vdec (take (min len 11 - 1) (drop 1 ?buf)) = Some (k, length (venc k))"
    by (simp only: vdec_venc)
  then have "decode_loop ?buf len 1 1 num = (int (1 + length (venc k)), num + of_nat k)" for num
    using decode_loop_spec[of 1 len ?buf 1 num] len by simp
  moreover have "(ucast (mask p :: byte) :: u64) + of_nat k = of_nat n"
  proof -
    have "(ucast (mask p :: byte) :: u64) = of_nat (2 ^ p - 1)"
      by (simp only: unat_mask_byte[OF p(2), symmetric] u64_of_byte)
    then show ?thesis unfolding nk by (simp only: of_nat_add)
  qed
  ultimately show ?thesis using p len
    by (simp add: decode_number_def hl or_mask_and_mask mask_from_bits_eq)
qed

text \<open>C29: Round trip: whatever \<open>encode_number\<close> wrote, \<open>decode_number\<close> reads back from the
  same buffer: the same number, and the same octet count, for every 64-bit number and every
  prefix length.\<close>

theorem number_roundtrip:
  assumes enc: "encode_number n p (Some b) buflen = (r, Some b')"
    and r: "0 < r" and p: "1 \<le> p" "p \<le> 8" and len: "0 < buflen" "buflen \<le> length b"
  shows "decode_number (Some b') buflen p (Some v) = (r, Some n)"
proof -
  let ?e = "hpack_int p (hd b) (unat n)"
  from encode_number_spec[OF p len, of n] enc r
  have fits: "length ?e \<le> buflen" and r': "r = int (length ?e)" and b': "b' = ?e @ drop (length ?e) b"
    by (auto split: if_splits)
  have "unat n < 2 ^ 64" using unsigned_less[of n, where ?'a = nat] by simp
  then show ?thesis
    using decode_hpack_int[OF p, of "unat n" "hd b" buflen "drop (length ?e) b" v] fits len r' b'
    by simp
qed

theorem number_roundtrip_witness:
  "decode_number (Some [0xff, 154, 10, 7]) 4 5 (Some 0) = (3, Some 1337)"
proof (rule number_roundtrip)
  show "encode_number 1337 5 (Some [0xe0, 0, 0, 7]) 4 = (3, Some [0xff, 154, 10, 7])"
    using encode_number_spec[of 5 4 "[0xe0, 0, 0, 7]" 1337]
    by (simp add: hpack_int_def venc.simps mask_eq_exp_minus_1)
qed simp_all


text \<open>
  Reading an arbitrary buffer: the prefix field, and where it is all ones the continuation
  number in at most ten further octets.
\<close>

fun hpack_dec :: "nat \<Rightarrow> byte list \<Rightarrow> (nat \<times> nat) option" where
  "hpack_dec p [] = None"
| "hpack_dec p (x # xs) =
     (let field = unat x mod 2 ^ p
      in if field < 2 ^ p - 1 then Some (field, 1)
         else map_option (\<lambda>(v, k). (2 ^ p - 1 + v, Suc k)) (vdec (take 10 xs)))"

lemma hpack_dec_length: "hpack_dec p xs = Some (n, k) \<Longrightarrow> 0 < k \<and> k \<le> length xs \<and> k \<le> 11"
  by (cases xs) (auto simp: Let_def dest: vdec_length split: if_splits)

lemma decode_number_spec:
  assumes p: "p \<le> 8" and len: "0 < len" "len \<le> length b"
  shows "case hpack_dec p (take len b) of
           Some (n, k) \<Rightarrow> decode_number (Some b) len p (Some v) = (int k, Some (of_nat n))
         | None \<Rightarrow> fst (decode_number (Some b) len p (Some v)) < 0"
proof -
  from len obtain x xs where b: "b = x # xs" by (cases b) auto
  from len obtain l where l: "len = Suc l" by (cases len) auto
  have u: "unat (x AND mask p) = unat x mod 2 ^ p" by (rule unat_low_bits)
  have ones: "x AND mask p \<noteq> mask p \<longleftrightarrow> unat x mod 2 ^ p < 2 ^ p - 1"
  proof -
    have "x AND mask p \<noteq> mask p \<longleftrightarrow> unat x mod 2 ^ p \<noteq> 2 ^ p - 1"
      by (simp only: word_unat_eq_iff u unat_mask_byte[OF p])
    moreover have "unat x mod 2 ^ p < 2 ^ p" by simp
    ultimately show ?thesis by linarith
  qed
  have field: "(ucast (x AND mask p) :: u64) = of_nat (unat x mod 2 ^ p)"
    by (simp only: u64_of_byte u)
  show ?thesis
  proof (cases "unat x mod 2 ^ p < 2 ^ p - 1")
    case True
    then show ?thesis using p ones field b l
      by (simp add: decode_number_def mask_from_bits_eq)
  next
    case False
    have "unat x mod 2 ^ p < 2 ^ p" by simp
    with False have full: "unat x mod 2 ^ p = 2 ^ p - 1" by linarith
    have "decode_number (Some b) len p (Some v)
        = (let (r, n) = decode_loop b len 1 1 (of_nat (2 ^ p - 1)) in (r, Some n))"
      using False ones field full p b l by (simp add: decode_number_def mask_from_bits_eq)
    moreover have "take (min len 11 - 1) (drop 1 b) = take 10 (take l xs)"
      using b l by (simp add: min.commute)
    moreover define M where "M = (2::nat) ^ p - 1"
    ultimately have loop: "decode_number (Some b) len p (Some v)
        = (let (r, n) = decode_loop b len 1 1 (of_nat M) in (r, Some n))"
      and rest: "take (min len 11 - 1) (drop 1 b) = take 10 (take l xs)" by simp_all
    have dec: "hpack_dec p (take len b) = map_option (\<lambda>(v, k). (M + v, Suc k)) (vdec (take 10 (take l xs)))"
      using False b l by (simp add: M_def)
    show ?thesis
      using decode_loop_spec[of 1 len b 1 "of_nat M"] len unfolding loop dec rest
      by (auto split: option.splits prod.splits)
  qed
qed



text \<open>The accumulation wraps silently: on a complete 11-octet representation of a number
  of 64 bits or more, \<open>decode_number\<close> reports success with the number modulo 2^64; its
  overflow check looks at the multiplier only.\<close>

lemma decode_number_wraps:
  assumes p: "1 \<le> p" "p \<le> 8" and n: "length (hpack_int p b0 n) \<le> 11"
  shows "decode_number (Some (hpack_int p b0 n)) (length (hpack_int p b0 n)) p (Some v)
         = (int (length (hpack_int p b0 n)), Some (of_nat (n mod 2 ^ 64)))"
proof (cases "n < 2 ^ 64")
  case True
  then show ?thesis using decode_hpack_int[OF p True, of b0 _ "[]"] by simp
next
  case False
  have "(2::nat) ^ p \<le> 2 ^ 8" using p by (intro power_increasing) auto
  then have big: "\<not> n < 2 ^ p - 1" using False by simp
  define k where "k = n - (2 ^ p - 1)"
  have nk: "n = 2 ^ p - 1 + k" using big by (simp add: k_def)
  have hl: "hpack_int p b0 n = (b0 OR mask p) # venc k" using big by (simp add: hpack_int_def k_def)
  have "unat (b0 OR mask p) mod 2 ^ p = 2 ^ p - 1"
    using unat_low_bits[of "b0 OR mask p" p] by (simp add: or_mask_and_mask unat_mask_byte p)
  moreover have "vdec (take 10 (venc k)) = Some (k, length (venc k))"
    using vdec_venc[of k "[]"] n hl by simp
  ultimately have "hpack_dec p (hpack_int p b0 n) = Some (n, length (hpack_int p b0 n))"
    using hl nk by (simp add: Let_def)
  then have "decode_number (Some (hpack_int p b0 n)) (length (hpack_int p b0 n)) p (Some v)
      = (int (length (hpack_int p b0 n)), Some (of_nat n))"
    using decode_number_spec[OF p(2) length_hpack_int_pos, of p b0 n "hpack_int p b0 n" v] by simp
  moreover have "(of_nat n :: u64) = of_nat (n mod 2 ^ 64)"
    by (rule word_unat_eq_iff[THEN iffD2]) (simp add: unat_of_nat)
  ultimately show ?thesis by simp
qed

lemma decode_number_wraps_witness:
  "decode_number (Some [0x7f, 0x80, 0x80, 0x80, 0x80, 0x80, 0x80, 0x80, 0x80, 0x80, 0x02]) 11 7 (Some 0)
   = (11, Some 127)"
proof -
  have "hpack_int 7 0 (127 + 2 ^ 64)
      = [0x7f, 0x80, 0x80, 0x80, 0x80, 0x80, 0x80, 0x80, 0x80, 0x80, 0x02]"
    by (simp add: hpack_int_def venc.simps mask_eq_exp_minus_1)
  moreover have "length [0x7f, 0x80, 0x80, 0x80, 0x80, 0x80, 0x80, 0x80, 0x80, 0x80, 0x02 :: byte] = 11"
    by simp
  ultimately show ?thesis using decode_number_wraps[of 7 0 "127 + 2 ^ 64" 0]
    by (simp del: list.size)
qed

end
