(* ===== verification/Huff_Encode.thy ===== *)
theory Huff_Encode
  imports Huff_Code Hpack_Number
begin

text \<open>
  The Huffman encoder of \<open>src/dependencies/hpack/huffy/encode.c\<close>.

  The array \<open>etable\<close> is generated at build time: the definitions take it as the argument
  \<open>et\<close>.  The output buffer is a byte list that the functions return updated, and whose
  length is \<open>buflen\<close>; \<open>Inl\<close> carries the buffer at an early \<open>return -1\<close>.  The state
  record holds the local variables of \<open>encode\<close>.  In \<open>huffman_encode\<close>, a \<open>memmove\<close>
  that leaves the buffer is undefined behaviour, and the result is \<open>None\<close>;
  \<open>encoded_number\<close> is an uninitialised local array, so its contents are an argument.

  The locale \<open>code_book\<close> states what the encoder needs of the table; the lemmas in it show
  that the encoder writes the concatenated codes, packed into octets and padded with ones.
\<close>

unbundle bit_operations_syntax

section \<open>The code\<close>

record enc_state =
  existing_bits :: nat
  partial :: byte
  outi :: nat
  obuf :: "byte list"

definition SSIZE_MAX :: nat where "SSIZE_MAX = 2 ^ 63 - 1"

definition put_octet :: "byte \<Rightarrow> enc_state \<Rightarrow> byte list + enc_state" where
  "put_octet b st =
     (if length (obuf st) \<le> outi st then Inl (obuf st)
      else Inr (st\<lparr>obuf := (obuf st)[outi st := b], outi := outi st + 1\<rparr>))"

text \<open>The branch for a partial octet left by the symbol before.\<close>

definition fill_partial :: "u32 \<Rightarrow> nat \<Rightarrow> enc_state \<Rightarrow> byte list + u32 \<times> nat \<times> enc_state" where
  "fill_partial huffcode bits st =
     (if existing_bits st \<noteq> 0 then
        if 8 \<le> bits + existing_bits st then
          let octet = partial st OR ucast (drop_bit (bits - (8 - existing_bits st)) huffcode);
              bits = bits - (8 - existing_bits st);
              huffcode = huffcode AND (2 ^ bits - 1)
          in (case put_octet octet st of
                Inl b \<Rightarrow> Inl b
              | Inr st \<Rightarrow> Inr (huffcode, bits, st\<lparr>existing_bits := 0, partial := 0\<rparr>))
        else
          let new_partial_bits = (if bits < 8 - existing_bits st then bits else 8 - existing_bits st)
          in Inr (huffcode, bits - new_partial_bits,
               st\<lparr>partial := partial st OR ucast (push_bit (8 - (existing_bits st + bits)) huffcode),
                  existing_bits := existing_bits st + new_partial_bits\<rparr>)
      else Inr (huffcode, bits, st))"

text \<open>The \<open>while (bits > 8)\<close> loop.\<close>

function full_octets :: "u32 \<Rightarrow> nat \<Rightarrow> enc_state \<Rightarrow> byte list + nat \<times> enc_state" where
  "full_octets huffcode bits st =
     (if 8 < bits then
        (case put_octet (ucast (drop_bit (bits - 8) huffcode)) st of
           Inl b \<Rightarrow> Inl b
         | Inr st \<Rightarrow> full_octets huffcode (bits - 8) st)
      else Inr (bits, st))"
  by pat_completeness auto
termination
  by (relation "measure (\<lambda>(huffcode, bits, st). bits)") auto

declare full_octets.simps [simp del]

definition encode_symbol :: "encv \<Rightarrow> enc_state \<Rightarrow> byte list + enc_state" where
  "encode_symbol encv st =
     (case fill_partial (encv_value encv) (encv_bits encv) st of
        Inl b \<Rightarrow> Inl b
      | Inr (huffcode, bits, st) \<Rightarrow>
        (case full_octets huffcode bits st of
           Inl b \<Rightarrow> Inl b
         | Inr (bits, st) \<Rightarrow>
           Inr (if bits \<noteq> 0
                then st\<lparr>existing_bits := bits, partial := ucast (push_bit (8 - bits) huffcode)\<rparr>
                else st)))"

fun encode_symbols :: "(byte \<Rightarrow> encv) \<Rightarrow> byte list \<Rightarrow> enc_state \<Rightarrow> byte list + enc_state" where
  "encode_symbols et [] st = Inr st"
| "encode_symbols et (x # xs) st =
     (case encode_symbol (et x) st of
        Inl b \<Rightarrow> Inl b
      | Inr st \<Rightarrow> encode_symbols et xs st)"

definition encode :: "(byte \<Rightarrow> encv) \<Rightarrow> byte list \<Rightarrow> byte list \<Rightarrow> int \<times> byte list" where
  "encode et input buf =
     (case encode_symbols et input \<lparr>existing_bits = 0, partial = 0, outi = 0, obuf = buf\<rparr> of
        Inl b \<Rightarrow> (-1, b)
      | Inr st \<Rightarrow>
        (case (if existing_bits st \<noteq> 0
               then put_octet (partial st OR (2 ^ (8 - existing_bits st) - 1)) st
               else Inr st) of
           Inl b \<Rightarrow> (-1, b)
         | Inr st \<Rightarrow>
           if SSIZE_MAX < outi st then (-1, obuf st) else (int (outi st), obuf st)))"

definition huffman_encode ::
  "(byte \<Rightarrow> encv) \<Rightarrow> byte list \<Rightarrow> byte list \<Rightarrow> byte list \<Rightarrow> (int \<times> byte list) option" where
  "huffman_encode et encoded_number input buf =
     (if length buf < 1 then Some (-1, buf)
      else
        let (len, b) = encode et input (tl buf);
            buf = hd buf # b
        in if len < 0 then Some (len, buf)
           else
             let stlen = nat len;
                 (nlen, num) = encode_number (of_nat stlen) 7 (Some encoded_number) 10
             in if nlen < 0 then Some (nlen, buf)
                else if int SSIZE_MAX - len < nlen then Some (-1, buf)
                else if 1 < nlen \<and> length buf < nat nlen + stlen then None
                else
                  let buf = (if 1 < nlen then memmove buf (nat nlen) 1 stlen else buf);
                      buf = take (nat nlen) (the num) @ drop (nat nlen) buf;
                      buf = buf[0 := (buf ! 0) OR 0x80]
                  in Some (nlen + len, buf))"


section \<open>Packing bits into octets\<close>

function pack :: "bool list \<Rightarrow> byte list" where
  "pack bs = (if bs = [] then [] else of_nat (win 8 (pad bs)) # pack (drop 8 bs))"
  by pat_completeness auto
termination
  by (relation "measure length") auto

declare pack.simps [simp del]

lemma pack_Nil [simp]: "pack [] = []"
  by (simp add: pack.simps)

lemma unat_win_byte: "unat (of_nat (win 8 f) :: byte) = win 8 f"
  using win_less[of 8 f] by (simp add: unat_of_nat)

lemma bits_of_win: "bits_of 8 (of_nat (win 8 f) :: byte) = map f [0..<8]"
proof -
  have "win 8 (\<lambda>i. bit (of_nat (win 8 f) :: byte) (8 - 1 - i)) = win 8 f"
    using win_less[of 8 f]
    by (simp only: win_bits_word unsigned_take_bit_eq unat_win_byte take_bit_nat_eq_self)
  then have "\<forall>i<8. bit (of_nat (win 8 f) :: byte) (8 - 1 - i) = f i" by (rule win_inj)
  then show ?thesis by (auto intro!: nth_equalityI)
qed

lemma div_8_up: "0 < n \<Longrightarrow> (n + 7) div 8 = Suc ((n - 8 + 7) div 8)" for n :: nat
  by (cases "n < 8") (simp_all add: div_nat_eqI le_div_geq)

lemma length_pack: "length (pack bs) = (length bs + 7) div 8"
proof (induction bs rule: pack.induct)
  case (1 bs)
  show ?case
  proof (cases "bs = []")
    case False
    then have "0 < length bs" by simp
    with 1 False show ?thesis by (subst pack.simps) (simp add: div_8_up)
  qed simp
qed

lemma pack_octet: "pack (bits_of 8 x @ bs) = x # pack bs" for x :: byte
proof -
  have "bits_of 8 (of_nat (win 8 (pad (bits_of 8 x @ bs))) :: byte) = bits_of 8 x"
    by (rule nth_equalityI) (simp_all only: bits_of_win length_map length_upt length_bits_of, simp add: pad_append)
  then have "of_nat (win 8 (pad (bits_of 8 x @ bs))) = x" by (rule bits_of_byte_inj)
  then show ?thesis by (subst pack.simps) (simp flip: length_0_conv)
qed

lemma pack_octets: "pack (bytes_bits xs @ bs) = xs @ pack bs"
  by (induction xs) (simp_all add: pack_octet)

lemma bytes_bits_pack: "\<exists>k<8. bytes_bits (pack bs) = bs @ replicate k True"
proof (induction bs rule: pack.induct)
  case (1 bs)
  show ?case
  proof (cases "bs = []")
    case True
    then show ?thesis by (intro exI[of _ 0]) simp
  next
    case False
    with 1 obtain k where k: "k < 8" "bytes_bits (pack (drop 8 bs)) = drop 8 bs @ replicate k True" by blast
    have eq: "bytes_bits (pack bs) = map (pad bs) [0..<8] @ bytes_bits (pack (drop 8 bs))"
      using False by (subst pack.simps) (simp add: bits_of_win)
    show ?thesis
    proof (cases "8 \<le> length bs")
      case True
      then have "map (pad bs) [0..<8] = take 8 bs"
        by (intro nth_equalityI) (auto simp: pad_def)
      then show ?thesis using eq k by (intro exI[of _ k]) (simp flip: append_assoc)
    next
      case short: False
      then have "map (pad bs) [0..<8] = bs @ replicate (8 - length bs) True"
        by (intro nth_equalityI) (auto simp: pad_def nth_append)
      then show ?thesis using eq short False by (intro exI[of _ "8 - length bs"]) (simp flip: length_greater_0_conv)
    qed
  qed
qed

lemma pack_eqI:
  assumes "bytes_bits xs = bs @ replicate k True" "k < 8"
  shows "pack bs = xs"
proof -
  obtain j where j: "j < 8" "bytes_bits (pack bs) = bs @ replicate j True" using bytes_bits_pack by blast
  have "8 * length xs = length bs + k" "8 * length (pack bs) = length bs + j"
    using arg_cong[OF assms(1), of length] arg_cong[OF j(2), of length] by simp_all
  then have "j = k" using j(1) assms(2) by presburger
  then show ?thesis using assms(1) j(2) by (intro bytes_bits_inj) simp
qed


section \<open>The encoder writes the packed codes\<close>

text \<open>
  The state \<open>st\<close>, reached from the buffer \<open>orig\<close>, holds the bits \<open>bs\<close>: the octets
  written, and the leading bits of the partial octet.
\<close>

definition enc_rep :: "byte list \<Rightarrow> enc_state \<Rightarrow> bool list \<Rightarrow> bool" where
  "enc_rep orig st bs \<longleftrightarrow>
     existing_bits st \<le> 8 \<and> (\<forall>i. i + existing_bits st < 8 \<longrightarrow> \<not> bit (partial st) i)
     \<and> outi st \<le> length orig \<and> length (obuf st) = length orig
     \<and> drop (outi st) (obuf st) = drop (outi st) orig
     \<and> bs = bytes_bits (take (outi st) (obuf st)) @ take (existing_bits st) (bits_of 8 (partial st))"

lemma enc_rep_length: "enc_rep orig st bs \<Longrightarrow> length bs = 8 * outi st + existing_bits st"
  by (auto simp: enc_rep_def)

lemma put_octet_full:
  "enc_rep orig st bs \<Longrightarrow> put_octet b st = Inl buf \<Longrightarrow> outi st = length orig \<and> length buf = length orig"
  by (auto simp: put_octet_def enc_rep_def split: if_splits)

lemma put_octet_room:
  assumes rep: "enc_rep orig st bs" and put: "put_octet b st = Inr st'"
  shows "st' = st\<lparr>obuf := (obuf st)[outi st := b], outi := outi st + 1\<rparr>"
    and "take (outi st + 1) ((obuf st)[outi st := b]) = take (outi st) (obuf st) @ [b]"
    and "drop (outi st + 1) ((obuf st)[outi st := b]) = drop (outi st + 1) orig"
    and "outi st < length orig"
proof -
  have room: "outi st < length (obuf st)" using put by (simp add: put_octet_def split: if_splits)
  then show "st' = st\<lparr>obuf := (obuf st)[outi st := b], outi := outi st + 1\<rparr>"
    using put by (simp add: put_octet_def)
  show "take (outi st + 1) ((obuf st)[outi st := b]) = take (outi st) (obuf st) @ [b]"
    using room by (simp add: take_Suc_conv_app_nth)
  show "drop (outi st + 1) ((obuf st)[outi st := b]) = drop (outi st + 1) orig"
    using rep unfolding enc_rep_def
    by (metis Suc_eq_plus1 drop_Suc drop_update_cancel lessI tl_drop)
  show "outi st < length orig" using room rep by (simp add: enc_rep_def)
qed

lemma put_octet_flush:
  assumes "enc_rep orig st bs" "put_octet b st = Inr st'"
    and "bits_of 8 b = take (existing_bits st) (bits_of 8 (partial st)) @ xs"
  shows "enc_rep orig (st'\<lparr>existing_bits := 0, partial := 0\<rparr>) (bs @ xs)"
  using put_octet_room[OF assms(1,2)] assms by (simp add: enc_rep_def)

lemma put_octet_whole:
  assumes "enc_rep orig st bs" "put_octet b st = Inr st'" "existing_bits st = 0"
  shows "enc_rep orig st' (bs @ bits_of 8 b) \<and> existing_bits st' = 0"
  using put_octet_room[OF assms(1,2)] assms by (simp add: enc_rep_def)

lemma bit_code_octet:
  "bit (ucast (drop_bit k (c :: u32)) :: byte) i \<longleftrightarrow> i < 8 \<and> bit c (k + i)"
  "bit (ucast (push_bit k (c :: u32)) :: byte) i \<longleftrightarrow> i < 8 \<and> k \<le> i \<and> bit c (i - k)"
  by (auto simp: bit_simps dest: bit_imp_le_length)

lemma small_code_bit: "take_bit n c = c \<Longrightarrow> bit c i \<Longrightarrow> i < n" for c :: u32
  by (metis bit_take_bit_iff)

lemma fill_partial_rep:
  assumes rep: "enc_rep orig st bs" and c: "take_bit n c = c" and n: "1 \<le> n" "n \<le> 30"
  shows "case fill_partial c n st of
           Inl buf \<Rightarrow> 8 * length orig < length bs + n \<and> length buf = length orig
         | Inr (c', n', st') \<Rightarrow> n' \<le> 30 \<and> (n' = 0 \<or> existing_bits st' = 0)
             \<and> (\<exists>bs'. enc_rep orig st' bs' \<and> bs' @ bits_of n' c' = bs @ bits_of n c)"
proof -
  let ?e = "existing_bits st"
  have e: "?e \<le> 8" and low: "\<And>i. i + ?e < 8 \<Longrightarrow> \<not> bit (partial st) i"
    using rep by (auto simp: enc_rep_def)
  consider "?e = 0" | "?e \<noteq> 0" "8 \<le> n + ?e" | "?e \<noteq> 0" "n + ?e < 8" by linarith
  then show ?thesis
  proof cases
    case 1
    then show ?thesis using rep n by (auto simp: fill_partial_def)
  next
    case 2
    let ?m = "n - (8 - ?e)"
    let ?o = "partial st OR ucast (drop_bit ?m c)"
    have o: "bits_of 8 ?o = take ?e (bits_of 8 (partial st)) @ bits_of (8 - ?e) (drop_bit ?m c)"
    proof (rule nth_equalityI)
      fix i assume "i < length (bits_of 8 ?o)"
      then have i: "i < 8" by simp
      show "bits_of 8 ?o ! i = (take ?e (bits_of 8 (partial st)) @ bits_of (8 - ?e) (drop_bit ?m c)) ! i"
      proof (cases "i < ?e")
        case True
        then have "\<not> bit c (?m + (7 - i))" using small_code_bit[OF c, of "?m + (7 - i)"] 2 i by auto
        then show ?thesis using True i by (simp add: nth_append bit_or_iff bit_code_octet)
      next
        case False
        then have "8 - ?e - 1 - (i - ?e) = 7 - i" "7 - i < 8" using i by auto
        then show ?thesis using False i low[of "7 - i"]
          by (simp add: nth_append bit_or_iff bit_code_octet bit_drop_bit_eq)
      qed
    qed (use e in simp)
    have split: "bits_of (8 - ?e) (drop_bit ?m c) @ bits_of ?m (c AND (2 ^ ?m - 1)) = bits_of n c"
    proof -
      have "bits_of n c = bits_of (8 - ?e) (drop_bit ?m c) @ bits_of ?m c"
        using bits_of_append[of "8 - ?e" ?m c] 2 e by simp
      moreover have "bits_of ?m (c AND (2 ^ ?m - 1)) = bits_of ?m c"
        by (simp add: bits_of_eq_iff bit_and_iff bit_mask_iff n flip: mask_eq_exp_minus_1) (use n in auto)
      ultimately show ?thesis by simp
    qed
    show ?thesis
      using put_octet_full[OF rep] put_octet_flush[OF rep _ o] 2 n e enc_rep_length[OF rep]
      by (fastforce simp: fill_partial_def Let_def split[symmetric] split: sum.splits)
  next
    case 3
    let ?p = "partial st OR ucast (push_bit (8 - (?e + n)) c)"
    have p: "take (?e + n) (bits_of 8 ?p) = take ?e (bits_of 8 (partial st)) @ bits_of n c"
    proof (rule nth_equalityI)
      fix i assume "i < length (take (?e + n) (bits_of 8 ?p))"
      then have i: "i < ?e + n" by simp
      show "take (?e + n) (bits_of 8 ?p) ! i = (take ?e (bits_of 8 (partial st)) @ bits_of n c) ! i"
      proof (cases "i < ?e")
        case True
        then have "\<not> (8 - (?e + n) \<le> 7 - i \<and> bit c (7 - i - (8 - (?e + n))))"
          using small_code_bit[OF c, of "7 - i - (8 - (?e + n))"] 3 by auto
        then show ?thesis using True i 3 by (simp add: nth_append bit_or_iff bit_code_octet)
      next
        case False
        then have "7 - i - (8 - (?e + n)) = n - 1 - (i - ?e)" "8 - (?e + n) \<le> 7 - i" "7 - i < 8"
          using i 3 by auto
        then show ?thesis using False i 3 low[of "7 - i"]
          by (simp add: nth_append bit_or_iff bit_code_octet)
      qed
    qed (use 3 in simp)
    have "\<not> bit ?p i" if "i + (?e + n) < 8" for i
      using that low[of i] by (auto simp: bit_or_iff bit_code_octet)
    then show ?thesis using rep 3 n p by (auto simp: fill_partial_def enc_rep_def)
  qed
qed

lemma full_octets_rep:
  assumes "enc_rep orig st bs" "n \<le> 8 \<or> existing_bits st = 0" "n \<le> 30"
  shows "case full_octets c n st of
           Inl buf \<Rightarrow> 8 * length orig < length bs + n \<and> length buf = length orig
         | Inr (n', st') \<Rightarrow> n' \<le> 8 \<and> existing_bits st' = (if n \<le> 8 then existing_bits st else 0)
             \<and> (n = 0 \<longrightarrow> n' = 0) \<and> (\<exists>bs'. enc_rep orig st' bs' \<and> bs' @ bits_of n' c = bs @ bits_of n c)"
  using assms
proof (induction c n st arbitrary: bs rule: full_octets.induct)
  case (1 c n st)
  show ?case
  proof (cases "8 < n")
    case False
    then show ?thesis using "1.prems" by (auto simp: full_octets.simps[of c n])
  next
    case True
    then have e: "existing_bits st = 0" using "1.prems" by simp
    let ?o = "ucast (drop_bit (n - 8) c) :: byte"
    have o: "bits_of 8 ?o = bits_of 8 (drop_bit (n - 8) c)"
      by (simp add: bits_of_eq_iff bit_code_octet bit_drop_bit_eq)
    have split: "bits_of n c = bits_of 8 (drop_bit (n - 8) c) @ bits_of (n - 8) c"
      using bits_of_append[of 8 "n - 8" c] True by simp
    show ?thesis
    proof (cases "put_octet ?o st")
      case (Inl buf)
      then show ?thesis using put_octet_full[OF "1.prems"(1) Inl] True enc_rep_length[OF "1.prems"(1)]
        by (simp add: full_octets.simps[of c n])
    next
      case (Inr st')
      from put_octet_whole[OF "1.prems"(1) Inr e]
      have st': "enc_rep orig st' (bs @ bits_of 8 (drop_bit (n - 8) c))" "existing_bits st' = 0"
        using o e by simp_all
      from "1.IH"[OF True Inr st'(1)] st'(2) "1.prems"(3) True show ?thesis
        by (auto simp: full_octets.simps[of c n] Inr split split: sum.splits prod.splits)
    qed
  qed
qed


section \<open>The interface: a code book\<close>

text \<open>
  What the encoder needs of its table: every code has between one and thirty bits, and its
  value has no bits beyond its length.
\<close>

definition entry_bits :: "encv \<Rightarrow> bool list" where
  "entry_bits v = bits_of (encv_bits v) (encv_value v)"

lemma pad_partial:
  assumes "1 \<le> e" "e \<le> 8" "\<And>i. i + e < 8 \<Longrightarrow> \<not> bit (p :: byte) i"
  shows "pack (take e (bits_of 8 p)) = [p OR (2 ^ (8 - e) - 1)]"
proof -
  let ?bs = "take e (bits_of 8 p)"
  have m: "(2 ^ (8 - e) - 1 :: byte) = mask (8 - e)" by (simp add: mask_eq_exp_minus_1)
  have "bits_of 8 (of_nat (win 8 (pad ?bs)) :: byte) = bits_of 8 (p OR (2 ^ (8 - e) - 1))"
  proof (rule nth_equalityI)
    fix i assume "i < length (bits_of 8 (of_nat (win 8 (pad ?bs)) :: byte))"
    then have i: "i < 8" "7 - i < 8" "7 - i < 8 - e \<longleftrightarrow> e \<le> i" using assms(1,2) by auto
    have "bit p (7 - i) \<Longrightarrow> i < e" using assms(3)[of "7 - i"] i(1) by (cases "i < e") auto
    then show "bits_of 8 (of_nat (win 8 (pad ?bs)) :: byte) ! i = bits_of 8 (p OR (2 ^ (8 - e) - 1)) ! i"
      unfolding bits_of_win m using i assms(2)
      by (auto simp: pad_def bit_or_iff bit_mask_iff)
  qed simp
  then have "of_nat (win 8 (pad ?bs)) = p OR (2 ^ (8 - e) - 1)" by (rule bits_of_byte_inj)
  moreover have "?bs \<noteq> []" "drop 8 ?bs = []" using assms by (auto simp flip: length_0_conv)
  ultimately show ?thesis by (subst pack.simps) simp
qed

locale code_book =
  fixes et :: "byte \<Rightarrow> encv"
  assumes width: "1 \<le> encv_bits (et x) \<and> encv_bits (et x) \<le> 30"
    and value_fits: "take_bit (encv_bits (et x)) (encv_value (et x)) = encv_value (et x)"
begin

lemma encode_symbol_rep:
  assumes rep: "enc_rep orig st bs"
  shows "case encode_symbol (et x) st of
           Inl buf \<Rightarrow> 8 * length orig < length bs + encv_bits (et x) \<and> length buf = length orig
         | Inr st' \<Rightarrow> enc_rep orig st' (bs @ entry_bits (et x))"
proof (cases "fill_partial (encv_value (et x)) (encv_bits (et x)) st")
  case (Inl buf)
  then show ?thesis using fill_partial_rep[OF rep value_fits[of x]] width[of x]
    by (simp add: encode_symbol_def)
next
  case (Inr r)
  obtain c n st1 where r: "r = (c, n, st1)" by (cases r)
  from fill_partial_rep[OF rep value_fits[of x]] width[of x] Inr r
  obtain bs1 where n: "n \<le> 30" "n = 0 \<or> existing_bits st1 = 0" and rep1: "enc_rep orig st1 bs1"
    and bs1: "bs1 @ bits_of n c = bs @ entry_bits (et x)"
    by (auto simp: entry_bits_def)
  have len: "length bs1 + n = length bs + encv_bits (et x)"
    using arg_cong[OF bs1, of length] by (simp add: entry_bits_def)
  show ?thesis
  proof (cases "full_octets c n st1")
    case Inl2: (Inl buf)
    then show ?thesis using full_octets_rep[OF rep1, of n c] n Inr r len
      by (auto simp: encode_symbol_def)
  next
    case Inr2: (Inr q)
    obtain m st2 where q: "q = (m, st2)" by (cases q)
    from full_octets_rep[OF rep1, of n c] n Inr2 q bs1
    obtain bs2 where m: "m \<le> 8" "m = 0 \<or> existing_bits st2 = 0" and rep2: "enc_rep orig st2 bs2"
      and bs2: "bs2 @ bits_of m c = bs @ entry_bits (et x)"
      by (auto split: if_splits)
    have "enc_rep orig (if m \<noteq> 0 then st2\<lparr>existing_bits := m, partial := ucast (push_bit (8 - m) c)\<rparr> else st2)
        (bs2 @ bits_of m c)"
    proof (cases "m = 0")
      case False
      have "take m (bits_of 8 (ucast (push_bit (8 - m) c) :: byte)) = bits_of m c"
      proof (rule nth_equalityI)
        fix i assume "i < length (take m (bits_of 8 (ucast (push_bit (8 - m) c) :: byte)))"
        then have "i < m" by simp
        then have "7 - i - (8 - m) = m - 1 - i" "8 - m \<le> 7 - i" "7 - i < 8" using m by auto
        then show "take m (bits_of 8 (ucast (push_bit (8 - m) c) :: byte)) ! i = bits_of m c ! i"
          using \<open>i < m\<close> m by (simp add: bit_code_octet)
      qed (use m in simp)
      then show ?thesis using rep2 m False by (auto simp: enc_rep_def bit_code_octet)
    qed (use rep2 in simp)
    then show ?thesis using Inr r Inr2 q bs2 by (simp add: encode_symbol_def)
  qed
qed

lemma encode_symbols_rep:
  "enc_rep orig st bs \<Longrightarrow>
     case encode_symbols et xs st of
       Inl buf \<Rightarrow> 8 * length orig < length bs + length (concat (map (\<lambda>x. entry_bits (et x)) xs))
         \<and> length buf = length orig
     | Inr st' \<Rightarrow> enc_rep orig st' (bs @ concat (map (\<lambda>x. entry_bits (et x)) xs))"
proof (induction xs arbitrary: st bs)
  case (Cons x xs)
  have l: "length (entry_bits (et x)) = encv_bits (et x)" by (simp add: entry_bits_def)
  show ?case
  proof (cases "encode_symbol (et x) st")
    case (Inl buf)
    then show ?thesis using encode_symbol_rep[OF Cons.prems, of x] l by simp
  next
    case (Inr st')
    then have "enc_rep orig st' (bs @ entry_bits (et x))" using encode_symbol_rep[OF Cons.prems, of x] by simp
    from Cons.IH[OF this] Inr show ?thesis by (simp split: sum.splits)
  qed
qed simp

lemma encode_spec:
  fixes xs :: "byte list"
  defines "bs \<equiv> concat (map (\<lambda>x. entry_bits (et x)) xs)"
  assumes small: "length buf \<le> SSIZE_MAX"
  shows "if length bs \<le> 8 * length buf
         then encode et xs buf = (int (length (pack bs)), pack bs @ drop (length (pack bs)) buf)
         else fst (encode et xs buf) = -1 \<and> length (snd (encode et xs buf)) = length buf"
proof -
  let ?st0 = "\<lparr>existing_bits = 0, partial = 0, outi = 0, obuf = buf\<rparr>"
  have rep0: "enc_rep buf ?st0 []" by (simp add: enc_rep_def)
  show ?thesis
  proof (cases "encode_symbols et xs ?st0")
    case (Inl b)
    then show ?thesis using encode_symbols_rep[OF rep0, of xs] by (simp add: encode_def bs_def)
  next
    case (Inr st)
    with encode_symbols_rep[OF rep0, of xs] have rep: "enc_rep buf st bs" by (simp add: bs_def)
    let ?e = "existing_bits st"
    let ?t = "take ?e (bits_of 8 (partial st))"
    have e: "?e \<le> 8" and low: "\<And>i. i + ?e < 8 \<Longrightarrow> \<not> bit (partial st) i"
      and bs: "bs = bytes_bits (take (outi st) (obuf st)) @ ?t"
      and frame: "drop (outi st) (obuf st) = drop (outi st) buf" "length (obuf st) = length buf" "outi st \<le> length buf"
      using rep by (auto simp: enc_rep_def)
    show ?thesis
    proof (cases "?e = 0")
      case True
      then have "pack bs = take (outi st) (obuf st)" using bs pack_octets[of _ "[]"] by simp
      moreover have "length bs = 8 * outi st" using enc_rep_length[OF rep] True by simp
      ultimately show ?thesis using True Inr frame small
        by (simp add: encode_def min_absorb2 flip: frame(1))
    next
      case False
      let ?o = "partial st OR (2 ^ (8 - ?e) - 1)"
      have pack: "pack bs = take (outi st) (obuf st) @ [?o]"
        using bs pack_octets[of _ ?t] pad_partial[OF _ e low] False by simp
      show ?thesis
      proof (cases "put_octet ?o st")
        case Inl2: (Inl b)
        then show ?thesis using put_octet_full[OF rep Inl2] False Inr enc_rep_length[OF rep]
          by (simp add: encode_def)
      next
        case Inr2: (Inr st')
        note room = put_octet_room[OF rep Inr2]
        have "obuf st' = (obuf st)[outi st := ?o]" by (subst room(1)) simp
        then have "obuf st' = pack bs @ drop (outi st + 1) buf"
          using append_take_drop_id[of "outi st + 1" "obuf st'"] by (simp only: room(2,3) pack)
        moreover have "length (pack bs) = outi st + 1" using pack frame by simp
        moreover have "outi st' = outi st + 1" using room(1) by simp
        moreover have "length bs \<le> 8 * length buf" using enc_rep_length[OF rep] room(4) e by simp
        ultimately show ?thesis using False Inr Inr2 room(4) small
          by (simp add: encode_def)
      qed
    qed
  qed
qed

end

section \<open>The generated table is a code book\<close>

definition huff_etable :: "byte \<Rightarrow> encv" where
  "huff_etable x = \<lparr>encv_value = of_nat (code_value (unat x)), encv_bits = code_bits (unat x)\<rparr>"

lemma generated_etable_eq: "generated_etable et \<longleftrightarrow> et = huff_etable"
  by (auto simp: generated_etable_def huff_etable_def fun_eq_iff split_beta)

lemma unat_code_value: "s < 256 \<Longrightarrow> unat (of_nat (code_value s) :: u32) = code_value s"
proof -
  assume s: "s < 256"
  have "code_value s < 2 ^ code_bits s" by (rule code_value_less) fact
  also have "(2::nat) ^ code_bits s \<le> 2 ^ 32" using code_bits_range[OF s] by (intro power_increasing) auto
  finally show ?thesis by (simp add: unat_of_nat)
qed

interpretation huff: code_book huff_etable
proof
  fix x
  show "1 \<le> encv_bits (huff_etable x) \<and> encv_bits (huff_etable x) \<le> 30"
    using code_bits_range[of "unat x"] by (simp add: huff_etable_def)
  show "take_bit (encv_bits (huff_etable x)) (encv_value (huff_etable x)) = encv_value (huff_etable x)"
    using code_value_less[of "unat x"]
    by (intro word_unat_eq_iff[THEN iffD2])
      (simp add: huff_etable_def unsigned_take_bit_eq unat_code_value take_bit_nat_eq_self)
qed

lemma entry_bits_huff: "entry_bits (huff_etable x) = symbol_bits x"
proof -
  have "bit (of_nat (code_value (unat x)) :: u32) i = bit (code_value (unat x)) i" if "i < code_bits (unat x)" for i
    using that code_bits_range[of "unat x"] by (simp add: bit_of_nat_iff)
  then show ?thesis by (simp add: entry_bits_def symbol_bits_def huff_etable_def bits_of_eq_iff)
qed

lemma text_bits_huff: "concat (map (\<lambda>x. entry_bits (huff_etable x)) xs) = text_bits xs"
  by (simp add: text_bits_def entry_bits_huff)


section \<open>The string encoder\<close>

text \<open>The string literal of RFC 7541, 5.2, for a text: the H bit, the length, the octets.\<close>

definition hpack_huff_string :: "byte list \<Rightarrow> byte list" where
  "hpack_huff_string xs =
     (let s = pack (text_bits xs) in hpack_int 7 0x80 (length s) @ s)"

lemma set_huffman_bit:
  "(hpack_int 7 b0 n)[0 := hpack_int 7 b0 n ! 0 OR 0x80] = hpack_int 7 0x80 n"
proof -
  have b: "bit (0x80 :: byte) i \<longleftrightarrow> i = 7" for i
  proof -
    have "(0x80 :: byte) = 2 ^ 7" by simp
    then show ?thesis by (simp only: bit_exp_iff) auto
  qed
  have split: "i = 7 \<or> i < 7" if "i < LENGTH(8)" for i using that by auto
  have "(b0 AND NOT (mask 7)) OR of_nat n OR 0x80 = (0x80 AND NOT (mask 7)) OR (of_nat n :: byte)"
    by (rule bit_word_eqI, drule split, unfold bit_simps b) auto
  moreover have "(b0 OR mask 7) OR 0x80 = 0x80 OR (mask 7 :: byte)"
    by (rule bit_word_eqI, drule split, unfold bit_simps b) auto
  ultimately show ?thesis by (simp add: hpack_int_def or.assoc)
qed

text \<open>
  The three outcomes, for a buffer of a size that exists: the string fits; it fits without
  its length prefix only; not even that.
\<close>

lemma huffman_encode_cases:
  fixes xs buf num :: "byte list"
  defines "s \<equiv> pack (text_bits xs)" and "out \<equiv> hpack_huff_string xs"
  assumes et: "generated_etable et" and num: "length num = 10" and small: "length buf + 10 \<le> SSIZE_MAX"
  shows "length out \<le> length buf \<Longrightarrow>
      huffman_encode et num xs buf = Some (int (length out), out @ drop (length out) buf)"
    and "length s < length buf \<Longrightarrow> length buf < length out \<Longrightarrow> huffman_encode et num xs buf = None"
    and "length buf \<le> length s \<Longrightarrow> map_option fst (huffman_encode et num xs buf) = Some (-1)"
proof -
  have et': "et = huff_etable" using et by (simp add: generated_etable_eq)
  let ?h = "\<lambda>b. hpack_int 7 b (length s)"
  have out: "out = ?h 0x80 @ s" by (simp add: out_def s_def hpack_huff_string_def Let_def)
  have fits: "length s < length buf \<longleftrightarrow> buf \<noteq> [] \<and> length (text_bits xs) \<le> 8 * length (tl buf)"
    by (cases buf) (auto simp: s_def length_pack)
  have enc: "if length (text_bits xs) \<le> 8 * length (tl buf)
      then encode et xs (tl buf) = (int (length s), s @ drop (length s) (tl buf))
      else fst (encode et xs (tl buf)) = -1 \<and> length (snd (encode et xs (tl buf))) = length (tl buf)"
    using huff.encode_spec[of "tl buf" xs] small unfolding et' text_bits_huff s_def by simp
  show "map_option fst (huffman_encode et num xs buf) = Some (-1)" if "length buf \<le> length s"
    using that enc fits by (auto simp: huffman_encode_def Let_def split_beta)
  have lh: "length (?h b) = length (?h 0x80)" for b by (simp add: hpack_int_def)
  have short: "length (?h b) \<le> 10" if "length s < length buf" for b
  proof -
    have "length s - 127 < 128 ^ 9" using that small by (simp add: SSIZE_MAX_def)
    then have "length (venc (length s - 127)) \<le> 9" by (rule length_venc_le) simp
    then show ?thesis by (simp add: hpack_int_def)
  qed
  have encn: "encode_number (of_nat (length s)) 7 (Some num) 10
      = (int (length (?h 0x80)), Some (?h (hd num) @ drop (length (?h 0x80)) num))"
    if "length s < length buf"
  proof -
    have "unat (of_nat (length s) :: u64) = length s"
      using that small by (simp add: unat_of_nat SSIZE_MAX_def)
    then show ?thesis
      using encode_number_spec[of 7 10 num "of_nat (length s)"] num short[OF that] lh[of "hd num"]
      by simp
  qed
  have step: "huffman_encode et num xs buf =
      (if 1 < length (?h 0x80) \<and> length buf < length (?h 0x80) + length s then None
       else let b = hd buf # s @ drop (length s) (tl buf);
                b = (if 1 < length (?h 0x80) then memmove b (length (?h 0x80)) 1 (length s) else b);
                b = ?h (hd num) @ drop (length (?h 0x80)) b
            in Some (int (length (?h 0x80)) + int (length s), b[0 := (b ! 0) OR 0x80]))"
    if "length s < length buf"
  proof -
    have "encode et xs (tl buf) = (int (length s), s @ drop (length s) (tl buf))"
      using enc that fits by simp
    moreover have "length (hd buf # s @ drop (length s) (tl buf)) = length buf"
      using that by (cases buf) auto
    moreover have "\<not> int SSIZE_MAX - int (length s) < int (length (?h 0x80))"
    proof -
      have "length (?h 0x80) \<le> 10" using that by (rule short)
      then show ?thesis using that small by (simp add: SSIZE_MAX_def)
    qed
    moreover have "buf \<noteq> []" using that by auto
    ultimately show ?thesis
      using that lh[of "hd num"] encn[OF that]
      by (simp add: huffman_encode_def Let_def not_less)
  qed
  show "huffman_encode et num xs buf = None" if "length s < length buf" "length buf < length out"
    using step[OF that(1)] that length_hpack_int_pos[of 7 "0x80" "length s"] by (simp add: out)
  show "huffman_encode et num xs buf = Some (int (length out), out @ drop (length out) buf)"
    if fit: "length out \<le> length buf"
  proof -
    let ?n = "length (?h 0x80)"
    have pos: "0 < ?n" by (rule length_hpack_int_pos)
    have s: "length s < length buf" using fit pos unfolding out length_append by linarith
    obtain b0 bs where buf: "buf = b0 # bs" using s by (cases buf) auto
    define b where "b = hd buf # s @ drop (length s) (tl buf)"
    define m where "m = (if 1 < ?n then memmove b ?n 1 (length s) else b)"
    have m: "drop ?n m = s @ drop (?n + length s) buf"
    proof (cases "1 < ?n")
      case True
      have "?n \<le> length b" using fit s by (simp add: b_def out buf)
      then have "drop ?n m = take (length s) (drop 1 b) @ drop (?n + length s) b"
        using True drop_memmove[of ?n b "length s"] by (simp add: m_def)
      then show ?thesis using True by (simp add: b_def buf drop_Cons')
    next
      case False
      then have "?n = 1" using pos by linarith
      then show ?thesis by (simp add: m_def b_def buf)
    qed
    have "(?h (hd num) @ drop ?n m)[0 := (?h (hd num) @ drop ?n m) ! 0 OR 0x80]
        = (?h (hd num))[0 := ?h (hd num) ! 0 OR 0x80] @ drop ?n m"
      using length_hpack_int_pos[of 7 "hd num" "length s"] by (simp add: list_update_append nth_append)
    also have "\<dots> = out @ drop (length out) buf"
      by (simp only: set_huffman_bit m out append_assoc length_append)
    finally have "huffman_encode et num xs buf = Some (int ?n + int (length s), out @ drop (length out) buf)"
      using step[OF s, unfolded Let_def, folded b_def, folded m_def] fit by (simp add: out)
    then show ?thesis by (simp add: out)
  qed
qed

text \<open>C13: \<open>huffman_encode\<close> writes the RFC 7541 string literal of the text (the H bit and
  the length as a 7-bit prefixed integer, then the concatenated symbol codes padded with
  ones), returns its length and leaves the rest of the buffer alone whenever the literal fits
  in the buffer; the uninitialised local array does not influence the result.\<close>

theorem huffman_encode_correct:
  assumes "generated_etable et" "length num = 10" "length buf + 10 \<le> SSIZE_MAX"
    and "length (hpack_huff_string xs) \<le> length buf"
  shows "huffman_encode et num xs buf
    = Some (int (length (hpack_huff_string xs)),
            hpack_huff_string xs @ drop (length (hpack_huff_string xs)) buf)"
  using assms by (rule huffman_encode_cases(1))

theorem huffman_encode_correct_witness:
  "huffman_encode huff_etable (replicate 10 7) [0x61, 0x62] [1, 2, 3, 4, 5]
   = Some (3, [0x82, 0x1c, 0x7f, 4, 5])"
proof -
  have "pack (text_bits [0x61, 0x62]) = [0x1c, 0x7f]"
    by (rule pack_eqI[of _ _ 5]) (simp_all add: symbol_bits_def code_of_eqs bits_simps bit_0)
  then have l: "hpack_huff_string [0x61, 0x62] = [0x82, 0x1c, 0x7f]"
    by (simp add: hpack_huff_string_def hpack_int_def mask_eq_exp_minus_1)
  show ?thesis
    using huffman_encode_correct[of huff_etable "replicate 10 7" "[1, 2, 3, 4, 5]" "[0x61, 0x62]"]
    by (simp add: l generated_etable_eq SSIZE_MAX_def)
qed

lemma length_concat_replicate: "length (concat (replicate n xs)) = n * length xs"
  by (induction n) auto

text \<open>The missing check: where the encoded text fits in the buffer behind one octet for
  the length, but its length takes more than one octet and the whole does not fit,
  \<open>huffman_encode\<close> does not fail but moves the text beyond the end of the buffer.\<close>

lemma huffman_encode_overflow:
  assumes "generated_etable et" "length num = 10" "length buf + 10 \<le> SSIZE_MAX"
    and "length (pack (text_bits xs)) < length buf" "length buf < length (hpack_huff_string xs)"
  shows "huffman_encode et num xs buf = None"
  using assms by (rule huffman_encode_cases(2))

lemma huffman_encode_overflow_witness:
  "huffman_encode huff_etable (replicate 10 0) (replicate 203 0x30) (replicate 128 0) = None"
proof -
  have "length (pack (text_bits (replicate 203 0x30))) = 127"
    by (simp add: length_pack text_bits_def length_concat_replicate length_symbol_bits code_of_eqs)
  moreover from this have "length (hpack_huff_string (replicate 203 0x30)) = 129"
    by (simp add: hpack_huff_string_def hpack_int_def Let_def venc.simps)
  ultimately show ?thesis
    using huffman_encode_overflow[of huff_etable "replicate 10 0" "replicate 128 0" "replicate 203 0x30"]
    by (simp add: generated_etable_eq SSIZE_MAX_def)
qed

text \<open>When the encoded text does not even fit behind one octet, \<open>huffman_encode\<close>
  returns -1.\<close>

lemma huffman_encode_too_small:
  assumes "generated_etable et" "length num = 10" "length buf + 10 \<le> SSIZE_MAX"
    and "length buf \<le> length (pack (text_bits xs))"
  shows "map_option fst (huffman_encode et num xs buf) = Some (-1)"
  using assms by (rule huffman_encode_cases(3))

lemma huffman_encode_too_small_witness:
  "map_option fst (huffman_encode huff_etable (replicate 10 0) [0x61, 0x62] [0, 0]) = Some (-1)"
proof (rule huffman_encode_too_small)
  show "length [0, 0] \<le> length (pack (text_bits [0x61, 0x62]))"
    by (simp add: length_pack length_symbol_bits code_of_eqs)
qed (simp_all add: generated_etable_eq SSIZE_MAX_def)

end
