(* ===== verification/Bitbuf.thy ===== *)
theory Bitbuf
  imports Prelude
begin

text \<open>
  The bit reader of \<open>src/dependencies/hpack/huffy/bitbuf.c\<close> and \<open>bitbuf.h\<close>: a window
  of sixteen bits (\<open>octet\<close> and \<open>next\<close>) over an octet buffer, refilled as bits are
  discarded, which reads ones for ever behind the end of the buffer.

  The pair of pointers \<open>pos\<close>, \<open>end\<close> is the list of the octets not yet loaded.  Shift
  counts are \<open>nat\<close>; \<open>eos_after_bits\<close> is an \<open>int\<close> with its sentinel -1.  A shift by
  a negative count is undefined in C: \<open>bb_eos\<close> returns \<open>None\<close> there.

  The abstraction is \<open>bb_rep r bs\<close>: the reader \<open>r\<close> stands before the bit string \<open>bs\<close>.
  The lemmas show that \<open>bb_reader_init\<close> establishes it, \<open>bb_next\<close> drops bits from it,
  \<open>bb_peek\<close> shows its first eight bits (padded with ones) and \<open>bb_eos\<close> answers whether
  at most eight bits are left and all of them are ones.  The interface the decoder uses is
  the locale \<open>bit_source\<close>.
\<close>

unbundle bit_operations_syntax

section \<open>The code\<close>

record bitbuf =
  octet :: byte
  next_oct :: byte
  next_bits :: nat
  eos_after_bits :: int

record bb_reader =
  bb :: bitbuf
  unread :: "byte list"

definition bb_load_next :: "bitbuf \<Rightarrow> nat \<Rightarrow> byte list \<Rightarrow> bitbuf \<times> byte list" where
  "bb_load_next b discard_bits buf =
     (let shifted = push_bit discard_bits (octet b);
          (b', buf') =
            (if next_bits b \<le> discard_bits then
               let (loaded, eos, buf') =
                     (case buf of
                        [] \<Rightarrow> (0xff, if eos_after_bits b = -1 then 8 + int (next_bits b)
                                     else eos_after_bits b, [])
                      | x # xs \<Rightarrow> (x, eos_after_bits b, xs))
               in (\<lparr>octet = shifted OR drop_bit (8 - discard_bits) (next_oct b)
                            OR drop_bit (8 - discard_bits + next_bits b) loaded,
                    next_oct = push_bit (discard_bits - next_bits b) loaded,
                    next_bits = 8 - (discard_bits - next_bits b),
                    eos_after_bits = eos\<rparr>, buf')
             else
               (b\<lparr>octet := shifted OR drop_bit (8 - discard_bits) (next_oct b),
                  next_oct := push_bit discard_bits (next_oct b),
                  next_bits := next_bits b - discard_bits\<rparr>, buf))
      in (if eos_after_bits b' \<noteq> -1
          then b'\<lparr>eos_after_bits :=
                    (if eos_after_bits b' < int discard_bits then 0
                     else eos_after_bits b' - int discard_bits)\<rparr>
          else b', buf'))"

definition bb_eos :: "bb_reader \<Rightarrow> bool option" where
  "bb_eos bbr =
     (let eos = eos_after_bits (bb bbr) in
      if eos = -1 then Some False
      else if eos = 0 then Some True
      else if 8 < eos \<and>
              (let mask = push_bit (nat (8 - eos mod 8)) 0xff
               in next_oct (bb bbr) AND mask \<noteq> mask) then Some False
      else if 8 - eos < 0 then None
      else (let mask = push_bit (nat (8 - eos)) 0xff
            in Some (octet (bb bbr) AND mask = mask)))"

definition bb_next :: "bb_reader \<Rightarrow> nat \<Rightarrow> bb_reader" where
  "bb_next bbr seek_bits =
     (let (b, buf) = bb_load_next (bb bbr) seek_bits (unread bbr)
      in \<lparr>bb = b, unread = buf\<rparr>)"

definition bb_peek :: "bb_reader \<Rightarrow> byte" where
  "bb_peek bbr = octet (bb bbr)"

definition bb_reader_init :: "byte list \<Rightarrow> bb_reader" where
  "bb_reader_init buf =
     (let b = \<lparr>octet = 0, next_oct = 0, next_bits = 8, eos_after_bits = -1\<rparr>;
          (b, buf) = bb_load_next b 8 buf;
          (b, buf) = bb_load_next b 8 buf
      in \<lparr>bb = b, unread = buf\<rparr>)"


section \<open>What a reader stands for\<close>

definition bb_rep :: "bb_reader \<Rightarrow> bool list \<Rightarrow> bool" where
  "bb_rep r bs \<longleftrightarrow>
     1 \<le> next_bits (bb r) \<and> next_bits (bb r) \<le> 8
     \<and> (\<forall>k<8. bit (octet (bb r)) k = pad bs (7 - k))
     \<and> (\<forall>k<8. bit (next_oct (bb r)) k = (7 - k < next_bits (bb r) \<and> pad bs (15 - k)))
     \<and> (if eos_after_bits (bb r) = -1
        then 8 + next_bits (bb r) \<le> length bs
             \<and> drop (8 + next_bits (bb r)) bs = bytes_bits (unread r)
        else unread r = [] \<and> eos_after_bits (bb r) = int (length bs) \<and> length bs \<le> 8)"

lemma bit_byte_ge [simp]: "8 \<le> k \<Longrightarrow> \<not> bit (b :: byte) k"
  by (auto dest: bit_imp_le_length)

text \<open>The new \<open>octet\<close>: the window moves by \<open>d\<close> bits over octet, next and loaded octet.\<close>

lemma octet_shift:
  fixes oct nxt loaded :: byte
  assumes d: "d \<le> 8" and nb: "nb \<le> d"
    and o: "\<And>k. k < 8 \<Longrightarrow> bit oct k = f (7 - k)"
    and n: "\<And>k. k < 8 \<Longrightarrow> bit nxt k = (7 - k < nb \<and> f (15 - k))"
    and l: "\<And>k. k < 8 \<Longrightarrow> bit loaded k = f (15 + nb - k)"
    and k: "k < 8"
  shows "bit (push_bit d oct OR drop_bit (8 - d) nxt OR drop_bit (8 - d + nb) loaded) k = f (d + (7 - k))"
proof -
  have b: "bit (push_bit d oct OR drop_bit (8 - d) nxt OR drop_bit (8 - d + nb) loaded) k
      \<longleftrightarrow> (d \<le> k \<and> bit oct (k - d)) \<or> bit nxt (8 - d + k) \<or> bit loaded (8 - d + nb + k)"
    using k by (auto simp: bit_simps)
  consider (oct) "d \<le> k" | (nxt) "k < d" "d - 1 - k < nb" | (load) "k < d" "nb \<le> d - 1 - k"
    by linarith
  then show ?thesis
  proof cases
    case oct
    then have "7 - (k - d) = d + (7 - k)" using k d by simp
    then show ?thesis using oct b o[of "k - d"] k d by simp
  next
    case nxt
    then have "7 - (8 - d + k) = d - 1 - k" "15 - (8 - d + k) = d + (7 - k)" using k d by simp_all
    then show ?thesis using nxt b n[of "8 - d + k"] k d by simp
  next
    case load
    then have "7 - (8 - d + k) = d - 1 - k" "15 + nb - (8 - d + nb + k) = d + (7 - k)" using k d by simp_all
    then show ?thesis using load b n[of "8 - d + k"] l[of "8 - d + nb + k"] k d by simp
  qed
qed

lemma next_shift:
  fixes loaded :: byte
  assumes "nb \<le> d" "d \<le> 8"
    and l: "\<And>k. k < 8 \<Longrightarrow> bit loaded k = f (15 + nb - k)"
    and k: "k < 8"
  shows "bit (push_bit (d - nb) loaded) k \<longleftrightarrow> 7 - k < 8 - (d - nb) \<and> f (d + (15 - k))"
proof -
  have "bit (push_bit (d - nb) loaded) k \<longleftrightarrow> d - nb \<le> k \<and> bit loaded (k - (d - nb))"
    using k by (auto simp: bit_simps)
  moreover have "bit loaded (k - (d - nb)) = f (d + (15 - k))" if le: "d - nb \<le> k"
  proof -
    have "15 + nb - (k - (d - nb)) = d + (15 - k)" using assms k le by linarith
    moreover have "bit loaded (k - (d - nb)) = f (15 + nb - (k - (d - nb)))" by (rule l) (use k in simp)
    ultimately show ?thesis by (simp only:)
  qed
  moreover have "d - nb \<le> k \<longleftrightarrow> 7 - k < 8 - (d - nb)" using k by linarith
  ultimately show ?thesis by blast
qed

lemma keep_shift:
  fixes oct nxt :: byte
  assumes d: "d < nb" "nb \<le> 8"
    and o: "\<And>k. k < 8 \<Longrightarrow> bit oct k = f (7 - k)"
    and n: "\<And>k. k < 8 \<Longrightarrow> bit nxt k = (7 - k < nb \<and> f (15 - k))"
    and k: "k < 8"
  shows "bit (push_bit d oct OR drop_bit (8 - d) nxt) k = f (d + (7 - k))"
    and "bit (push_bit d nxt) k \<longleftrightarrow> 7 - k < nb - d \<and> f (d + (15 - k))"
proof -
  have b: "bit (push_bit d oct OR drop_bit (8 - d) nxt) k
      \<longleftrightarrow> (d \<le> k \<and> bit oct (k - d)) \<or> bit nxt (8 - d + k)"
    using k by (auto simp: bit_simps)
  show "bit (push_bit d oct OR drop_bit (8 - d) nxt) k = f (d + (7 - k))"
  proof (cases "d \<le> k")
    case True
    then have "7 - (k - d) = d + (7 - k)" using k d by simp
    then show ?thesis using True b o[of "k - d"] k d by simp
  next
    case False
    then have "7 - (8 - d + k) = d - 1 - k" "15 - (8 - d + k) = d + (7 - k)" using k d by simp_all
    moreover have "bit nxt (8 - d + k) = (7 - (8 - d + k) < nb \<and> f (15 - (8 - d + k)))"
      by (rule n) (use False k d in linarith)
    moreover have "d - 1 - k < nb" using d by linarith
    ultimately show ?thesis using False b by (simp only:) blast
  qed
  have "bit (push_bit d nxt) k \<longleftrightarrow> d \<le> k \<and> bit nxt (k - d)"
    using k by (auto simp: bit_simps)
  moreover have "d \<le> k \<Longrightarrow> 7 - (k - d) = d + (7 - k)" "d \<le> k \<Longrightarrow> 15 - (k - d) = d + (15 - k)"
    using k d by linarith+
  ultimately show "bit (push_bit d nxt) k \<longleftrightarrow> 7 - k < nb - d \<and> f (d + (15 - k))"
    using n[of "k - d"] k d by (cases "d \<le> k") auto
qed


section \<open>One step of the reader\<close>

lemma bit_ff [simp]: "k < 8 \<Longrightarrow> bit (0xff :: byte) k"
proof -
  assume "k < 8"
  moreover have "(0xff :: byte) = mask 8" by (simp add: mask_eq_exp_minus_1)
  ultimately show ?thesis by (simp only: bit_mask_iff) simp
qed

lemma loaded_bits:
  assumes k: "k < 8" and tail: "drop (8 + nb) bs = bytes_bits (x # xs)"
  shows "bit x k = pad bs (15 + nb - k)"
proof -
  have len: "8 + nb + 8 \<le> length bs"
    using arg_cong[OF tail, of length] by simp
  have "15 + nb - k = 8 + nb + (7 - k)" "8 + nb + (7 - k) < length bs" using k len by linarith+
  then have "pad bs (15 + nb - k) = bs ! (8 + nb + (7 - k))" by (simp only: pad_def if_True)
  also have "\<dots> = drop (8 + nb) bs ! (7 - k)" using len k by simp
  also have "\<dots> = bit x k" unfolding tail using k by (auto simp: nth_append)
  finally show ?thesis by simp
qed

lemma bb_next_load_rep:
  assumes rep: "bb_rep r bs" and d: "d \<le> 8" "next_bits (bb r) \<le> d"
  shows "bb_rep (bb_next r d) (drop d bs)"
proof -
  let ?b = "bb r" let ?nb = "next_bits (bb r)"
  define loaded where "loaded = (case unread r of [] \<Rightarrow> 0xff | x # _ \<Rightarrow> x)"
  from rep have nb: "1 \<le> ?nb" "?nb \<le> 8"
    and o: "\<And>k. k < 8 \<Longrightarrow> bit (octet ?b) k = pad bs (7 - k)"
    and n: "\<And>k. k < 8 \<Longrightarrow> bit (next_oct ?b) k = (7 - k < ?nb \<and> pad bs (15 - k))"
    by (simp_all add: bb_rep_def)
  have l: "bit loaded k = pad bs (15 + ?nb - k)" if k: "k < 8" for k
  proof (cases "unread r")
    case Nil
    then have "length bs \<le> 8 + ?nb"
      using rep nb by (auto simp: bb_rep_def split: if_splits)
    then have "\<not> 15 + ?nb - k < length bs" using k by linarith
    then show ?thesis using Nil bit_ff[OF k] by (simp add: loaded_def pad_def)
  next
    case (Cons x xs)
    then have "drop (8 + ?nb) bs = bytes_bits (x # xs)"
      using rep by (auto simp: bb_rep_def split: if_splits)
    from loaded_bits[OF k this] show ?thesis by (simp add: Cons loaded_def)
  qed
  have tail: "drop (8 + (8 - (d - ?nb))) (drop d bs) = bytes_bits xs"
    if "drop (8 + ?nb) bs = bytes_bits (x # xs)" for x xs
  proof -
    have "drop (8 + (8 - (d - ?nb))) (drop d bs) = drop 8 (drop (8 + ?nb) bs)"
      using d nb by simp
    then show ?thesis unfolding that by simp
  qed
  have bits: "bit (push_bit d (octet ?b) OR drop_bit (8 - d) (next_oct ?b)
                OR drop_bit (8 - d + ?nb) loaded) k = pad (drop d bs) (7 - k)"
    "bit (push_bit (d - ?nb) loaded) k = (7 - k < 8 - (d - ?nb) \<and> pad (drop d bs) (15 - k))"
    if "k < 8" for k
    using octet_shift[OF d o n l that] next_shift[OF d(2,1) l that] by (simp_all add: pad_drop)
  show ?thesis
  proof (cases "unread r")
    case Nil
    from bits have "\<forall>k<8. bit (push_bit d (octet ?b) OR drop_bit (8 - d) (next_oct ?b)
                OR drop_bit (8 - d + ?nb) 0xff) k = pad (drop d bs) (7 - k)"
      "\<forall>k<8. bit (push_bit (d - ?nb) 0xff :: byte) k
         = (7 - k < 8 - (d - ?nb) \<and> pad (drop d bs) (15 - k))"
      by (simp_all add: loaded_def Nil)
    moreover have "length bs = 8 + ?nb \<or> eos_after_bits ?b \<noteq> -1"
      using rep Nil by (auto simp: bb_rep_def split: if_splits)
    ultimately show ?thesis
      using rep Nil d nb by (auto simp: bb_rep_def bb_next_def bb_load_next_def Let_def split: if_splits)
  next
    case (Cons x xs)
    then have neg: "eos_after_bits ?b = -1" and dr: "drop (8 + ?nb) bs = bytes_bits (x # xs)"
      using rep by (auto simp: bb_rep_def split: if_splits)
    have "8 + (8 - (d - ?nb)) \<le> length (drop d bs)"
      using arg_cong[OF dr, of length] d nb by simp
    moreover from bits have "\<forall>k<8. bit (push_bit d (octet ?b) OR drop_bit (8 - d) (next_oct ?b)
                OR drop_bit (8 - d + ?nb) x) k = pad (drop d bs) (7 - k)"
      "\<forall>k<8. bit (push_bit (d - ?nb) x) k
         = (7 - k < 8 - (d - ?nb) \<and> pad (drop d bs) (15 - k))"
      by (simp_all add: loaded_def Cons)
    ultimately show ?thesis
      using Cons neg d nb tail[OF dr] by (auto simp: bb_rep_def bb_next_def bb_load_next_def)
  qed
qed

lemma bb_next_keep_rep:
  assumes rep: "bb_rep r bs" and d: "d < next_bits (bb r)"
  shows "bb_rep (bb_next r d) (drop d bs)"
proof -
  let ?b = "bb r" let ?nb = "next_bits (bb r)"
  from rep have nb: "1 \<le> ?nb" "?nb \<le> 8"
    and o: "\<And>k. k < 8 \<Longrightarrow> bit (octet ?b) k = pad bs (7 - k)"
    and n: "\<And>k. k < 8 \<Longrightarrow> bit (next_oct ?b) k = (7 - k < ?nb \<and> pad bs (15 - k))"
    by (simp_all add: bb_rep_def)
  have "\<forall>k<8. bit (push_bit d (octet ?b) OR drop_bit (8 - d) (next_oct ?b)) k = pad (drop d bs) (7 - k)"
    "\<forall>k<8. bit (push_bit d (next_oct ?b)) k = (7 - k < ?nb - d \<and> pad (drop d bs) (15 - k))"
    using keep_shift[OF d nb(2) o n] by (simp_all add: pad_drop)
  moreover have "8 + (?nb - d) + d = 8 + ?nb" using d by simp
  ultimately show ?thesis
    using rep d nb by (auto simp: bb_rep_def bb_next_def bb_load_next_def Let_def split: if_splits)
qed

lemma bb_next_rep:
  assumes "bb_rep r bs" "d \<le> 8"
  shows "bb_rep (bb_next r d) (drop d bs)"
  using assms bb_next_load_rep bb_next_keep_rep by (cases "next_bits (bb r) \<le> d") auto

lemma bb_init_rep: "bb_rep (bb_reader_init buf) (bytes_bits buf)"
proof -
  let ?z = "\<lparr>octet = 0, next_oct = 0, next_bits = 8, eos_after_bits = -1\<rparr>"
  have "7 - k < 16" "15 - k < 16" for k :: nat by linarith+
  then have "bb_rep \<lparr>bb = ?z, unread = buf\<rparr> (replicate 16 False @ bytes_bits buf)"
    by (simp add: bb_rep_def pad_append)
  then have "bb_rep (bb_next \<lparr>bb = ?z, unread = buf\<rparr> 8) (drop 8 (replicate 16 False @ bytes_bits buf))"
    by (rule bb_next_rep) simp
  then have "bb_rep (bb_next (bb_next \<lparr>bb = ?z, unread = buf\<rparr> 8) 8)
      (drop 8 (drop 8 (replicate 16 False @ bytes_bits buf)))"
    by (rule bb_next_rep) simp
  moreover have "bb_next (bb_next \<lparr>bb = ?z, unread = buf\<rparr> 8) 8 = bb_reader_init buf"
    by (simp add: bb_next_def bb_reader_init_def split: prod.splits)
  ultimately show ?thesis by simp
qed

lemma bb_peek_rep: "bb_rep r bs \<Longrightarrow> unat (bb_peek r) = win 8 (pad bs)"
  by (rule unat_byte_win) (simp add: bb_rep_def bb_peek_def)

lemma bb_eos_rep:
  assumes rep: "bb_rep r bs"
  shows "bb_eos r = Some (length bs \<le> 8 \<and> (\<forall>b\<in>set bs. b))"
proof (cases "eos_after_bits (bb r) = -1")
  case True
  then have "\<not> length bs \<le> 8" using rep by (auto simp: bb_rep_def)
  then show ?thesis using True by (simp add: bb_eos_def)
next
  case False
  let ?n = "length bs"
  have eos: "eos_after_bits (bb r) = int ?n" and n: "?n \<le> 8"
    and o: "\<And>k. k < 8 \<Longrightarrow> bit (octet (bb r)) k = pad bs (7 - k)"
    using rep False by (auto simp: bb_rep_def)
  have sh: "nat (8 - int ?n) = 8 - ?n" by simp
  have m: "bit (push_bit (8 - ?n) (0xff :: byte)) k \<longleftrightarrow> 8 - ?n \<le> k \<and> k < 8" for k
    using bit_ff[of "k - (8 - ?n)"] by (auto simp: bit_push_bit_iff)
  have "octet (bb r) AND push_bit (8 - ?n) 0xff = push_bit (8 - ?n) 0xff
      \<longleftrightarrow> (\<forall>k<8. 8 - ?n \<le> k \<longrightarrow> bit (octet (bb r)) k)"
    by (auto simp: bit_eq_iff bit_and_iff m)
  also have "\<dots> \<longleftrightarrow> (\<forall>i<?n. bs ! i)"
  proof safe
    fix i assume a: "\<forall>k<8. 8 - ?n \<le> k \<longrightarrow> bit (octet (bb r)) k" and i: "i < ?n"
    then have "bit (octet (bb r)) (7 - i)" using n by simp
    then show "bs ! i" using o[of "7 - i"] i n by (simp add: pad_def)
  next
    fix k :: nat assume "\<forall>i<?n. bs ! i" "k < 8"
    then show "bit (octet (bb r)) k" using o[of k] by (auto simp: pad_def)
  qed
  also have "\<dots> \<longleftrightarrow> (\<forall>b\<in>set bs. b)" by (simp add: all_set_conv_all_nth)
  finally show ?thesis using False eos n sh by (auto simp: bb_eos_def Let_def)
qed


section \<open>The interface: a source of bits\<close>

text \<open>
  What a client of the reader relies on.  Reading ahead is by whole octets, so the facts a
  decoder needs are about what \<open>peek\<close> shows after some octets were skipped.
\<close>

locale bit_source =
  fixes peek :: "'r \<Rightarrow> byte"
    and skip :: "'r \<Rightarrow> nat \<Rightarrow> 'r"
    and at_end :: "'r \<Rightarrow> bool option"
    and rep :: "'r \<Rightarrow> bool list \<Rightarrow> bool"
  assumes peek_rep: "rep r bs \<Longrightarrow> unat (peek r) = win 8 (pad bs)"
    and skip_rep: "rep r bs \<Longrightarrow> d \<le> 8 \<Longrightarrow> rep (skip r d) (drop d bs)"
    and at_end_rep: "rep r bs \<Longrightarrow> at_end r = Some (length bs \<le> 8 \<and> (\<forall>b\<in>set bs. b))"
begin

lemma skip_skip_rep:
  "rep r bs \<Longrightarrow> d \<le> 8 \<Longrightarrow> e \<le> 8 \<Longrightarrow> rep (skip (skip r d) e) (drop (d + e) bs)"
  using skip_rep[OF skip_rep[of r bs d], of e] by (simp add: add.commute)

lemma peek_skip:
  "rep r bs \<Longrightarrow> d \<le> 8 \<Longrightarrow> unat (peek (skip r d)) = win 8 (\<lambda>i. pad bs (d + i))"
  using peek_rep[OF skip_rep[of r bs d]] by (simp add: pad_drop[abs_def])

lemma skip3_rep:
  "rep r bs \<Longrightarrow> d \<le> 8 \<Longrightarrow> rep (skip (skip (skip r 8) 8) d) (drop (16 + d) bs)"
  using skip_rep[OF skip_skip_rep[of r bs 8 8], of d] by (simp add: add.commute)

lemma skip4_rep:
  "rep r bs \<Longrightarrow> d \<le> 8 \<Longrightarrow> rep (skip (skip (skip (skip r 8) 8) 8) d) (drop (24 + d) bs)"
  using skip_rep[OF skip3_rep[of r bs 8], of d] by (simp add: add.commute)

lemma peek_octets:
  assumes "rep r bs"
  shows "unat (peek r) = win 8 (pad bs)"
    and "unat (peek (skip r 8)) = win 8 (\<lambda>i. pad bs (8 + i))"
    and "unat (peek (skip (skip r 8) 8)) = win 8 (\<lambda>i. pad bs (16 + i))"
    and "unat (peek (skip (skip (skip r 8) 8) 8)) = win 8 (\<lambda>i. pad bs (24 + i))"
proof -
  show "unat (peek r) = win 8 (pad bs)" by (rule peek_rep) fact
  show "unat (peek (skip r 8)) = win 8 (\<lambda>i. pad bs (8 + i))" using peek_skip[OF assms, of 8] by simp
  show "unat (peek (skip (skip r 8) 8)) = win 8 (\<lambda>i. pad bs (16 + i))"
    using peek_rep[OF skip_skip_rep[OF assms, of 8 8]] by (simp add: pad_drop[abs_def])
  show "unat (peek (skip (skip (skip r 8) 8) 8)) = win 8 (\<lambda>i. pad bs (24 + i))"
    using peek_rep[OF skip3_rep[OF assms, of 8]] by (simp add: pad_drop[abs_def])
qed

end

interpretation bits: bit_source bb_peek bb_next bb_eos bb_rep
  by unfold_locales (simp_all add: bb_peek_rep bb_next_rep bb_eos_rep)


section \<open>Every reachable reader\<close>

text \<open>
  The readers a client can reach: initialised on a buffer, then advanced by 0 to 8 bits at a
  time.  The number counts the bits discarded so far.
\<close>

inductive bb_reach :: "byte list \<Rightarrow> nat \<Rightarrow> bb_reader \<Rightarrow> bool" for buf :: "byte list" where
  bb_start: "bb_reach buf 0 (bb_reader_init buf)"
| bb_seek: "bb_reach buf n r \<Longrightarrow> d \<le> 8 \<Longrightarrow> bb_reach buf (n + d) (bb_next r d)"

lemma bb_reach_rep: "bb_reach buf n r \<Longrightarrow> bb_rep r (drop n (bytes_bits buf))"
proof (induction rule: bb_reach.induct)
  case bb_start
  show ?case by (simp add: bb_init_rep)
next
  case (bb_seek n r d)
  from bits.skip_rep[OF bb_seek.IH bb_seek.hyps(2)] show ?case by (simp add: add.commute)
qed

text \<open>However a reader was advanced, \<open>bb_peek\<close> shows the next eight bits of the
  buffer, ones behind its end, and \<open>bb_eos\<close> answers exactly whether at most eight bits are
  left and all are ones.\<close>

lemma bitbuf_refines_bits:
  assumes "bb_reach buf n r"
  shows "unat (bb_peek r) = win 8 (pad (drop n (bytes_bits buf)))
    \<and> bb_eos r = Some (8 * length buf \<le> n + 8 \<and> (\<forall>b\<in>set (drop n (bytes_bits buf)). b))"
  using bits.peek_rep[OF bb_reach_rep[OF assms]] bits.at_end_rep[OF bb_reach_rep[OF assms]]
  by auto

lemma bitbuf_refines_bits_witness:
  "unat (bb_peek (bb_next (bb_reader_init [0xa7, 0x0f]) 5)) = 0xe1"
proof -
  have "bb_reach [0xa7, 0x0f] (0 + 5) (bb_next (bb_reader_init [0xa7, 0x0f]) 5)"
    by (intro bb_reach.intros) simp
  from bitbuf_refines_bits[OF this] show ?thesis
    by (simp add: bits_of_def upt_rec pad_def eval_nat_numeral bit_numeral_rec)
qed

text \<open>In every reachable reader the end-of-string counter is -1 or between 0 and 8, so
  the branch of \<open>bb_eos\<close> for more than eight remaining bits is dead and its shift by a
  negative count (undefined behaviour) is never evaluated; the refill counter stays between
  1 and 8, so no shift of \<open>bb_load_next\<close> exceeds the operand.\<close>

lemma bitbuf_counters_in_range:
  assumes "bb_reach buf n r"
  shows "-1 \<le> eos_after_bits (bb r) \<and> eos_after_bits (bb r) \<le> 8
    \<and> 1 \<le> next_bits (bb r) \<and> next_bits (bb r) \<le> 8 \<and> bb_eos r \<noteq> None"
proof -
  have "bb_rep r (drop n (bytes_bits buf))" using assms by (rule bb_reach_rep)
  with bits.at_end_rep[OF this] show ?thesis by (auto simp: bb_rep_def split: if_splits)
qed

lemma bitbuf_counters_in_range_witness:
  "eos_after_bits (bb (bb_next (bb_reader_init [0xa7]) 8)) \<le> 8"
proof -
  have "bb_reach [0xa7] (0 + 8) (bb_next (bb_reader_init [0xa7]) 8)"
    by (intro bb_reach.intros) simp
  from bitbuf_counters_in_range[OF this] show ?thesis by simp
qed

end
