(* ===== verification/Huff_Decode.thy ===== *)
theory Huff_Decode
  imports Huff_Encode Bitbuf
begin

text \<open>
  The Huffman decoder and the HPACK string decoders of
  \<open>src/dependencies/hpack/huffy/decode.c\<close>.

  \<open>huff_symbol\<close> is the body of the loop of \<open>huffman_decode\<close>, from \<open>bb_peek\<close> to
  \<open>continue\<close> or \<open>return\<close>: the octet written and the reader behind its code, or \<open>None\<close> at
  the end-of-string symbol.  An outer \<open>None\<close> stands for undefined behaviour, that is a table
  index beyond the table or a shift by a negative count.  A destination is a byte list
  whose length is \<open>destlen\<close>; a null pointer is \<open>None\<close>.

  The reference is \<open>huff_text\<close>: the symbols that the code alone (\<open>first_symbol\<close>) reads
  from a bit string that continues with ones.  The lemmas show that the table lookups
  compute it, on every input and without undefined behaviour; that it inverts the encoder;
  and how long its result can get.
\<close>

unbundle bit_operations_syntax

section \<open>The code\<close>

definition lookup :: "fast_find_symbol list \<Rightarrow> nat \<Rightarrow> fast_find_symbol option" where
  "lookup t i = (if i < length t then Some (t ! i) else None)"

definition index23 :: "byte \<Rightarrow> byte \<Rightarrow> nat" where
  "index23 oct peek = unat (push_bit 4 oct OR drop_bit 4 peek)"

definition index3 :: "byte \<Rightarrow> byte \<Rightarrow> nat" where
  "index3 oct peek = unat ((push_bit 6 oct AND 64) OR drop_bit 2 peek)"

text \<open>The loop body behind the octets \<open>ff ff\<close>.\<close>

definition huff_symbol_ffff :: "bb_reader \<Rightarrow> (byte \<times> bb_reader) option option" where
  "huff_symbol_ffff reader =
     (let oct = bb_peek reader in
      case lookup shortbits2_ffff (unat oct) of None \<Rightarrow> None | Some entry \<Rightarrow>
      if sym_octet entry \<noteq> SENTINEL then Some (Some (sym_octet entry, bb_next reader (sym_bits entry - 16)))
      else
        let reader = bb_next reader 8 in
        if oct \<noteq> 0xfe \<and> oct \<noteq> 0xff then
          (case lookup shortbits23 (index23 oct (bb_peek reader)) of None \<Rightarrow> None | Some entry \<Rightarrow>
           Some (Some (sym_octet entry, bb_next reader (sym_bits entry mod 8))))
        else
          (case lookup shortbits3 (index3 oct (bb_peek reader)) of None \<Rightarrow> None | Some entry \<Rightarrow>
           if sym_octet entry \<noteq> SENTINEL
           then Some (Some (sym_octet entry, bb_next reader (sym_bits entry mod 8)))
           else Some None))"

definition huff_symbol :: "bb_reader \<Rightarrow> (byte \<times> bb_reader) option option" where
  "huff_symbol reader =
     (let oct = bb_peek reader in
      case lookup shortbits0 (unat oct) of None \<Rightarrow> None | Some entry \<Rightarrow>
      if sym_octet entry \<noteq> SENTINEL then Some (Some (sym_octet entry, bb_next reader (sym_bits entry)))
      else
        let reader = bb_next reader 8 in
        if oct = 0xfe then
          let oct = bb_peek reader;
              octets = [0x21, 0x22, 0x28, 0x29]
          in Some (Some (octets ! unat (drop_bit 6 oct), bb_next reader 2))
        else
          let oct = bb_peek reader in
          case lookup shortbits1_ff (unat oct) of None \<Rightarrow> None | Some entry \<Rightarrow>
          if sym_octet entry \<noteq> SENTINEL
          then Some (Some (sym_octet entry, bb_next reader (sym_bits entry mod 8)))
          else
            let reader = bb_next reader 8 in
            if oct = 0xfe then
              (case lookup shortbits2_fffe (unat (bb_peek reader)) of None \<Rightarrow> None | Some entry \<Rightarrow>
               Some (Some (sym_octet entry, bb_next reader (sym_bits entry mod 8))))
            else huff_symbol_ffff reader)"

function huff_loop :: "bb_reader \<Rightarrow> byte list \<Rightarrow> nat \<Rightarrow> (int \<times> byte list) option" where
  "huff_loop reader dest i =
     (if i < length dest then
        (case bb_eos reader of None \<Rightarrow> None | Some eos \<Rightarrow>
         if eos then Some (int i, dest)
         else (case huff_symbol reader of
                 None \<Rightarrow> None
               | Some None \<Rightarrow> Some (int i, dest)
               | Some (Some (oct, reader)) \<Rightarrow> huff_loop reader (dest[i := oct]) (i + 1)))
      else
        (case bb_eos reader of None \<Rightarrow> None | Some eos \<Rightarrow>
         Some (if eos then int i else -1, dest)))"
  by pat_completeness auto
termination
  by (relation "measure (\<lambda>(reader, dest, i). length dest - i)") auto

declare huff_loop.simps [simp del]

definition huffman_decode ::
  "byte list option \<Rightarrow> nat \<Rightarrow> byte list option \<Rightarrow> (int \<times> byte list option) option" where
  "huffman_decode buf first_octet_bits dest =
     (case (buf, dest) of
        (Some buf, Some d) \<Rightarrow>
          if first_octet_bits < 1 \<or> 8 < first_octet_bits then Some (-3, dest)
          else
            let reader = bb_reader_init buf;
                reader = (if first_octet_bits \<noteq> 8 then bb_next reader (8 - first_octet_bits) else reader)
            in map_option (\<lambda>(r, d). (r, Some d)) (huff_loop reader d 0)
      | _ \<Rightarrow> Some (-3, dest))"

text \<open>
  The string decoders.  \<open>malloc n\<close> is the allocated block of \<open>n\<close> octets (of any contents),
  or \<open>None\<close>; the results carry the final \<open>*destp\<close> and \<open>*destlenp\<close>.
\<close>

definition string_decode_into ::
  "bool \<Rightarrow> nat \<Rightarrow> nat \<Rightarrow> byte list \<Rightarrow> byte list \<Rightarrow> nat \<Rightarrow> (int \<times> byte list option \<times> nat) option" where
  "string_decode_into huff len number buf dest destlen =
     (if huff
      then map_option (\<lambda>(r, d). (r, d, destlen)) (huffman_decode (Some (drop len buf)) 8 (Some dest))
      else Some (int len + int number, Some (take number (drop len buf) @ drop number dest), destlen))"

definition string_decode_common ::
  "(nat \<Rightarrow> byte list option) \<Rightarrow> byte list \<Rightarrow> byte list option \<Rightarrow> nat
     \<Rightarrow> (int \<times> byte list option \<times> nat) option" where
  "string_decode_common malloc buf dest destlen =
     (if length buf < 1 then Some (-1, dest, destlen)
      else
        let huff = ((buf ! 0) AND 0x80 \<noteq> 0);
            (len, num) = decode_number (Some buf) (length buf) 7 (Some 0);
            number = the num
        in if len < 1 then Some (-1, dest, destlen)
           else if length buf - nat len < unat number then Some (-1, dest, destlen)
           else (case dest of
                   None \<Rightarrow>
                     let destlen = unat (if huff then number * 8 div 5 + 1 else number)
                     in (case malloc destlen of
                           None \<Rightarrow> Some (-1, None, 0)
                         | Some d \<Rightarrow> string_decode_into huff (nat len) (unat number) buf d destlen)
                 | Some d \<Rightarrow>
                     if destlen < unat number then Some (-1, dest, destlen)
                     else string_decode_into huff (nat len) (unat number) buf d destlen))"

definition string_decode ::
  "(nat \<Rightarrow> byte list option) \<Rightarrow> byte list \<Rightarrow> byte list option \<Rightarrow> nat \<Rightarrow> int option" where
  "string_decode malloc buf dest destlen = map_option fst (string_decode_common malloc buf dest destlen)"

definition string_decode_alloc ::
  "(nat \<Rightarrow> byte list option) \<Rightarrow> byte list \<Rightarrow> byte list option \<Rightarrow> nat
     \<Rightarrow> (int \<times> byte list option \<times> nat) option" where
  "string_decode_alloc malloc buf dest destlen = string_decode_common malloc buf None 0"


section \<open>Reference: the symbols a bit string spells\<close>

definition at_padding :: "bool list \<Rightarrow> bool" where
  "at_padding bs \<longleftrightarrow> length bs \<le> 8 \<and> (\<forall>b\<in>set bs. b)"

function huff_text :: "bool list \<Rightarrow> byte list \<times> bool list" where
  "huff_text bs =
     (if at_padding bs then ([], bs)
      else case first_symbol (pad bs) of
             None \<Rightarrow> ([], bs)
           | Some s \<Rightarrow> let (xs, rest) = huff_text (drop (code_bits s) bs) in (of_nat s # xs, rest))"
  by pat_completeness auto
termination
proof (relation "measure length", goal_cases)
  case (2 bs s)
  then have "bs \<noteq> []" "1 \<le> code_bits s"
    using first_symbol_Some[of "pad bs" s] code_bits_range[of s] by (auto simp: at_padding_def)
  then show ?case by (cases bs) auto
qed simp

declare huff_text.simps [simp del]


section \<open>The table lookups read the first symbol\<close>

lemma win_byte_bit: "unat (b :: byte) = win 8 f \<Longrightarrow> i < 8 \<Longrightarrow> bit b (7 - i) = f i"
proof -
  assume u: "unat b = win 8 f" and i: "i < 8"
  have "win 8 (\<lambda>i. bit b (7 - i)) = unat b" by (rule unat_byte_win[symmetric]) simp
  then have "\<forall>i<8. bit b (7 - i) = f i" using u by (intro win_inj) simp
  then show ?thesis using i by blast
qed

lemma win_byte_bit': "unat (b :: byte) = win 8 f \<Longrightarrow> i < 8 \<Longrightarrow> bit b i = f (7 - i)"
  using win_byte_bit[of b f "7 - i"] by simp

lemma index23_win:
  assumes "unat o2 = win 8 (\<lambda>i. f (16 + i))" "unat o3 = win 8 (\<lambda>i. f (24 + i))"
  shows "index23 o2 o3 = win 8 (\<lambda>i. f (20 + i))"
  unfolding index23_def
proof (rule unat_byte_win)
  fix i :: nat assume i: "i < 8"
  show "bit (push_bit 4 o2 OR drop_bit 4 o3) (7 - i) = f (20 + i)"
  proof (cases "i < 4")
    case True
    then have "bit o2 (3 - i) = f (20 + i)" using win_byte_bit'[OF assms(1), of "3 - i"] by simp
    then show ?thesis using True i by (auto simp: bit_or_iff bit_push_bit_iff bit_drop_bit_eq dest: bit_imp_le_length)
  next
    case False
    then have "bit o3 (11 - i) = f (20 + i)" using win_byte_bit'[OF assms(2), of "11 - i"] i by simp
    moreover have "4 + (7 - i) = 11 - i" using i by simp
    ultimately show ?thesis using False i by (auto simp: bit_or_iff bit_push_bit_iff bit_drop_bit_eq)
  qed
qed

lemma index3_win:
  assumes "unat o2 = win 8 (\<lambda>i. f (16 + i))" "unat o3 = win 8 (\<lambda>i. f (24 + i))"
  shows "index3 o2 o3 = win 7 (\<lambda>i. f (23 + i))"
proof -
  define c where "c = (64 :: byte)"
  have b: "bit c i \<longleftrightarrow> i = 6" for i
  proof -
    have "c = 2 ^ 6" by (simp add: c_def)
    then show ?thesis by (simp only: bit_exp_iff) auto
  qed
  have "index3 o2 o3 = win 8 (\<lambda>i. 0 < i \<and> f (22 + i))"
    unfolding index3_def c_def[symmetric]
  proof (rule unat_byte_win)
    fix i :: nat assume i: "i < 8"
    consider "i = 0" | "i = 1" | "2 \<le> i" by linarith
    then show "bit ((push_bit 6 o2 AND c) OR drop_bit 2 o3) (7 - i) = (0 < i \<and> f (22 + i))"
    proof cases
      case 2
      then show ?thesis using win_byte_bit'[OF assms(1), of 0]
        by (simp add: bit_or_iff bit_and_iff bit_push_bit_iff bit_drop_bit_eq b)
    next
      case 3
      then have "bit o3 (9 - i) = f (22 + i)" using win_byte_bit'[OF assms(2), of "9 - i"] i by simp
      moreover have "2 + (7 - i) = 9 - i" "7 - i \<noteq> 6" using 3 i by auto
      ultimately show ?thesis using 3 by (simp add: bit_or_iff bit_and_iff bit_drop_bit_eq b)
    qed (simp add: bit_or_iff bit_and_iff bit_drop_bit_eq b)
  qed
  also have "\<dots> = win 7 (\<lambda>i. f (23 + i))"
    using win_add[of 1 7 "\<lambda>i. 0 < i \<and> f (22 + i)"] by simp
  finally show ?thesis .
qed

text \<open>Where each table puts its symbols: no symbol it must tell from the sentinel is 255.\<close>

lemma table_rows:
  "(s, b) \<in> snd ` set shortbits0_rows \<Longrightarrow> b \<le> 8 \<Longrightarrow> s \<noteq> 255"
  "(s, b) \<in> snd ` set shortbits1_ff_rows \<Longrightarrow> b \<le> 16 \<Longrightarrow> b < 16 \<and> s \<noteq> 255"
  "(s, b) \<in> snd ` set shortbits2_fffe_rows \<Longrightarrow> b < 24"
  "(s, b) \<in> snd ` set shortbits2_ffff_rows \<Longrightarrow> b \<le> 24 \<Longrightarrow> s \<noteq> 255"
  "(s, b) \<in> snd ` set shortbits23_rows \<Longrightarrow> 20 \<le> b \<Longrightarrow> 24 \<le> b \<and> b < 32"
  "(s, b) \<in> snd ` set shortbits3_rows \<Longrightarrow> b \<le> 30 \<Longrightarrow> 24 \<le> b \<and> s \<noteq> 255"
  by (auto simp: rows_defs)

lemma octet_not_sentinel: "s < 256 \<Longrightarrow> s \<noteq> 255 \<Longrightarrow> (of_nat s :: byte) \<noteq> SENTINEL"
proof
  assume s: "s < 256" "s \<noteq> 255" "(of_nat s :: byte) = SENTINEL"
  have "unat (of_nat s :: byte) = s" using s(1) by (simp add: unat_of_nat)
  moreover have "unat (of_nat s :: byte) = 255" unfolding s(3) by (simp add: SENTINEL_def)
  ultimately show False using s(2) by simp
qed

text \<open>
  What it means that a step of the loop body, started where the reader stands before \<open>bs\<close>,
  is right.
\<close>

definition step_right :: "bool list \<Rightarrow> (byte \<times> bb_reader) option option \<Rightarrow> bool" where
  "step_right bs result \<longleftrightarrow>
     (case first_symbol (pad bs) of
        None \<Rightarrow> result = Some None
      | Some s \<Rightarrow> \<exists>r. result = Some (Some (of_nat s, r)) \<and> bb_rep r (drop (code_bits s) bs))"

lemma step_rightI:
  "s < 256 \<Longrightarrow> code_matches s (pad bs) \<Longrightarrow> bb_rep r (drop (code_bits s) bs)
    \<Longrightarrow> step_right bs (Some (Some (of_nat s, r)))"
  by (simp add: step_right_def first_symbol_eq)

lemma step0:
  assumes rep: "bb_rep r bs" and o: "unat (bb_peek r) < 254"
  shows "step_right bs (huff_symbol r)"
proof -
  have p: "unat (bb_peek r) = win 8 (pad bs)" by (rule bits.peek_rep) fact
  from entry_matches[OF rows0_ok, of "unat (bb_peek r)" "pad bs"] o p length_tables(1)
  obtain s b where e: "shortbits0 ! unat (bb_peek r) = \<lparr>sym_octet = of_nat s, sym_bits = b\<rparr>"
    and m: "(s, b) \<in> snd ` set shortbits0_rows" and s: "s < 256" "b \<le> 8" "b = code_bits s"
      "code_matches s (pad bs)"
    by (auto simp: shortbits0_def)
  have "(of_nat s :: byte) \<noteq> SENTINEL" using table_rows(1)[OF m] s by (intro octet_not_sentinel) auto
  then have "huff_symbol r = Some (Some (of_nat s, bb_next r b))"
    by (simp add: huff_symbol_def lookup_def e)
  then show ?thesis using step_rightI[OF s(1,4), of "bb_next r b"] bits.skip_rep[OF rep s(2)] s(3) by simp
qed

lemma sentinel0: "254 \<le> unat o0 \<Longrightarrow> sym_octet (shortbits0 ! unat o0) = SENTINEL" for o0 :: byte
  using rows_ok_sentinel[OF rows0_ok, of "unat o0"] length_tables(1) by (simp add: shortbits0_def)

lemma sentinel1: "254 \<le> unat o1 \<Longrightarrow> sym_octet (shortbits1_ff ! unat o1) = SENTINEL" for o1 :: byte
  using rows_ok_sentinel[OF rows1_ff_ok, of "unat o1"] length_tables(2) by (simp add: shortbits1_ff_def)

lemma sentinel2: "246 \<le> unat o2 \<Longrightarrow> sym_octet (shortbits2_ffff ! unat o2) = SENTINEL" for o2 :: byte
  using rows_ok_sentinel[OF rows2_ffff_ok, of "unat o2"] length_tables(4) by (simp add: shortbits2_ffff_def)

lemma sentinel3: "sym_octet (shortbits3 ! 127) = SENTINEL"
  using rows_ok_sentinel[OF rows3_ok, of 127] length_tables(6) by (simp add: shortbits3_def)

lemma index_in_table:
  "unat x < length (expand_rows shortbits0_rows)" "unat x < length (expand_rows shortbits1_ff_rows)"
  "unat x < length (expand_rows shortbits2_fffe_rows)" "unat x < length (expand_rows shortbits2_ffff_rows)"
  for x :: byte
  using length_tables unfolding shortbits0_def shortbits1_ff_def shortbits2_fffe_def shortbits2_ffff_def
  by simp_all

lemma unat_fe: "unat x = 254 \<longleftrightarrow> x = 0xfe" for x :: byte
  by (simp add: word_unat_eq_iff)

lemma drop6_div: "unat (drop_bit 6 x) = unat x div 64" for x :: byte
  by (simp add: drop_bit_eq_div unat_div)

lemma step_fe:
  assumes rep: "bb_rep r bs" and o: "unat (bb_peek r) = 254"
  shows "step_right bs (huff_symbol r)"
proof -
  define o1 where "o1 = bb_peek (bb_next r 8)"
  define q where "q = unat o1 div 64"
  note p = bits.peek_octets[OF rep]
  have "win 2 (\<lambda>i. pad bs (8 + i)) = q"
    using win_div[of 2 8 "\<lambda>i. pad bs (8 + i)"] p(2) by (simp add: q_def o1_def)
  then have w: "win 10 (pad bs) = 1016 + q"
    using win_add[of 8 2 "pad bs"] p(1) o by simp
  have "unat o1 < 256" by simp
  then have "q < 4" unfolding q_def by (intro less_mult_imp_div_less) linarith
  then consider "q = 0" | "q = 1" | "q = 2" | "q = 3" by linarith
  then have "code_matches (unat ([0x21, 0x22, 0x28, 0x29] ! q :: byte)) (pad bs)
      \<and> code_bits (unat ([0x21, 0x22, 0x28, 0x29] ! q :: byte)) = 10"
    by cases (simp_all add: code_matches_def code_of_eqs w)
  then have m: "code_matches (unat ([0x21, 0x22, 0x28, 0x29] ! q :: byte)) (pad bs)"
    and b: "code_bits (unat ([0x21, 0x22, 0x28, 0x29] ! q :: byte)) = 10" by auto
  have h: "huff_symbol r = Some (Some ([0x21, 0x22, 0x28, 0x29] ! q, bb_next (bb_next r 8) 2))"
    using sentinel0[of "bb_peek r"] o
    by (simp add: huff_symbol_def lookup_def drop6_div unat_fe flip: o1_def q_def)
  show ?thesis
    using step_rightI[OF _ m, of "bb_next (bb_next r 8) 2"] bits.skip_skip_rep[OF rep, of 8 2] b
    by (simp add: h)
qed

lemma huff_symbol_ff:
  assumes "unat (bb_peek r) = 255"
  shows "huff_symbol r =
     (let octet = bb_peek (bb_next r 8); entry = shortbits1_ff ! unat octet in
      if sym_octet entry \<noteq> SENTINEL
      then Some (Some (sym_octet entry, bb_next (bb_next r 8) (sym_bits entry mod 8)))
      else if octet = 0xfe then
        let entry = shortbits2_fffe ! unat (bb_peek (bb_next (bb_next r 8) 8))
        in Some (Some (sym_octet entry, bb_next (bb_next (bb_next r 8) 8) (sym_bits entry mod 8)))
      else huff_symbol_ffff (bb_next (bb_next r 8) 8))"
proof -
  have "bb_peek r \<noteq> 0xfe" using assms by auto
  then show ?thesis using sentinel0[of "bb_peek r"] assms
    by (simp add: huff_symbol_def lookup_def Let_def)
qed

lemma mod8_skip: "8 \<le> b \<Longrightarrow> b < 16 \<Longrightarrow> b mod 8 = b - 8" "16 \<le> b \<Longrightarrow> b < 24 \<Longrightarrow> b mod 8 = b - 16"
  "24 \<le> b \<Longrightarrow> b < 32 \<Longrightarrow> b mod 8 = b - 24" for b :: nat
  by presburger+

lemma step1:
  assumes rep: "bb_rep r bs" and o: "unat (bb_peek r) = 255" "unat (bb_peek (bb_next r 8)) < 254"
  shows "step_right bs (huff_symbol r)"
proof -
  let ?o1 = "bb_peek (bb_next r 8)"
  note p = bits.peek_octets[OF rep]
  have pre: "win 8 (pad bs) = 255" and idx: "win 8 (\<lambda>i. pad bs (8 + i)) = unat ?o1"
    using p(1,2) o(1) by simp_all
  from entry_matches[OF rows1_ff_ok index_in_table(2) _ o(2) pre idx]
  obtain s b where e: "shortbits1_ff ! unat ?o1 = \<lparr>sym_octet = of_nat s, sym_bits = b\<rparr>"
    and m: "(s, b) \<in> snd ` set shortbits1_ff_rows" and s: "s < 256" "8 \<le> b" "b \<le> 8 + 8" "b = code_bits s"
      "code_matches s (pad bs)"
    unfolding shortbits1_ff_def[symmetric] by auto
  have b: "b < 16" "s \<noteq> 255" using table_rows(2)[OF m] s(3) by auto
  have "huff_symbol r = Some (Some (of_nat s, bb_next (bb_next r 8) (b - 8)))"
    using o octet_not_sentinel[OF s(1) b(2)] b(1) s(2)
    by (simp add: huff_symbol_ff e mod8_skip)
  then show ?thesis
    using step_rightI[OF s(1,5), of "bb_next (bb_next r 8) (b - 8)"]
      bits.skip_skip_rep[OF rep, of 8 "b - 8"] s b by simp
qed

lemma step2_fe:
  assumes rep: "bb_rep r bs" and o: "unat (bb_peek r) = 255" "unat (bb_peek (bb_next r 8)) = 254"
  shows "step_right bs (huff_symbol r)"
proof -
  let ?o2 = "bb_peek (bb_next (bb_next r 8) 8)"
  note p = bits.peek_octets[OF rep]
  have pre: "win 16 (pad bs) = 0xfffe" and idx: "win 8 (\<lambda>i. pad bs (16 + i)) = unat ?o2"
    using win_add[of 8 8 "pad bs"] p(1,2,3) o by simp_all
  from entry_matches[OF rows2_fffe_ok index_in_table(3) _ unat_byte_less pre idx]
  obtain s b where e: "shortbits2_fffe ! unat ?o2 = \<lparr>sym_octet = of_nat s, sym_bits = b\<rparr>"
    and m: "(s, b) \<in> snd ` set shortbits2_fffe_rows" and s: "s < 256" "16 \<le> b" "b = code_bits s"
      "code_matches s (pad bs)"
    unfolding shortbits2_fffe_def[symmetric] by auto
  have b: "b < 24" using table_rows(3)[OF m] .
  have "huff_symbol r = Some (Some (of_nat s, bb_next (bb_next (bb_next r 8) 8) (b - 16)))"
    using o sentinel1[of "bb_peek (bb_next r 8)"] b s(2) unat_fe[of "bb_peek (bb_next r 8)"]
    by (simp add: huff_symbol_ff e mod8_skip)
  then show ?thesis
    using step_rightI[OF s(1,4), of "bb_next (bb_next (bb_next r 8) 8) (b - 16)"]
      bits.skip3_rep[OF rep, of "b - 16"] s b by simp
qed

lemma huff_symbol_ff_ff:
  assumes "unat (bb_peek r) = 255" "unat (bb_peek (bb_next r 8)) = 255"
  shows "huff_symbol r = huff_symbol_ffff (bb_next (bb_next r 8) 8)"
proof -
  have "bb_peek (bb_next r 8) \<noteq> 0xfe" using assms(2) by auto
  then show ?thesis using sentinel1[of "bb_peek (bb_next r 8)"] assms
    by (simp add: huff_symbol_ff Let_def)
qed

lemma step2_ff:
  assumes rep: "bb_rep r bs" and o: "unat (bb_peek r) = 255" "unat (bb_peek (bb_next r 8)) = 255"
    "unat (bb_peek (bb_next (bb_next r 8) 8)) < 246"
  shows "step_right bs (huff_symbol r)"
proof -
  let ?r = "bb_next (bb_next r 8) 8"
  note p = bits.peek_octets[OF rep]
  have pre: "win 16 (pad bs) = 0xffff" and idx: "win 8 (\<lambda>i. pad bs (16 + i)) = unat (bb_peek ?r)"
    using win_add[of 8 8 "pad bs"] p(1,2,3) o(1,2) by simp_all
  from entry_matches[OF rows2_ffff_ok index_in_table(4) _ o(3) pre idx]
  obtain s b where e: "shortbits2_ffff ! unat (bb_peek ?r) = \<lparr>sym_octet = of_nat s, sym_bits = b\<rparr>"
    and m: "(s, b) \<in> snd ` set shortbits2_ffff_rows" and s: "s < 256" "16 \<le> b" "b \<le> 16 + 8"
      "b = code_bits s" "code_matches s (pad bs)"
    unfolding shortbits2_ffff_def[symmetric] by auto
  have "s \<noteq> 255" using table_rows(4)[OF m] s(3) by simp
  then have "huff_symbol r = Some (Some (of_nat s, bb_next ?r (b - 16)))"
    using o octet_not_sentinel[OF s(1)]
    by (simp add: huff_symbol_ff_ff huff_symbol_ffff_def lookup_def e)
  then show ?thesis
    using step_rightI[OF s(1,5), of "bb_next ?r (b - 16)"] bits.skip3_rep[OF rep, of "b - 16"] s by simp
qed

lemma index_in_tables:
  "i < 224 \<Longrightarrow> i < length (expand_rows shortbits23_rows)"
  "i < 128 \<Longrightarrow> i < length (expand_rows shortbits3_rows)"
  using length_tables unfolding shortbits23_def shortbits3_def by simp_all

lemma step23:
  assumes rep: "bb_rep r bs" and o: "unat (bb_peek r) = 255" "unat (bb_peek (bb_next r 8)) = 255"
    "246 \<le> unat (bb_peek (bb_next (bb_next r 8) 8))" "unat (bb_peek (bb_next (bb_next r 8) 8)) < 254"
  shows "step_right bs (huff_symbol r)"
proof -
  let ?r = "bb_next (bb_next r 8) 8"
  let ?o2 = "bb_peek ?r" and ?o3 = "bb_peek (bb_next ?r 8)"
  note p = bits.peek_octets[OF rep]
  define h where "h = win 4 (\<lambda>i. pad bs (20 + i))"
  define l where "l = win 4 (\<lambda>i. pad bs (24 + i))"
  define t where "t = win 4 (\<lambda>i. pad bs (16 + i))"
  have hl: "h < 16" "l < 16" "t < 16"
    using win_less[of 4] unfolding h_def l_def t_def by simp_all
  have o2: "unat ?o2 = t * 16 + h"
    using win_add[of 4 4 "\<lambda>i. pad bs (16 + i)"] p(3) by (simp add: h_def t_def add.assoc)
  then have "t = 15" using o(3) hl by linarith
  then have t: "t = 15" "6 \<le> h" "h \<le> 13" using o2 o(3,4) by linarith+
  have pre: "win 20 (pad bs) = 0xfffff"
    using win_add[of 8 8 "pad bs"] win_add[of 16 4 "pad bs"] p(1,2) o(1,2) t(1) by (simp add: t_def)
  have i: "index23 ?o2 ?o3 = win 8 (\<lambda>i. pad bs (20 + i))" using p(3,4) by (rule index23_win)
  also have "\<dots> = h * 16 + l"
    using win_add[of 4 4 "\<lambda>i. pad bs (20 + i)"] by (simp add: h_def l_def add.assoc)
  finally have range: "96 \<le> index23 ?o2 ?o3" "index23 ?o2 ?o3 < 224" using t hl by linarith+
  from entry_matches[OF rows23_ok index_in_tables(1)[OF range(2)] range pre i[symmetric]]
  obtain s b where e: "shortbits23 ! index23 ?o2 ?o3 = \<lparr>sym_octet = of_nat s, sym_bits = b\<rparr>"
    and m: "(s, b) \<in> snd ` set shortbits23_rows" and s: "s < 256" "20 \<le> b" "b = code_bits s" "code_matches s (pad bs)"
    unfolding shortbits23_def[symmetric] by auto
  have b: "24 \<le> b" "b < 32" using table_rows(5)[OF m s(2)] by auto
  have "?o2 \<noteq> 0xfe" "?o2 \<noteq> 0xff" using o(4) by auto
  then have "huff_symbol r = Some (Some (of_nat s, bb_next (bb_next ?r 8) (b - 24)))"
    using o sentinel2[of ?o2] range(2) b
    by (simp add: huff_symbol_ff_ff huff_symbol_ffff_def lookup_def e mod8_skip)
  then show ?thesis
    using step_rightI[OF s(1,4), of "bb_next (bb_next ?r 8) (b - 24)"] bits.skip4_rep[OF rep, of "b - 24"] s b
    by simp
qed

lemma step3:
  assumes rep: "bb_rep r bs" and o: "unat (bb_peek r) = 255" "unat (bb_peek (bb_next r 8)) = 255"
    "254 \<le> unat (bb_peek (bb_next (bb_next r 8) 8))"
  shows "step_right bs (huff_symbol r)"
proof -
  let ?r = "bb_next (bb_next r 8) 8"
  let ?o2 = "bb_peek ?r" and ?o3 = "bb_peek (bb_next ?r 8)"
  note p = bits.peek_octets[OF rep]
  have "win 7 (\<lambda>i. pad bs (16 + i)) = unat ?o2 div 2"
    using win_div[of 7 8 "\<lambda>i. pad bs (16 + i)"] p(3) by simp
  moreover have "unat ?o2 < 256" by simp
  ultimately have "win 7 (\<lambda>i. pad bs (16 + i)) = 127" using o(3) by linarith
  then have pre: "win 23 (pad bs) = 0x7fffff"
    using win_add[of 8 8 "pad bs"] win_add[of 16 7 "pad bs"] p(1,2) o(1,2) by simp
  have i: "index3 ?o2 ?o3 = win 7 (\<lambda>i. pad bs (23 + i))" using p(3,4) by (rule index3_win)
  have range: "index3 ?o2 ?o3 < 128" using win_less[of 7 "\<lambda>i. pad bs (23 + i)"] i by simp
  have fe: "?o2 = 0xfe \<or> ?o2 = 0xff"
  proof -
    have "unat ?o2 < 256" by simp
    then have "unat ?o2 = 254 \<or> unat ?o2 = 255" using o(3) by linarith
    then show ?thesis by (simp add: word_unat_eq_iff)
  qed
  have step: "huff_symbol r =
      (let entry = shortbits3 ! index3 ?o2 ?o3 in
       if sym_octet entry \<noteq> SENTINEL then Some (Some (sym_octet entry, bb_next (bb_next ?r 8) (sym_bits entry mod 8)))
       else Some None)"
    using o sentinel2[of ?o2] range fe
    by (auto simp: huff_symbol_ff_ff huff_symbol_ffff_def lookup_def Let_def)
  show ?thesis
  proof (cases "index3 ?o2 ?o3 = 127")
    case True
    then have "win 30 (pad bs) = 2 ^ 30 - 1" using win_add[of 23 7 "pad bs"] pre i by simp
    then have "first_symbol (pad bs) = None" by (simp only: win_ones first_symbol_None)
    then show ?thesis using step sentinel3 True by (simp add: step_right_def)
  next
    case False
    then have "index3 ?o2 ?o3 < 127" using range by linarith
    from entry_matches[OF rows3_ok index_in_tables(2)[OF range] _ this pre i[symmetric]]
    obtain s b where e: "shortbits3 ! index3 ?o2 ?o3 = \<lparr>sym_octet = of_nat s, sym_bits = b\<rparr>"
      and m: "(s, b) \<in> snd ` set shortbits3_rows" and s: "s < 256" "b \<le> 23 + 7" "b = code_bits s" "code_matches s (pad bs)"
      unfolding shortbits3_def[symmetric] by auto
    have b: "24 \<le> b" "b < 32" "s \<noteq> 255" using table_rows(6)[OF m] s(2) by auto
    have "huff_symbol r = Some (Some (of_nat s, bb_next (bb_next ?r 8) (b - 24)))"
      using step octet_not_sentinel[OF s(1) b(3)] b by (simp add: e mod8_skip)
    then show ?thesis
      using step_rightI[OF s(1,4), of "bb_next (bb_next ?r 8) (b - 24)"] bits.skip4_rep[OF rep, of "b - 24"] s b
      by simp
  qed
qed

lemma huff_symbol_right:
  assumes rep: "bb_rep r bs"
  shows "step_right bs (huff_symbol r)"
proof -
  let ?o0 = "bb_peek r" and ?o1 = "bb_peek (bb_next r 8)" and ?o2 = "bb_peek (bb_next (bb_next r 8) 8)"
  have "unat ?o0 < 256" "unat ?o1 < 256" "unat ?o2 < 256" by simp_all
  then consider "unat ?o0 < 254" | "unat ?o0 = 254" | "unat ?o0 = 255" "unat ?o1 < 254"
    | "unat ?o0 = 255" "unat ?o1 = 254" | "unat ?o0 = 255" "unat ?o1 = 255" "unat ?o2 < 246"
    | "unat ?o0 = 255" "unat ?o1 = 255" "246 \<le> unat ?o2" "unat ?o2 < 254"
    | "unat ?o0 = 255" "unat ?o1 = 255" "254 \<le> unat ?o2"
    by linarith
  then show ?thesis
    by cases (use rep step0 step_fe step1 step2_fe step2_ff step23 step3 in blast)+
qed


section \<open>The decoder computes the reference\<close>

lemma huff_text_stop: "at_padding bs \<Longrightarrow> huff_text bs = ([], bs)"
  by (simp add: huff_text.simps)

lemma huff_text_end: "\<not> at_padding bs \<Longrightarrow> first_symbol (pad bs) = None \<Longrightarrow> huff_text bs = ([], bs)"
  by (simp add: huff_text.simps[of bs])

lemma huff_text_symbol:
  "\<not> at_padding bs \<Longrightarrow> first_symbol (pad bs) = Some s \<Longrightarrow>
     huff_text bs = (of_nat s # fst (huff_text (drop (code_bits s) bs)), snd (huff_text (drop (code_bits s) bs)))"
  by (simp add: huff_text.simps[of bs] split_beta)

text \<open>The outcome of the loop that has written \<open>i\<close> octets of \<open>dest\<close> and stands before \<open>bs\<close>.\<close>

definition huff_outcome :: "bool list \<Rightarrow> byte list \<Rightarrow> nat \<Rightarrow> int \<times> byte list" where
  "huff_outcome bs dest i =
     (let (xs, rest) = huff_text bs;
          room = length dest - i;
          dest' = take i dest @ take room xs @ drop (i + length xs) dest
      in if length xs < room \<or> length xs = room \<and> at_padding rest
         then (int (i + length xs), dest') else (-1, dest'))"

lemma huff_loop_outcome:
  assumes "bb_rep r bs" "i \<le> length dest"
  shows "huff_loop r dest i = Some (huff_outcome bs dest i)"
  using assms
proof (induction r dest i arbitrary: bs rule: huff_loop.induct)
  case (1 r dest i)
  have eos: "bb_eos r = Some (at_padding bs)"
    unfolding at_padding_def by (rule bits.at_end_rep) fact
  show ?case
  proof (cases "i < length dest")
    case False
    then have i: "i = length dest" using "1.prems"(2) by simp
    show ?thesis
    proof (cases "at_padding bs")
      case True
      then show ?thesis using eos i
        by (simp add: huff_loop.simps[of r dest] huff_outcome_def huff_text_stop)
    next
      case no: False
      then have "\<not> (fst (huff_text bs) = [] \<and> at_padding (snd (huff_text bs)))"
        by (cases "first_symbol (pad bs)") (simp_all add: huff_text_end huff_text_symbol)
      then show ?thesis using eos i no
        by (simp add: huff_loop.simps[of r dest] huff_outcome_def split_beta)
    qed
  next
    case room: True
    show ?thesis
    proof (cases "at_padding bs")
      case True
      then show ?thesis using eos room
        by (simp add: huff_loop.simps[of r dest i] huff_outcome_def huff_text_stop)
    next
      case no: False
      note right = huff_symbol_right[OF "1.prems"(1), unfolded step_right_def]
      show ?thesis
      proof (cases "first_symbol (pad bs)")
        case None
        then show ?thesis using eos room no right
          by (simp add: huff_loop.simps[of r dest i] huff_outcome_def huff_text_end)
      next
        case (Some s)
        with right obtain r' where r': "huff_symbol r = Some (Some (of_nat s, r'))"
          "bb_rep r' (drop (code_bits s) bs)" by auto
        have IH: "huff_loop r' (dest[i := of_nat s]) (i + 1)
            = Some (huff_outcome (drop (code_bits s) bs) (dest[i := of_nat s]) (i + 1))"
          by (rule "1.IH"[OF room _ _ r'(1) refl refl r'(2)]) (use eos no room in auto)
        have "take (Suc i) (dest[i := of_nat s]) = take i dest @ [of_nat s]"
          using room by (simp add: take_Suc_conv_app_nth)
        moreover have "take (length dest - i) (of_nat s # xs) = of_nat s # take (length dest - Suc i) xs" for xs
          using room by (metis Suc_diff_Suc take_Suc_Cons)
        ultimately have "huff_outcome bs dest i
            = huff_outcome (drop (code_bits s) bs) (dest[i := of_nat s]) (i + 1)"
          using room by (auto simp: huff_outcome_def huff_text_symbol[OF no Some] split_beta Let_def)
        then show ?thesis using IH eos room no r' by (simp add: huff_loop.simps[of r dest i])
      qed
    qed
  qed
qed

lemma huffman_decode_outcome:
  assumes "1 \<le> k" "k \<le> 8"
  shows "huffman_decode (Some buf) k (Some dest)
    = Some (map_prod id Some (huff_outcome (drop (8 - k) (bytes_bits buf)) dest 0))"
proof -
  have rep: "bb_rep (if k \<noteq> 8 then bb_next (bb_reader_init buf) (8 - k) else bb_reader_init buf)
      (drop (8 - k) (bytes_bits buf))"
    using bits.skip_rep[OF bb_init_rep, of "8 - k" buf] bb_init_rep[of buf] assms by (cases "k = 8") simp_all
  show ?thesis using huff_loop_outcome[OF rep, of 0 dest] assms
    by (simp add: huffman_decode_def Let_def map_prod_def id_def split_beta)
qed


section \<open>The decoder inverts the encoder\<close>

lemma at_padding_pad: "at_padding bs \<Longrightarrow> pad bs i"
  using nth_mem[of i bs] unfolding at_padding_def pad_def by (cases "i < length bs") (simp_all only: if_True if_False, blast)

lemma text_not_padding: "\<not> at_padding (symbol_bits x @ bs)"
proof
  assume a: "at_padding (symbol_bits x @ bs)"
  then have "\<forall>i<30. pad (symbol_bits x @ bs) i" by (blast intro: at_padding_pad)
  then have "first_symbol (pad (symbol_bits x @ bs)) = None" by (simp add: first_symbol_None)
  then show False by (simp add: first_symbol_text)
qed

lemma huff_text_text: "k \<le> 8 \<Longrightarrow> huff_text (text_bits xs @ replicate k True) = (xs, replicate k True)"
proof (induction xs)
  case Nil
  then show ?case by (simp add: huff_text_stop at_padding_def)
next
  case (Cons x xs)
  let ?bs = "text_bits xs @ replicate k True"
  have "huff_text (symbol_bits x @ ?bs) = (of_nat (unat x) # fst (huff_text ?bs), snd (huff_text ?bs))"
    using huff_text_symbol[OF text_not_padding first_symbol_text, of x ?bs]
    by (simp add: length_symbol_bits)
  with Cons show ?case by simp
qed


section \<open>How long a decoded text can get\<close>

lemma code_bits_ge_5: "s < 256 \<Longrightarrow> 5 \<le> code_bits s"
proof -
  assume s: "s < 256"
  have "\<forall>c\<in>set huffcodes. 5 \<le> snd c" by (simp add: huffcodes_def)
  moreover have "code_of s \<in> set huffcodes" using s by (simp add: code_of_def length_huffcodes)
  ultimately show ?thesis by blast
qed

lemma huff_text_length:
  "5 * length (fst (huff_text bs)) + length (snd (huff_text bs)) \<le> length bs + 4"
proof (induction bs rule: huff_text.induct)
  case (1 bs)
  show ?case
  proof (cases "at_padding bs")
    case False
    show ?thesis
    proof (cases "first_symbol (pad bs)")
      case (Some s)
      have s: "5 \<le> code_bits s" using first_symbol_Some[OF Some] by (intro code_bits_ge_5) simp
      show ?thesis
      proof (cases "length bs \<le> code_bits s")
        case True
        then have "huff_text (drop (code_bits s) bs) = ([], [])" by (simp add: huff_text_stop at_padding_def)
        moreover have "bs \<noteq> []" using False by (auto simp: at_padding_def)
        then have "1 \<le> length bs" by (cases bs) auto
        ultimately show ?thesis using False Some by (simp add: huff_text_symbol)
      next
        case long: False
        then show ?thesis using "1.IH"[OF False Some] s False Some by (simp add: huff_text_symbol)
      qed
    qed (simp add: False huff_text_end)
  qed (simp add: huff_text_stop)
qed

lemma huff_text_rest: "\<not> at_padding (snd (huff_text bs)) \<Longrightarrow> 9 \<le> length (snd (huff_text bs))"
proof (induction bs rule: huff_text.induct)
  case (1 bs)
  show ?case
  proof (cases "at_padding bs")
    case False
    show ?thesis
    proof (cases "first_symbol (pad bs)")
      case None
      have "9 \<le> length bs"
      proof (rule ccontr)
        assume "\<not> 9 \<le> length bs"
        moreover have "\<forall>i<30. pad bs i" using None by (simp add: first_symbol_None)
        ultimately have "at_padding bs" by (fastforce simp: at_padding_def pad_def in_set_conv_nth)
        with False show False by blast
      qed
      then show ?thesis using None False by (simp add: huff_text_end)
    next
      case (Some s)
      then show ?thesis using 1 False by (simp add: huff_text_symbol)
    qed
  qed (use 1 in \<open>simp add: huff_text_stop\<close>)
qed


section \<open>Correctness of the decoders\<close>

text \<open>C7: On every input \<open>huffman_decode\<close> computes the symbols that the code of RFC 7541
  reads from the bits of the buffer, continued with ones: the first octets of the destination
  are these symbols and the rest of it is untouched, the result is their number, or -1 when
  the destination is too small.  It never indexes beyond a table and never shifts by a
  negative count.\<close>

theorem huffman_decode_correct:
  assumes "1 \<le> k" "k \<le> 8"
  shows "huffman_decode (Some buf) k (Some dest) =
    (let (xs, rest) = huff_text (drop (8 - k) (bytes_bits buf));
         n = length dest
     in if length xs < n \<or> length xs = n \<and> at_padding rest
        then Some (int (length xs), Some (xs @ drop (length xs) dest))
        else Some (-1, Some (take n xs @ drop (length xs) dest)))"
  using huffman_decode_outcome[OF assms, of buf dest]
  by (auto simp: huff_outcome_def split_beta Let_def)

theorem huffman_decode_correct_witness:
  "huffman_decode (Some [0x1c, 0x7f]) 8 (Some [0, 0, 0]) = Some (2, Some [0x61, 0x62, 0])"
proof -
  have "bytes_bits [0x1c, 0x7f] = text_bits [0x61, 0x62] @ replicate 5 True"
    by (simp add: symbol_bits_def code_of_eqs bits_simps bit_0)
  then have "huff_text (bytes_bits [0x1c, 0x7f]) = ([0x61, 0x62], replicate 5 True)"
    using huff_text_text[of 5 "[0x61, 0x62]"] by simp
  then show ?thesis
    using huffman_decode_correct[of 8 "[0x1c, 0x7f]" "[0, 0, 0]"] by simp
qed

text \<open>The destination size that \<open>string_decode_common\<close> allocates for \<open>n\<close> octets,
  eight fifths and one more, is always enough: no input of \<open>n\<close> octets makes
  \<open>huffman_decode\<close> report a destination that is too small.\<close>

lemma huffman_decode_room:
  assumes "8 * length buf div 5 + 1 \<le> length dest"
  shows "\<exists>n d. huffman_decode (Some buf) 8 (Some dest) = Some (int n, Some d)
    \<and> n \<le> 8 * length buf div 5 + 1"
proof -
  obtain xs rest where t: "huff_text (bytes_bits buf) = (xs, rest)" by fastforce
  have "5 * length xs + length rest \<le> 8 * length buf + 4"
    using huff_text_length[of "bytes_bits buf"] t by simp
  moreover from this have n: "length xs \<le> 8 * length buf div 5 + 1" by linarith
  moreover have "at_padding rest \<or> 9 \<le> length rest"
    using huff_text_rest[of "bytes_bits buf"] t by auto
  ultimately have "length xs < length dest \<or> length xs = length dest \<and> at_padding rest"
    using assms by linarith
  then show ?thesis using huffman_decode_outcome[of 8 buf dest] t n
    by (auto simp: huff_outcome_def split_beta)
qed

lemma huffman_decode_room_witness:
  "\<exists>n d. huffman_decode (Some [0x12, 0x34, 0x56, 0x78, 0x9a]) 8 (Some (replicate 9 0)) = Some (int n, Some d)
    \<and> n \<le> 9"
  using huffman_decode_room[of "[0x12, 0x34, 0x56, 0x78, 0x9a]" "replicate 9 0"] by simp

lemma text_bits_pack: "\<exists>k\<le>8. bytes_bits (pack (text_bits xs)) = text_bits xs @ replicate k True"
  using bytes_bits_pack[of "text_bits xs"] less_imp_le by blast

lemma hpack_string_first: "hpack_int 7 0x80 n ! 0 AND 0x80 \<noteq> 0" for n
proof -
  have s: "0x80 AND NOT (mask 7) = (0x80 :: byte)" by (simp add: mask_eq_exp_minus_1)
  have b: "bit (0x80 :: byte) 7" by simp
  have "bit (hpack_int 7 0x80 n ! 0) 7"
    unfolding hpack_int_def s by (simp add: bit_or_iff b)
  then show ?thesis using and_exp_eq_0_iff_not_bit[of "hpack_int 7 0x80 n ! 0" 7] by simp
qed

lemma decode_literal_length:
  assumes "n < 2 ^ 64"
  shows "decode_number (Some (hpack_int 7 b n @ xs)) (length (hpack_int 7 b n @ xs)) 7 (Some v)
    = (int (length (hpack_int 7 b n)), Some (of_nat n))"
  using assms by (intro decode_hpack_int) auto

text \<open>
  What the decoder makes of a literal with octets behind it: it decodes them too, because it
  is handed the rest of the buffer and not the length it has read.
\<close>

lemma string_decode_huff:
  assumes n: "length s < 2 ^ 60" and malloc: "malloc (length s * 8 div 5 + 1) = Some d"
  shows "string_decode_alloc malloc (hpack_int 7 0x80 (length s) @ s @ ys) dest destlen
    = (let (r, d') = huff_outcome (bytes_bits (s @ ys)) d 0 in Some (r, Some d', length s * 8 div 5 + 1))"
proof -
  let ?h = "hpack_int 7 0x80 (length s)"
  define buf where "buf = ?h @ s @ ys"
  have dec: "decode_number (Some buf) (length buf) 7 (Some 0) = (int (length ?h), Some (of_nat (length s)))"
    unfolding buf_def using n by (intro decode_literal_length) simp
  have u: "unat (of_nat (length s) :: u64) = length s" using n by (simp add: unat_of_nat)
  have u8: "unat (of_nat (length s) * 8 :: u64) = length s * 8"
    using n by (simp add: unat_word_ariths u)
  have size: "unat (of_nat (length s) * 8 div 5 + 1 :: u64) = length s * 8 div 5 + 1"
    using n by (simp add: unat_word_ariths(1) unat_div u8)
  have first: "buf ! 0 AND 0x80 \<noteq> 0"
    using hpack_string_first[of "length s"] by (simp add: buf_def nth_append)
  have rest: "drop (length ?h) buf = s @ ys" by (simp add: buf_def)
  have pos: "0 < length ?h" by (rule length_hpack_int_pos)
  then have room: "\<not> length buf < 1" "\<not> length buf - length ?h < length s" "\<not> int (length ?h) < 1"
    unfolding buf_def length_append by linarith+
  have "string_decode_common malloc buf None 0
      = string_decode_into True (length ?h) (length s) buf d (length s * 8 div 5 + 1)"
    by (simp only: string_decode_common_def room if_False dec Let_def prod.case option.sel nat_int u
        first size malloc option.case not_False_eq_True if_True simp_thms)
  then show ?thesis
    by (simp add: string_decode_alloc_def string_decode_into_def rest huffman_decode_outcome
        split_beta flip: buf_def)
qed

text \<open>C14: Round trip through the octets of a message: the octets that \<open>huffman_encode\<close>
  wrote, handed to \<open>string_decode_alloc\<close> as they are, decode to the text.\<close>

theorem huffman_string_roundtrip:
  assumes enc: "generated_etable et" "length num = 10" "length buf + 10 \<le> SSIZE_MAX"
      "huffman_encode et num xs buf = Some (r, out)" "0 < r"
    and small: "length buf < 2 ^ 60" and malloc: "\<And>n. \<exists>d. malloc n = Some d \<and> length d = n"
  shows "\<exists>d n. string_decode_alloc malloc (take (nat r) out) dest destlen = Some (int (length xs), Some d, n)
    \<and> take (length xs) d = xs"
proof -
  let ?s = "pack (text_bits xs)"
  have fits: "length (hpack_huff_string xs) \<le> length buf"
  proof (rule ccontr)
    assume "\<not> length (hpack_huff_string xs) \<le> length buf"
    then show False
      using huffman_encode_cases(2,3)[OF enc(1,2,3), of xs] enc(4,5)
      by (cases "length ?s < length buf") auto
  qed
  then have out: "take (nat r) out = hpack_int 7 0x80 (length ?s) @ ?s"
    using huffman_encode_cases(1)[OF enc(1,2,3)] enc(4) by (auto simp: hpack_huff_string_def Let_def)
  have len: "length ?s < 2 ^ 60" using fits small by (simp add: hpack_huff_string_def Let_def)
  obtain d where d: "malloc (length ?s * 8 div 5 + 1) = Some d" "length d = length ?s * 8 div 5 + 1"
    using malloc by blast
  obtain k where k: "k \<le> 8" "bytes_bits ?s = text_bits xs @ replicate k True"
    using text_bits_pack by blast
  have t: "huff_text (bytes_bits ?s) = (xs, replicate k True)" using k by (simp add: huff_text_text)
  have "5 * length xs \<le> length (text_bits xs)"
    by (induction xs) (use code_bits_ge_5 in \<open>auto simp: length_symbol_bits intro: add_mono\<close>)
  then have "length xs < length d" using d(2) by (simp add: length_pack)
  then have "huff_outcome (bytes_bits ?s) d 0 = (int (length xs), xs @ drop (length xs) d)"
    by (simp add: huff_outcome_def t)
  then show ?thesis using string_decode_huff[of ?s malloc d "[]", OF len d(1)] by (simp add: out)
qed

theorem huffman_string_roundtrip_witness:
  "\<exists>d n. string_decode_alloc (\<lambda>n. Some (replicate n 7)) [0x82, 0x1c, 0x7f] None 0 = Some (2, Some d, n)
    \<and> take 2 d = [0x61, 0x62]"
proof -
  have "pack (text_bits [0x61, 0x62]) = [0x1c, 0x7f]"
    by (rule pack_eqI[of _ _ 5]) (simp_all add: symbol_bits_def code_of_eqs bits_simps bit_0)
  then have l: "hpack_huff_string [0x61, 0x62] = [0x82, 0x1c, 0x7f]"
    by (simp add: hpack_huff_string_def hpack_int_def mask_eq_exp_minus_1)
  then have "huffman_encode huff_etable (replicate 10 7) [0x61, 0x62] [1, 2, 3, 4, 5]
     = Some (3, [0x82, 0x1c, 0x7f, 4, 5])"
    using huffman_encode_cases(1)[of huff_etable "replicate 10 7" "[1, 2, 3, 4, 5]" "[0x61, 0x62]"]
    by (simp add: generated_etable_eq SSIZE_MAX_def)
  from huffman_string_roundtrip[OF _ _ _ this, of "\<lambda>n. Some (replicate n 7)" None 0]
  show ?thesis by (simp add: generated_etable_eq SSIZE_MAX_def flip: numeral_2_eq_2)
qed

text \<open>A Huffman-coded string literal is decoded together with whatever follows it in the
  buffer: the octets behind the literal are decoded as if they were part of it, because
  \<open>string_decode_common\<close> passes on the length of the rest of the buffer and not the length
  it has read.\<close>

lemma string_decode_reads_on:
  assumes "length s < 2 ^ 60" "malloc (length s * 8 div 5 + 1) = Some d"
  shows "string_decode_alloc malloc (hpack_int 7 0x80 (length s) @ s @ ys) dest destlen
    = (let (xs, rest) = huff_text (bytes_bits (s @ ys)); n = length d
       in if length xs < n \<or> length xs = n \<and> at_padding rest
          then Some (int (length xs), Some (xs @ drop (length xs) d), length s * 8 div 5 + 1)
          else Some (-1, Some (take n xs @ drop (length xs) d), length s * 8 div 5 + 1))"
  unfolding string_decode_huff[of s malloc d ys, OF assms]
  by (simp add: huff_outcome_def split_beta Let_def)

lemma huff_text_code:
  "\<not> at_padding bs \<Longrightarrow> s < 256 \<Longrightarrow> code_matches s (pad bs) \<Longrightarrow>
     huff_text bs = (of_nat s # fst (huff_text (drop (code_bits s) bs)), snd (huff_text (drop (code_bits s) bs)))"
  by (rule huff_text_symbol) (simp_all add: first_symbol_eq)

lemma string_decode_reads_on_witness:
  "string_decode_alloc (\<lambda>n. Some (replicate n 0)) [0x81, 0x1f, 0x00] None 0 = Some (-1, Some [0x61, 0x55], 2)"
proof -
  have bits: "bytes_bits [0x1f, 0x00] = [False, False, False, True, True, True, True, True,
      False, False, False, False, False, False, False, False]"
    by (simp add: bits_simps bit_0)
  have "huff_text [False, False, False, False] = ([0x31], [])"
    using huff_text_code[of "[False, False, False, False]" "0x31"]
    by (simp add: at_padding_def huff_text_stop code_matches_def code_of_eqs bits_simps pad_def)
  then have "huff_text [True, True, True, False, False, False, False, False, False, False, False]
      = ([0x55, 0x31], [])"
    using huff_text_code[of "[True, True, True, False, False, False, False, False, False, False, False]" "0x55"]
    by (simp add: at_padding_def code_matches_def code_of_eqs bits_simps pad_def)
  then have "huff_text (bytes_bits [0x1f, 0x00]) = ([0x61, 0x55, 0x31], [])"
    using huff_text_code[of "bytes_bits [0x1f, 0x00]" "0x61"] unfolding bits
    by (simp add: at_padding_def code_matches_def code_of_eqs bits_simps pad_def)
  then show ?thesis
    using string_decode_reads_on[of "[0x1f]" "\<lambda>n. Some (replicate n 0)" "replicate 2 0" "[0x00]"]
    by (simp add: hpack_int_def mask_eq_exp_minus_1 flip: numeral_2_eq_2)
qed

lemma hpack_raw_first: "n < 2 ^ 64 \<Longrightarrow> hpack_int 7 0 n ! 0 AND 0x80 = 0"
proof -
  have "\<not> bit (hpack_int 7 0 n ! 0) 7"
  proof (cases "n < 127")
    case True
    then have "unat (of_nat n :: byte) < 2 ^ 7" by (simp add: unat_of_nat)
    then have "\<not> bit (unat (of_nat n :: byte)) 7" by (simp add: bit_iff_odd)
    then show ?thesis using True by (simp add: hpack_int_def bit_unsigned_iff)
  qed (simp add: hpack_int_def bit_mask_iff)
  then show ?thesis using and_exp_eq_0_iff_not_bit[of "hpack_int 7 0 n ! 0" 7] by simp
qed

text \<open>A raw string literal is copied out as it is, whatever follows it, and the result is
  the number of octets it takes in the buffer.\<close>

lemma string_decode_raw:
  assumes n: "length xs < 2 ^ 60" and malloc: "malloc (length xs) = Some d" "length d = length xs"
  shows "string_decode_alloc malloc (hpack_int 7 0 (length xs) @ xs @ ys) dest destlen
    = Some (int (length (hpack_int 7 0 (length xs)) + length xs), Some xs, length xs)"
proof -
  let ?h = "hpack_int 7 0 (length xs)"
  define buf where "buf = ?h @ xs @ ys"
  have dec: "decode_number (Some buf) (length buf) 7 (Some 0) = (int (length ?h), Some (of_nat (length xs)))"
    unfolding buf_def using n by (intro decode_literal_length) simp
  have u: "unat (of_nat (length xs) :: u64) = length xs" using n by (simp add: unat_of_nat)
  have first: "buf ! 0 AND 0x80 = 0"
    using hpack_raw_first[of "length xs"] n by (simp add: buf_def nth_append)
  have rest: "drop (length ?h) buf = xs @ ys" by (simp add: buf_def)
  have pos: "0 < length ?h" by (rule length_hpack_int_pos)
  then have room: "\<not> length buf < 1" "\<not> length buf - length ?h < length xs" "\<not> int (length ?h) < 1"
    unfolding buf_def length_append by linarith+
  have "string_decode_common malloc buf None 0
      = string_decode_into False (length ?h) (length xs) buf d (length xs)"
    by (simp only: string_decode_common_def room if_False dec Let_def prod.case option.sel nat_int u
        first malloc option.case simp_thms)
  then show ?thesis using malloc
    by (simp add: string_decode_alloc_def string_decode_into_def rest flip: buf_def)
qed

lemma string_decode_raw_witness:
  "string_decode_alloc (\<lambda>n. Some (replicate n 0)) [0x02, 0x61, 0x62, 0xff] None 0 = Some (3, Some [0x61, 0x62], 2)"
  using string_decode_raw[of "[0x61, 0x62]" "\<lambda>n. Some (replicate n 0)" "replicate 2 0" "[0xff]"]
  by (simp add: hpack_int_def flip: numeral_2_eq_2)

lemma vdec_prefix: "k < length (venc n) \<Longrightarrow> vdec (take k (venc n)) = None"
proof (induction n arbitrary: k rule: venc.induct)
  case (1 n)
  show ?case
  proof (cases k)
    case (Suc j)
    with "1.prems" have big: "\<not> n < 128" by (auto simp: venc.simps[of n] split: if_splits)
    have u: "unat (of_nat (128 + n mod 128) :: byte) = 128 + n mod 128"
      by (simp add: unat_of_nat del: of_nat_add)
    from Suc "1.prems" big have "j < length (venc (n div 128))" by (simp add: venc.simps[of n])
    then have "vdec (take j (venc (n div 128))) = None" using "1.IH" big by simp
    then show ?thesis using Suc big u by (simp add: venc.simps[of n] del: of_nat_add)
  qed simp
qed

lemma decode_number_prefix:
  assumes k: "0 < k" "k < length (hpack_int 7 b0 n)"
  shows "fst (decode_number (Some (take k (hpack_int 7 b0 n))) k 7 (Some v)) < 0"
proof -
  have big: "\<not> n < 127" using k by (auto simp: hpack_int_def)
  then have h: "hpack_int 7 b0 n = (b0 OR mask 7) # venc (n - 127)" by (simp add: hpack_int_def)
  obtain j where j: "k = Suc j" "j < length (venc (n - 127))" using k h by (cases k) auto
  have "unat (b0 OR mask 7) mod 2 ^ 7 = 127"
    using unat_low_bits[of "b0 OR mask 7" 7] unat_mask_byte[of 7] by (simp add: or_mask_and_mask)
  moreover have "vdec (take 10 (take j (venc (n - 127)))) = None"
    using vdec_prefix[of "min 10 j" "n - 127"] j(2) by simp
  ultimately have "hpack_dec 7 (take k (take k (hpack_int 7 b0 n))) = None"
    by (simp add: h j(1) Let_def)
  then show ?thesis using decode_number_spec[of 7 k "take k (hpack_int 7 b0 n)" v] k by simp
qed

text \<open>Truncation is noticed: no proper prefix of a string literal is decoded, whether it
  ends within the length or within the string.\<close>

lemma string_decode_truncated:
  assumes b: "b \<in> {0, 0x80}" and n: "length s < 2 ^ 60"
    and k: "k < length (hpack_int 7 b (length s) @ s)"
  shows "map_option fst (string_decode_alloc malloc (take k (hpack_int 7 b (length s) @ s)) dest destlen) = Some (-1)"
proof -
  let ?h = "hpack_int 7 b (length s)"
  define buf where "buf = take k (?h @ s)"
  have len: "length buf = k" using k by (simp add: buf_def)
  consider "k = 0" | "0 < k" "k < length ?h" | "length ?h \<le> k" by linarith
  then have "map_option fst (string_decode_common malloc buf None 0) = Some (-1)"
  proof cases
    case 1
    then show ?thesis using len by (simp add: string_decode_common_def)
  next
    case 2
    then have "fst (decode_number (Some buf) k 7 (Some 0)) < 1"
      using decode_number_prefix[of k b "length s" 0] by (simp add: buf_def)
    then show ?thesis using len 2 by (simp add: string_decode_common_def split_beta Let_def)
  next
    case 3
    then have buf: "buf = ?h @ take (k - length ?h) s" by (simp add: buf_def)
    have dec: "decode_number (Some buf) (length buf) 7 (Some 0) = (int (length ?h), Some (of_nat (length s)))"
      unfolding buf using n by (intro decode_literal_length) simp
    have u: "unat (of_nat (length s) :: u64) = length s" using n by (simp add: unat_of_nat)
    have pos: "0 < length ?h" by (rule length_hpack_int_pos)
    have "length buf - length ?h < length s" using len k 3 by simp
    then show ?thesis using len 3 pos
      by (simp add: string_decode_common_def dec[unfolded len] u Let_def)
  qed
  then show ?thesis by (simp add: string_decode_alloc_def buf_def)
qed

lemma string_decode_truncated_witness:
  "map_option fst (string_decode_alloc (\<lambda>n. Some (replicate n 0)) [0x82, 0x1c] None 0) = Some (-1)"
  using string_decode_truncated[of "0x80" "[0x1c, 0x7f]" 2 "\<lambda>n. Some (replicate n 0)" None 0]
  by (simp add: hpack_int_def mask_eq_exp_minus_1 flip: numeral_2_eq_2)

end
