(* ===== verification/Hpack_Header.thy ===== *)
theory Hpack_Header
  imports Huff_Decode
begin

text \<open>
  HPACK header lists: \<open>src/dependencies/hpack/header.h\<close> and \<open>header.cpp\<close>.

  A \<open>std::string\<close> is a byte list, a \<open>std::span\<close> the list of its octets; a function that
  advances a span returns what is left of it.  Exceptions are the constructors of
  \<open>hpack_error\<close>; \<open>Assertion_failed\<close> is a failing \<open>assert\<close> (compiled in unless the
  argument \<open>ndebug\<close> holds) and \<open>Undefined\<close> an access out of bounds.  \<open>unsigned\<close> is
  \<open>u32\<close> and \<open>uintmax_t\<close> \<open>u64\<close>, so sizes wrap and indices are truncated as in the code.
  The state of a \<open>HeaderDecoder\<close> is its dynamic table; it survives an exception.  Caches
  (\<open>mutable\<close> members) are returned updated.  The arrays \<open>num\<close> and \<open>raw_num\<close> are the
  initial contents of the uninitialised local arrays of \<open>huffman_encode\<close> and
  \<open>hpack_encode_string\<close>.

  The reference side: the eviction rule of RFC 7541, 4.4 over unbounded sizes (\<open>keep\<close>), and
  header representations with their octets and meaning (\<open>hrep\<close>).
\<close>

unbundle bit_operations_syntax

section \<open>Headers\<close>

datatype hpack_error =
  Out_of_range | Runtime_error | Logic_error | Length_error | Assertion_failed | Undefined

record header =
  hname :: "byte list"
  hvalue :: "byte list"
  hname_encoded :: "byte list"
  hvalue_encoded :: "byte list"
  never_indexed :: bool

text \<open>Accesses with \<open>[]\<close> and to a range of octets are checked: outside of the object they are
  undefined, whatever guards the code has around them.  \<open>split_span\<close> is a copy of the first octets of a
  span and \<open>subspan\<close> behind them.\<close>

definition element_at :: "'a list \<Rightarrow> nat \<Rightarrow> hpack_error + 'a" where
  "element_at xs i = (if i < length xs then Inr (xs ! i) else Inl Undefined)"

definition split_span :: "nat \<Rightarrow> byte list \<Rightarrow> hpack_error + byte list \<times> byte list" where
  "split_span n buf = (if n \<le> length buf then Inr (take n buf, drop n buf) else Inl Undefined)"

definition mk_header :: "byte list \<Rightarrow> byte list \<Rightarrow> byte list \<Rightarrow> byte list \<Rightarrow> bool \<Rightarrow> header" where
  "mk_header name val name_encoded value_encoded never =
     \<lparr>hname = name, hvalue = val, hname_encoded = name_encoded, hvalue_encoded = value_encoded,
      never_indexed = never\<rparr>"

definition set_value :: "header \<Rightarrow> byte list \<Rightarrow> byte list \<Rightarrow> header" where
  "set_value h v encoded_value = h\<lparr>hvalue := v, hvalue_encoded := encoded_value\<rparr>"

definition hpack_size :: "header \<Rightarrow> u32" where
  "hpack_size h = of_nat (32 + length (hname h) + length (hvalue h))"

text \<open>\<open>std::string::resize\<close> pads with zeros.\<close>

definition string_resize :: "byte list \<Rightarrow> nat \<Rightarrow> byte list" where
  "string_resize s n = take n s @ replicate (n - length s) 0"

definition hpack_encode_string ::
  "(byte \<Rightarrow> encv) \<Rightarrow> byte list \<Rightarrow> byte list \<Rightarrow> byte list \<Rightarrow> hpack_error + byte list" where
  "hpack_encode_string et num raw_num s =
     (case huffman_encode et num s (replicate (10 + length s) 0) of
        None \<Rightarrow> Inl Undefined
      | Some (len, coded) \<Rightarrow>
          let coded = (if 0 < len then string_resize coded (nat len) else coded)
          in if 0 < len \<and> length coded \<le> length s then Inr coded
             else
               let (prefix_length, prefix) = encode_number (of_nat (length s)) 7 (Some raw_num) 10
               in if prefix_length < 0
                  then (if 0 < len then Inr coded else Inl Runtime_error)
                  else
                    let raw_length = (of_nat (nat prefix_length + length s) :: u32)
                    in if len < 0 \<or> int (unat raw_length) < len
                       then (if unat raw_length < nat prefix_length + length s then Inl Undefined
                             else Inr (take (nat prefix_length) (the prefix) @ s))
                       else Inr coded)"

definition name_encoded ::
  "(byte \<Rightarrow> encv) \<Rightarrow> byte list \<Rightarrow> byte list \<Rightarrow> header \<Rightarrow> hpack_error + byte list \<times> header" where
  "name_encoded et num raw_num h =
     (if hname_encoded h \<noteq> [] then Inr (hname_encoded h, h)
      else (case hpack_encode_string et num raw_num (hname h) of
              Inl e \<Rightarrow> Inl e
            | Inr s \<Rightarrow> Inr (s, h\<lparr>hname_encoded := s\<rparr>)))"

definition value_encoded ::
  "(byte \<Rightarrow> encv) \<Rightarrow> byte list \<Rightarrow> byte list \<Rightarrow> header \<Rightarrow> hpack_error + byte list \<times> header" where
  "value_encoded et num raw_num h =
     (if hvalue_encoded h \<noteq> [] then Inr (hvalue_encoded h, h)
      else (case hpack_encode_string et num raw_num (hname h) of
              Inl e \<Rightarrow> Inl e
            | Inr s \<Rightarrow> Inr (s, h\<lparr>hvalue_encoded := s\<rparr>)))"


section \<open>The tables\<close>

definition static_table :: "(string \<times> string) list" where
  "static_table =
     [([], []), ('':authority'', []), ('':method'', ''GET''), ('':method'', ''POST''),
      ('':path'', ''/''), ('':path'', ''/index.html''), ('':scheme'', ''http''),
      ('':scheme'', ''https''), ('':status'', ''200''), ('':status'', ''204''),
      ('':status'', ''206''), ('':status'', ''304''), ('':status'', ''400''),
      ('':status'', ''404''), ('':status'', ''500''), (''accept-charset'', []),
      (''accept-encoding'', ''gzip, deflate''), (''accept-language'', []),
      (''accept-ranges'', []), (''accept'', []), (''access-control-allow-origin'', []),
      (''age'', []), (''allow'', []), (''authorization'', []), (''cache-control'', []),
      (''content-disposition'', []), (''content-encoding'', []), (''content-language'', []),
      (''content-length'', []), (''content-location'', []), (''content-range'', []),
      (''content-type'', []), (''cookie'', []), (''date'', []), (''etag'', []), (''expect'', []),
      (''expires'', []), (''from'', []), (''host'', []), (''if-match'', []),
      (''if-modified-since'', []), (''if-none-match'', []), (''if-range'', []),
      (''if-unmodified-since'', []), (''last-modified'', []), (''link'', []), (''location'', []),
      (''max-forwards'', []), (''proxy-authenticate'', []), (''proxy-authorization'', []),
      (''range'', []), (''referer'', []), (''refresh'', []), (''retry-after'', []),
      (''server'', []), (''set-cookie'', []), (''strict-transport-security'', []),
      (''transfer-encoding'', []), (''user-agent'', []), (''vary'', []), (''via'', []),
      (''www-authenticate'', [])]"

definition static_get :: "u32 \<Rightarrow> hpack_error + header" where
  "static_get index =
     (if index = 0 \<or> length static_table < unat index then Inl Out_of_range
      else map_sum id (\<lambda>(n, v). mk_header (map of_char n) (map of_char v) [] [] False)
             (element_at static_table (unat index)))"

record dtable =
  size_octets :: u32
  entries :: "header list"

definition dt_new :: dtable where
  "dt_new = \<lparr>size_octets = 4096, entries = []\<rparr>"

definition dt_get :: "dtable \<Rightarrow> u32 \<Rightarrow> hpack_error + header" where
  "dt_get t index =
     (if index < 62 then Inl Out_of_range
      else if length (entries t) \<le> unat (index - 62) then Inl Out_of_range
      else element_at (entries t) (unat (index - 62)))"

definition dt_hpack_size :: "header list \<Rightarrow> u32" where
  "dt_hpack_size table = foldl (\<lambda>s h. s + hpack_size h) 0 table"

text \<open>The loop of \<open>DynamicTable::insert\<close>.\<close>

function evict :: "u32 \<Rightarrow> u32 \<Rightarrow> header list \<Rightarrow> header list" where
  "evict limit newh_size table =
     (if limit < dt_hpack_size table + newh_size \<and> table \<noteq> []
      then evict limit newh_size (butlast table) else table)"
  by pat_completeness auto
termination
  by (relation "measure (\<lambda>(limit, newh_size, table). length table)") auto

declare evict.simps [simp del]

definition dt_insert :: "header \<Rightarrow> dtable \<Rightarrow> dtable" where
  "dt_insert h t =
     (if size_octets t < hpack_size h then t\<lparr>entries := []\<rparr>
      else t\<lparr>entries := h # evict (size_octets t) (hpack_size h) (entries t)\<rparr>)"

text \<open>The loop of \<open>DynamicTable::resize\<close>: the number of entries to remove.\<close>

function shrink :: "bool \<Rightarrow> header list \<Rightarrow> u32 \<Rightarrow> nat \<Rightarrow> u32 \<Rightarrow> hpack_error + nat" where
  "shrink ndebug table new_size nremove hsize =
     (if table \<noteq> [] \<and> new_size < hsize then
        let nremove = nremove + 1
        in if length table < nremove then Inl Undefined
           else
             let sz = hpack_size (table ! (length table - nremove))
             in if \<not> ndebug \<and> \<not> hsize < sz then Inl Assertion_failed
                else shrink ndebug table new_size nremove (hsize - sz)
      else Inr nremove)"
  by pat_completeness auto
termination
  by (relation "measure (\<lambda>(ndebug, table, new_size, nremove, hsize). length table - nremove)") auto

declare shrink.simps [simp del]

definition dt_resize :: "bool \<Rightarrow> u32 \<Rightarrow> dtable \<Rightarrow> hpack_error + dtable" where
  "dt_resize ndebug new_size t =
     (if size_octets t \<le> new_size then Inr (t\<lparr>size_octets := new_size\<rparr>)
      else (case shrink ndebug (entries t) new_size 0 (dt_hpack_size (entries t)) of
              Inl e \<Rightarrow> Inl e
            | Inr n \<Rightarrow> Inr (t\<lparr>entries := take (length (entries t) - n) (entries t)\<rparr>)))"

definition table_get :: "dtable \<Rightarrow> u32 \<Rightarrow> hpack_error + header" where
  "table_get t index = (if index < 62 then static_get index else dt_get t index)"

text \<open>The lookups by header are stubs in the code: both tables answer "not found".\<close>

definition static_get_index :: "header \<Rightarrow> u32 \<times> u32" where
  "static_get_index h = (0, 0)"

definition dt_get_index :: "dtable \<Rightarrow> header \<Rightarrow> u32 \<times> u32" where
  "dt_get_index t h = (0, 0)"

definition table_get_index :: "dtable \<Rightarrow> header \<Rightarrow> u32 \<times> u32" where
  "table_get_index t h =
     (let staticIndex = static_get_index h; dynamicIndex = dt_get_index t h
      in if snd staticIndex \<noteq> 0 then staticIndex
         else if snd dynamicIndex \<noteq> 0 then dynamicIndex
         else if fst staticIndex \<noteq> 0 then staticIndex
         else dynamicIndex)"


section \<open>Strings in a header block\<close>

text \<open>
  The steps shared by the decoders: read a number with a prefix of \<open>bits\<close> bits; the octets it
  took and the rest of the span.
\<close>

definition read_number :: "nat \<Rightarrow> byte list \<Rightarrow> hpack_error + u64 \<times> byte list \<times> byte list" where
  "read_number bits buf =
     (let (len, num) = decode_number (Some buf) (length buf) bits (Some 0)
      in if len < 1 then Inl Runtime_error
         else map_sum id (\<lambda>(encoded, buf). (the num, encoded, buf)) (split_span (nat len) buf))"

type_synonym coded = "byte list \<times> byte list"

definition decode_raw_string :: "byte list \<Rightarrow> hpack_error + coded \<times> byte list" where
  "decode_raw_string buf =
     (case read_number 7 buf of
        Inl e \<Rightarrow> Inl e
      | Inr (slen, encoded, buf) \<Rightarrow>
          if length buf < unat slen then Inl Runtime_error
          else map_sum id (\<lambda>(s, buf). ((s, encoded @ s), buf)) (split_span (unat slen) buf))"

definition decode_huff_string :: "bool \<Rightarrow> byte list \<Rightarrow> hpack_error + coded \<times> byte list" where
  "decode_huff_string ndebug buf =
     (case read_number 7 buf of
        Inl e \<Rightarrow> Inl e
      | Inr (coded_len, encoded, buf) \<Rightarrow>
          if length buf < unat coded_len then Inl Runtime_error
          else
            (case split_span (unat coded_len) buf of
               Inl e \<Rightarrow> Inl e
             | Inr (coded, buf) \<Rightarrow>
                 let s = replicate (unat (coded_len * 8 div 5 + 1)) 0
                 in (case huffman_decode (Some coded) 8 (Some s) of
                       None \<Rightarrow> Inl Undefined
                     | Some (decoded_len, d) \<Rightarrow>
                         if \<not> ndebug \<and> int (length s) < decoded_len then Inl Assertion_failed
                         else if decoded_len < 0 then Inl Length_error
                         else Inr ((string_resize (the d) (nat decoded_len), encoded @ coded), buf))))"

definition decode_string :: "bool \<Rightarrow> byte list \<Rightarrow> hpack_error + coded \<times> byte list" where
  "decode_string ndebug buf =
     (if buf = [] then Inl Runtime_error
      else (case element_at buf 0 of
              Inl e \<Rightarrow> Inl e
            | Inr first \<Rightarrow>
                if first AND 0x80 \<noteq> 0 then decode_huff_string ndebug buf else decode_raw_string buf))"


section \<open>The header decoder\<close>

definition decode_indexed :: "dtable \<Rightarrow> byte list \<Rightarrow> hpack_error + header \<times> byte list" where
  "decode_indexed t buf =
     (case read_number 7 buf of
        Inl e \<Rightarrow> Inl e
      | Inr (idx, _, buf) \<Rightarrow> map_sum id (\<lambda>h. (h, buf)) (table_get t (ucast idx)))"

definition decode_literal_indexed ::
  "bool \<Rightarrow> dtable \<Rightarrow> u32 \<Rightarrow> byte list \<Rightarrow> hpack_error + header \<times> byte list" where
  "decode_literal_indexed ndebug t index buf =
     (case table_get t index of
        Inl e \<Rightarrow> Inl e
      | Inr h \<Rightarrow>
          (case decode_string ndebug buf of
             Inl e \<Rightarrow> Inl e
           | Inr ((v, encoded), buf) \<Rightarrow> Inr (set_value h v encoded, buf)))"

definition decode_literal ::
  "bool \<Rightarrow> dtable \<Rightarrow> nat \<Rightarrow> byte list \<Rightarrow> hpack_error + header \<times> byte list" where
  "decode_literal ndebug t length_bits buf =
     (case read_number length_bits buf of
        Inl e \<Rightarrow> Inl e
      | Inr (idx, _, buf) \<Rightarrow>
          if idx \<noteq> 0 then decode_literal_indexed ndebug t (ucast idx) buf
          else
            (case decode_string ndebug buf of
               Inl e \<Rightarrow> Inl e
             | Inr ((n, n_encoded), buf) \<Rightarrow>
                 (case decode_string ndebug buf of
                    Inl e \<Rightarrow> Inl e
                  | Inr ((v, v_encoded), buf) \<Rightarrow>
                      Inr (mk_header n v n_encoded v_encoded False, buf))))"

definition decode_literal_incremental ::
  "bool \<Rightarrow> dtable \<Rightarrow> byte list \<Rightarrow> hpack_error + header \<times> dtable \<times> byte list" where
  "decode_literal_incremental ndebug t buf =
     (case decode_literal ndebug t 6 buf of
        Inl e \<Rightarrow> Inl e
      | Inr (h, buf) \<Rightarrow> Inr (h, dt_insert h t, buf))"

definition decode_literal_without_indexing ::
  "bool \<Rightarrow> dtable \<Rightarrow> byte list \<Rightarrow> hpack_error + header \<times> byte list" where
  "decode_literal_without_indexing ndebug t buf = decode_literal ndebug t 4 buf"

definition decode_literal_never_indexed ::
  "bool \<Rightarrow> dtable \<Rightarrow> byte list \<Rightarrow> hpack_error + header \<times> byte list" where
  "decode_literal_never_indexed ndebug t buf =
     map_sum id (\<lambda>(h, buf). (h\<lparr>never_indexed := True\<rparr>, buf)) (decode_literal ndebug t 4 buf)"

definition dynamic_table_resize ::
  "bool \<Rightarrow> dtable \<Rightarrow> byte list \<Rightarrow> hpack_error + dtable \<times> byte list" where
  "dynamic_table_resize ndebug t buf =
     (if buf = [] then Inl Logic_error
      else (case element_at buf 0 of
              Inl e \<Rightarrow> Inl e
            | Inr first \<Rightarrow>
                if first AND 0x02 \<noteq> 0x02 then Inl Logic_error
                else (case read_number 5 buf of
                        Inl e \<Rightarrow> Inl e
                      | Inr (new_size, _, buf) \<Rightarrow>
                          map_sum id (\<lambda>t. (t, buf)) (dt_resize ndebug (ucast new_size) t))))"

text \<open>One round of the loop of \<open>parseHeaders\<close>: the headers appended, the table, the rest.\<close>

definition parse_step ::
  "bool \<Rightarrow> dtable \<Rightarrow> byte list \<Rightarrow> hpack_error + header list \<times> dtable \<times> byte list" where
  "parse_step ndebug t buf =
     (case element_at buf 0 of
        Inl e \<Rightarrow> Inl e
      | Inr first \<Rightarrow>
          if first AND 0x80 \<noteq> 0
          then map_sum id (\<lambda>(h, buf). ([h], t, buf)) (decode_indexed t buf)
          else if first AND 0x40 \<noteq> 0
          then map_sum id (\<lambda>(h, t, buf). ([h], t, buf)) (decode_literal_incremental ndebug t buf)
          else if first AND 0x20 \<noteq> 0
          then map_sum id (\<lambda>(t, buf). ([], t, buf)) (dynamic_table_resize ndebug t buf)
          else if first AND 0x10 \<noteq> 0
          then map_sum id (\<lambda>(h, buf). ([h], t, buf)) (decode_literal_never_indexed ndebug t buf)
          else map_sum id (\<lambda>(h, buf). ([h], t, buf)) (decode_literal_without_indexing ndebug t buf))"

text \<open>The guards of the code keep every access inside: with them the checks can be left out.\<close>

lemma decode_number_length: "fst (decode_number (Some buf) (length buf) bits (Some n)) \<le> int (length buf)"
proof (cases "buf = [] \<or> 8 < bits")
  case True
  then show ?thesis by (auto simp: decode_number_def PROTOCOL_ERROR_def)
next
  case False
  then have "0 < length buf" "bits \<le> 8" by simp_all
  then show ?thesis
    using decode_number_spec[of bits "length buf" buf n] hpack_dec_length[of bits buf]
    by (auto split: option.splits prod.splits)
qed

lemma read_number_eq:
  "read_number bits buf =
     (let (len, num) = decode_number (Some buf) (length buf) bits (Some 0)
      in if len < 1 then Inl Runtime_error
         else Inr (the num, take (nat len) buf, drop (nat len) buf))"
  using decode_number_length[of buf bits 0] by (auto simp: read_number_def split_span_def split_beta)

lemma decode_raw_string_eq:
  "decode_raw_string buf =
     (case read_number 7 buf of
        Inl e \<Rightarrow> Inl e
      | Inr (slen, encoded, buf) \<Rightarrow>
          if length buf < unat slen then Inl Runtime_error
          else let s = take (unat slen) buf in Inr ((s, encoded @ s), drop (unat slen) buf))"
  by (auto simp: decode_raw_string_def split_span_def Let_def split: sum.split)

lemma decode_huff_string_eq:
  "decode_huff_string ndebug buf =
     (case read_number 7 buf of
        Inl e \<Rightarrow> Inl e
      | Inr (coded_len, encoded, buf) \<Rightarrow>
          if length buf < unat coded_len then Inl Runtime_error
          else
            let coded = take (unat coded_len) buf;
                s = replicate (unat (coded_len * 8 div 5 + 1)) 0
            in (case huffman_decode (Some coded) 8 (Some s) of
                  None \<Rightarrow> Inl Undefined
                | Some (decoded_len, d) \<Rightarrow>
                    if \<not> ndebug \<and> int (length s) < decoded_len then Inl Assertion_failed
                    else if decoded_len < 0 then Inl Length_error
                    else Inr ((string_resize (the d) (nat decoded_len), encoded @ coded),
                              drop (unat coded_len) buf)))"
  by (auto simp: decode_huff_string_def split_span_def Let_def split: sum.split)

lemma decode_string_eq:
  "decode_string ndebug buf =
     (if buf = [] then Inl Runtime_error
      else if (buf ! 0) AND 0x80 \<noteq> 0 then decode_huff_string ndebug buf
      else decode_raw_string buf)"
  by (simp add: decode_string_def element_at_def)

lemma static_get_eq:
  "static_get index =
     (if index = 0 \<or> length static_table < unat index then Inl Out_of_range
      else if unat index < length static_table
      then (let (n, v) = static_table ! unat index
            in Inr (mk_header (map of_char n) (map of_char v) [] [] False))
      else Inl Undefined)"
  by (simp add: static_get_def element_at_def split_beta)

lemma dt_get_eq:
  "dt_get t index =
     (if index < 62 then Inl Out_of_range
      else if length (entries t) \<le> unat (index - 62) then Inl Out_of_range
      else Inr (entries t ! unat (index - 62)))"
  by (simp add: dt_get_def element_at_def)

lemma dynamic_table_resize_eq:
  "dynamic_table_resize ndebug t buf =
     (if buf = [] \<or> (buf ! 0) AND 0x02 \<noteq> 0x02 then Inl Logic_error
      else (case read_number 5 buf of
              Inl e \<Rightarrow> Inl e
            | Inr (new_size, _, buf) \<Rightarrow> map_sum id (\<lambda>t. (t, buf)) (dt_resize ndebug (ucast new_size) t)))"
  by (simp add: dynamic_table_resize_def element_at_def)

lemma parse_step_eq:
  "parse_step ndebug t buf =
     (if buf = [] then Inl Undefined
      else if (buf ! 0) AND 0x80 \<noteq> 0
      then map_sum id (\<lambda>(h, buf). ([h], t, buf)) (decode_indexed t buf)
      else if (buf ! 0) AND 0x40 \<noteq> 0
      then map_sum id (\<lambda>(h, t, buf). ([h], t, buf)) (decode_literal_incremental ndebug t buf)
      else if (buf ! 0) AND 0x20 \<noteq> 0
      then map_sum id (\<lambda>(t, buf). ([], t, buf)) (dynamic_table_resize ndebug t buf)
      else if (buf ! 0) AND 0x10 \<noteq> 0
      then map_sum id (\<lambda>(h, buf). ([h], t, buf)) (decode_literal_never_indexed ndebug t buf)
      else map_sum id (\<lambda>(h, buf). ([h], t, buf)) (decode_literal_without_indexing ndebug t buf))"
  by (simp add: parse_step_def element_at_def)

text \<open>Every step consumes octets, so the loop ends.\<close>

lemma read_number_consumes:
  assumes "read_number bits buf = Inr (n, p, rest)" "bits \<le> 8"
  shows "\<exists>k. 0 < k \<and> k \<le> length buf \<and> p = take k buf \<and> rest = drop k buf"
proof (cases "buf = []")
  case True
  then show ?thesis using assms by (simp add: read_number_eq decode_number_def PROTOCOL_ERROR_def)
next
  case False
  then have len: "0 < length buf" by simp
  show ?thesis
  proof (cases "hpack_dec bits buf")
    case None
    then show ?thesis
      using decode_number_spec[of bits "length buf" buf 0] len assms(2) assms(1)
      by (auto simp: read_number_eq split_beta split: if_splits)
  next
    case (Some r)
    obtain v k where r: "r = (v, k)" by (cases r)
    have "0 < k" "k \<le> length buf" using hpack_dec_length[of bits buf v k] Some r by auto
    moreover have "decode_number (Some buf) (length buf) bits (Some 0) = (int k, Some (of_nat v))"
      using decode_number_spec[of bits "length buf" buf 0] len assms(2) Some r by simp
    ultimately show ?thesis using assms(1) by (auto simp: read_number_eq)
  qed
qed

lemma read_number_shorter: "read_number bits buf = Inr (n, p, rest) \<Longrightarrow> bits \<le> 8 \<Longrightarrow> length rest < length buf"
  using read_number_consumes[of bits buf n p rest] by auto

lemma decode_raw_string_shorter: "decode_raw_string buf = Inr (r, rest) \<Longrightarrow> length rest < length buf"
  by (auto simp: decode_raw_string_eq Let_def split: sum.splits if_splits dest!: read_number_shorter)

lemma decode_huff_string_shorter:
  "decode_huff_string ndebug buf = Inr (r, rest) \<Longrightarrow> length rest < length buf"
  by (auto simp: decode_huff_string_eq Let_def less_imp_diff_less
      split: sum.splits if_splits option.splits dest!: read_number_shorter)

lemma decode_string_shorter: "decode_string ndebug buf = Inr (r, rest) \<Longrightarrow> length rest < length buf"
  by (auto simp: decode_string_eq split: if_splits dest: decode_raw_string_shorter decode_huff_string_shorter)

lemma decode_indexed_shorter: "decode_indexed t buf = Inr (h, rest) \<Longrightarrow> length rest < length buf"
  by (auto simp: decode_indexed_def map_sum_def split: sum.splits dest!: read_number_shorter)

lemma decode_literal_shorter:
  "decode_literal ndebug t bits buf = Inr (h, rest) \<Longrightarrow> bits \<le> 8 \<Longrightarrow> length rest < length buf"
  by (auto simp: decode_literal_def decode_literal_indexed_def split: sum.splits if_splits
      dest!: read_number_shorter decode_string_shorter)

lemma dynamic_table_resize_shorter:
  "dynamic_table_resize ndebug t buf = Inr (t', rest) \<Longrightarrow> length rest < length buf"
  by (auto simp: dynamic_table_resize_eq map_sum_def split: sum.splits if_splits dest!: read_number_shorter)

lemma parse_step_shorter:
  "parse_step ndebug t buf = Inr (hs, t', rest) \<Longrightarrow> length rest < length buf"
  by (auto simp: parse_step_eq decode_literal_incremental_def decode_literal_without_indexing_def
      decode_literal_never_indexed_def map_sum_def split: if_splits sum.splits
      dest: decode_indexed_shorter decode_literal_shorter dynamic_table_resize_shorter)

function parse_headers ::
  "bool \<Rightarrow> dtable \<Rightarrow> byte list \<Rightarrow> header list \<Rightarrow> (hpack_error + header list) \<times> dtable" where
  "parse_headers ndebug t buf headers =
     (if buf = [] then (Inr headers, t)
      else (case parse_step ndebug t buf of
              Inl e \<Rightarrow> (Inl e, t)
            | Inr (hs, t', buf') \<Rightarrow> parse_headers ndebug t' buf' (headers @ hs)))"
  by pat_completeness auto
termination
  by (relation "measure (\<lambda>(ndebug, t, buf, headers). length buf)") (auto dest: parse_step_shorter)

declare parse_headers.simps [simp del]

end
