(* ===== verification/Hpack_Tables.thy ===== *)
theory Hpack_Tables
  imports Hpack_Header
begin

text \<open>
  The dynamic table of \<open>src/dependencies/hpack/header.cpp\<close> against RFC 7541, 4.1 to 4.4.

  Sizes are counted in unbounded naturals (\<open>hsize\<close>, \<open>total\<close>); \<open>keep room\<close> is the longest
  beginning of a table (its newest entries) that fits in \<open>room\<close>.  The lemmas show that
  \<open>evict\<close>, which drops entries from the end and sums up 32-bit sizes, computes it as long as
  the sizes do not wrap, and what \<open>insert\<close> and \<open>resize\<close> do to the table.
\<close>

section \<open>Sizes\<close>

definition hsize :: "header \<Rightarrow> nat" where
  "hsize h = 32 + length (hname h) + length (hvalue h)"

definition total :: "header list \<Rightarrow> nat" where
  "total table = sum_list (map hsize table)"

fun keep :: "nat \<Rightarrow> header list \<Rightarrow> header list" where
  "keep room [] = []"
| "keep room (h # t) = (if hsize h \<le> room then h # keep (room - hsize h) t else [])"

lemma total_simps [simp]:
  "total [] = 0" "total (h # t) = hsize h + total t" "total (t @ u) = total t + total u"
  by (simp_all add: total_def)

lemma hpack_size_word: "hpack_size h = of_nat (hsize h)"
  by (simp add: hpack_size_def hsize_def)

lemma dt_hpack_size_word: "dt_hpack_size table = of_nat (total table)"
proof -
  have "foldl (\<lambda>s h. s + hpack_size h) s table = s + of_nat (total table)" for s
    by (induction table arbitrary: s) (simp_all add: hpack_size_word)
  then show ?thesis by (simp add: dt_hpack_size_def)
qed

lemma unat_hpack_size: "hsize h < 2 ^ 32 \<Longrightarrow> unat (hpack_size h) = hsize h"
  by (simp add: hpack_size_word unat_of_nat)

lemma total_keep: "total (keep room t) \<le> room"
  by (induction room t rule: keep.induct) auto

lemma keep_all: "total t \<le> room \<Longrightarrow> keep room t = t"
  by (induction room t rule: keep.induct) auto

lemma keep_prefix: "\<exists>n. keep room t = take n t"
proof (induction room t rule: keep.induct)
  case (2 room h t)
  then obtain n where "hsize h \<le> room \<Longrightarrow> keep (room - hsize h) t = take n t" by blast
  then show ?case by (cases "hsize h \<le> room") (auto intro: exI[of _ "Suc n"] exI[of _ 0])
qed simp

text \<open>\<open>keep\<close> is the longest beginning that fits.\<close>

lemma keep_maximal: "total (take n t) \<le> room \<Longrightarrow> n \<le> length t \<Longrightarrow> n \<le> length (keep room t)"
proof (induction room t arbitrary: n rule: keep.induct)
  case (2 room h t)
  then show ?case by (cases n) auto
qed simp

lemma keep_butlast: "room < total t \<Longrightarrow> keep room (butlast t) = keep room t"
proof (induction room t rule: keep.induct)
  case (2 room h t)
  show ?case
  proof (cases "t = []")
    case False
    then show ?thesis using 2 by auto
  qed (use 2 in simp)
qed simp

lemma hsize_pos: "0 < hsize h"
  by (simp add: hsize_def)

lemma evict_keep:
  assumes "total t + n < 2 ^ 32" "n \<le> unat limit" "newh = of_nat n"
  shows "evict limit newh t = keep (unat limit - n) t"
  using assms
proof (induction limit newh t rule: evict.induct)
  case (1 limit newh t)
  have "unat (dt_hpack_size t + newh) = total t + n"
    using "1.prems"(1,3) by (simp add: dt_hpack_size_word unat_of_nat flip: of_nat_add)
  then have less: "limit < dt_hpack_size t + newh \<longleftrightarrow> unat limit < total t + n"
    by (simp add: word_less_nat_alt)
  show ?case
  proof (cases "unat limit < total t + n \<and> t \<noteq> []")
    case True
    have "total t = total (butlast t) + hsize (last t)"
      using True append_butlast_last_id[of t] total_simps(3)[of "butlast t" "[last t]"] by simp
    then have "total (butlast t) + n < 2 ^ 32" using "1.prems"(1) by simp
    then have "evict limit newh (butlast t) = keep (unat limit - n) (butlast t)"
      using "1.IH" True less "1.prems" by blast
    also have "\<dots> = keep (unat limit - n) t" using True "1.prems"(2) by (intro keep_butlast) linarith
    finally show ?thesis using True less by (simp add: evict.simps[of limit newh t])
  next
    case False
    then have "t = [] \<or> total t \<le> unat limit - n" using "1.prems"(2) by auto
    then have "keep (unat limit - n) t = t" by (auto intro: keep_all)
    moreover have "evict limit newh t = t"
      using False less by (subst evict.simps) (simp only: if_False)
    ultimately show ?thesis by simp
  qed
qed

lemma dt_insert_keep:
  assumes "total (entries t) + hsize h < 2 ^ 32"
  shows "dt_insert h t =
    t\<lparr>entries := (if unat (size_octets t) < hsize h then []
                  else h # keep (unat (size_octets t) - hsize h) (entries t))\<rparr>"
proof -
  have h: "unat (hpack_size h) = hsize h" using assms by (intro unat_hpack_size) simp
  then have "size_octets t < hpack_size h \<longleftrightarrow> unat (size_octets t) < hsize h"
    by (simp add: word_less_nat_alt)
  then show ?thesis
    using evict_keep[OF assms, of "size_octets t" "hpack_size h"] by (simp add: dt_insert_def hpack_size_word)
qed


section \<open>Shrinking\<close>

lemma take_butlast_last:
  assumes "n < length t"
  shows "take (length t - n) t = take (length t - Suc n) t @ [t ! (length t - Suc n)]"
proof -
  have "length t - n = Suc (length t - Suc n)" using assms by simp
  then show ?thesis using assms by (simp only: take_Suc_conv_app_nth)
qed

lemma shrink_done: "\<not> (t \<noteq> [] \<and> new < hs) \<Longrightarrow> shrink ndebug t new n hs = Inr n"
  by (subst shrink.simps) (simp only: if_False)

lemma shrink_step:
  assumes "t \<noteq> [] \<and> new < hs" "n < length t"
  shows "shrink ndebug t new n hs =
    (if \<not> ndebug \<and> \<not> hs < hpack_size (t ! (length t - (n + 1))) then Inl Assertion_failed
     else shrink ndebug t new (n + 1) (hs - hpack_size (t ! (length t - (n + 1)))))"
proof -
  have "\<not> length t < n + 1" using assms(2) by simp
  with assms(1) show ?thesis by (subst shrink.simps) (simp only: if_True if_False Let_def simp_thms)
qed

lemma shrink_removes:
  assumes "nremove \<le> length t" "hsize' = of_nat (total (take (length t - nremove) t))"
  shows "shrink ndebug t new nremove hsize' \<noteq> Inl Undefined
    \<and> (\<forall>n. shrink ndebug t new nremove hsize' = Inr n \<longrightarrow> n \<le> length t)"
  using assms
proof (induction ndebug t new nremove hsize' rule: shrink.induct)
  case (1 ndebug t new nremove hsize')
  show ?case
  proof (cases "t \<noteq> [] \<and> new < hsize'")
    case False
    then show ?thesis using "1.prems"(1) by (simp add: shrink_done)
  next
    case True
    then have lt: "nremove < length t"
      using "1.prems" by (cases "nremove = length t") auto
    let ?sz = "hpack_size (t ! (length t - (nremove + 1)))"
    have "hsize' - ?sz = of_nat (total (take (length t - (nremove + 1)) t))"
      using "1.prems"(2) take_butlast_last[OF lt] by (simp add: hpack_size_word)
    then show ?thesis
      using "1.IH"[OF True refl _ refl] lt unfolding shrink_step[OF True lt] by auto
  qed
qed

lemma shrink_keep:
  assumes "nremove \<le> length t" "hsize' = of_nat (total (take (length t - nremove) t))" "total t < 2 ^ 32"
    and "keep (unat new) t = keep (unat new) (take (length t - nremove) t)"
  shows "\<exists>n. shrink True t new nremove hsize' = Inr n \<and> take (length t - n) t = keep (unat new) t"
  using assms
proof (induction True t new nremove hsize' rule: shrink.induct)
  case (1 t new nremove hsize')
  let ?u = "take (length t - nremove) t"
  have "total ?u \<le> total t" using append_take_drop_id[of "length t - nremove" t] total_simps(3) by (metis le_add1)
  then have u: "unat hsize' = total ?u" using "1.prems"(2,3) by (simp add: unat_of_nat)
  show ?case
  proof (cases "t \<noteq> [] \<and> new < hsize'")
    case False
    then have "t = [] \<or> total ?u \<le> unat new" using u by (auto simp: word_less_nat_alt)
    then have "?u = keep (unat new) t" using "1.prems"(4) keep_all[of ?u "unat new"] by auto
    then show ?thesis using False by (simp add: shrink_done)
  next
    case True
    then have lt: "nremove < length t"
      using "1.prems" by (cases "nremove = length t") auto
    let ?sz = "hpack_size (t ! (length t - (nremove + 1)))"
    have split: "?u = take (length t - (nremove + 1)) t @ [t ! (length t - (nremove + 1))]"
      using take_butlast_last[OF lt] by simp
    have size: "hsize' - ?sz = of_nat (total (take (length t - (nremove + 1)) t))"
      using "1.prems"(2) split by (simp add: hpack_size_word)
    have "unat new < total ?u" using True u by (simp add: word_less_nat_alt)
    then have "keep (unat new) (butlast ?u) = keep (unat new) ?u" by (rule keep_butlast)
    then have "keep (unat new) t = keep (unat new) (take (length t - (nremove + 1)) t)"
      using "1.prems"(4) split by (simp add: butlast_append)
    with "1.hyps"[OF True refl _ refl _ _ size "1.prems"(3)] lt
    show ?thesis unfolding shrink_step[OF True lt] by auto
  qed
qed

lemma shrink_asserts:
  assumes "total t < 2 ^ 32" "unat new < total t"
  shows "shrink False t new 0 (of_nat (total t)) = Inl Assertion_failed"
proof -
  have t: "t \<noteq> []" using assms(2) by auto
  have "new < of_nat (total t)" using assms by (simp add: word_less_nat_alt unat_of_nat)
  moreover have "hsize (last t) \<le> total t"
    using append_butlast_last_id[OF t] total_simps(3)[of "butlast t" "[last t]"] by simp
  then have "\<not> (of_nat (total t) :: u32) < hpack_size (t ! (length t - Suc 0))"
    using assms(1) t by (simp add: hpack_size_word word_less_nat_alt unat_of_nat last_conv_nth)
  ultimately show ?thesis using t shrink_step[of t new "of_nat (total t)" 0 False] by simp
qed


section \<open>The operations of the table\<close>

text \<open>The table never holds more than its size allows.\<close>

definition dt_ok :: "dtable \<Rightarrow> bool" where
  "dt_ok t \<longleftrightarrow> total (entries t) \<le> unat (size_octets t)"

text \<open>C18: \<open>DynamicTable::insert\<close> evicts by the rule of RFC 7541, 4.4: an entry larger than
  the table empties it; otherwise the new entry comes first and the longest run of the newest
  entries that fits beside it is kept, in order.  The 32-bit sums must not wrap.\<close>

theorem dt_insert_evicts:
  assumes "total (entries t) + hsize h < 2 ^ 32"
  shows "entries (dt_insert h t) =
      (if unat (size_octets t) < hsize h then []
       else h # keep (unat (size_octets t) - hsize h) (entries t))
    \<and> size_octets (dt_insert h t) = size_octets t \<and> dt_ok (dt_insert h t)"
  using dt_insert_keep[OF assms] total_keep[of "unat (size_octets t) - hsize h" "entries t"]
  by (auto simp: dt_ok_def)

lemma dt_insert_ok: "total (entries t) + hsize h < 2 ^ 32 \<Longrightarrow> dt_ok (dt_insert h t)"
  using dt_insert_keep[of t h] total_keep[of "unat (size_octets t) - hsize h" "entries t"]
  by (auto simp: dt_ok_def)

lemma dt_insert_total: "total (entries t) + hsize h < 2 ^ 32 \<Longrightarrow>
    total (entries (dt_insert h t)) \<le> total (entries t) + hsize h"
proof -
  assume a: "total (entries t) + hsize h < 2 ^ 32"
  obtain n where "keep (unat (size_octets t) - hsize h) (entries t) = take n (entries t)"
    using keep_prefix by blast
  moreover have "total (take n (entries t)) \<le> total (entries t)"
    by (metis append_take_drop_id le_add1 total_simps(3))
  ultimately show ?thesis using dt_insert_keep[OF a] by auto
qed

theorem dt_insert_evicts_witness:
  "entries (dt_insert (mk_header [1] [2] [] [] False)
      \<lparr>size_octets = 70, entries = [mk_header [3] [] [] [] False, mk_header [4] [] [] [] False]\<rparr>)
   = [mk_header [1] [2] [] [] False, mk_header [3] [] [] [] False]"
  using dt_insert_evicts[of "\<lparr>size_octets = 70, entries = [mk_header [3] [] [] [] False, mk_header [4] [] [] [] False]\<rparr>"
      "mk_header [1] [2] [] [] False"]
  by (simp add: hsize_def mk_header_def)

lemma dt_resize_cases:
  assumes "total (entries t) < 2 ^ 32"
  shows "size_octets t \<le> n \<Longrightarrow> dt_resize ndebug n t = Inr (t\<lparr>size_octets := n\<rparr>)"
    and "n < size_octets t \<Longrightarrow> dt_resize True n t = Inr (t\<lparr>entries := keep (unat n) (entries t)\<rparr>)"
    and "n < size_octets t \<Longrightarrow> unat n < total (entries t) \<Longrightarrow> dt_resize False n t = Inl Assertion_failed"
proof -
  show "dt_resize ndebug n t = Inr (t\<lparr>size_octets := n\<rparr>)" if "size_octets t \<le> n"
    using that by (simp add: dt_resize_def)
  show "dt_resize True n t = Inr (t\<lparr>entries := keep (unat n) (entries t)\<rparr>)" if "n < size_octets t"
    using shrink_keep[of 0 "entries t" "dt_hpack_size (entries t)" n] assms that
    by (auto simp: dt_resize_def dt_hpack_size_word)
  show "dt_resize False n t = Inl Assertion_failed" if "n < size_octets t" "unat n < total (entries t)"
    using shrink_asserts[OF assms that(2)] that by (simp add: dt_resize_def dt_hpack_size_word)
qed

text \<open>\<open>DynamicTable::resize\<close> without assertions: a larger size becomes the limit; a
  smaller one keeps the newest entries that fit it, but leaves the limit as it was, so the
  next insertions may fill the table up to the old limit again.\<close>

lemma dt_resize_correct:
  assumes "total (entries t) < 2 ^ 32"
  shows "dt_resize True n t =
    Inr (if size_octets t \<le> n then t\<lparr>size_octets := n\<rparr>
         else t\<lparr>entries := keep (unat n) (entries t)\<rparr>)"
  using dt_resize_cases(1,2)[OF assms, of n] by (simp add: not_le)

lemma dt_resize_correct_witness:
  "dt_resize True 40 \<lparr>size_octets = 70, entries = [mk_header [3] [] [] [] False, mk_header [4] [] [] [] False]\<rparr>
   = Inr \<lparr>size_octets = 70, entries = [mk_header [3] [] [] [] False]\<rparr>"
  using dt_resize_correct[of "\<lparr>size_octets = 70, entries = [mk_header [3] [] [] [] False, mk_header [4] [] [] [] False]\<rparr>" 40]
  by (simp add: hsize_def mk_header_def)

text \<open>With assertions compiled in, a reduction of the table size that has to remove an
  entry aborts the program: \<open>resize\<close> asserts that the entry is larger than the whole
  table.\<close>

lemma dt_resize_asserts:
  assumes "total (entries t) < 2 ^ 32" "n < size_octets t" "unat n < total (entries t)"
  shows "dt_resize False n t = Inl Assertion_failed"
  using assms by (rule dt_resize_cases(3))

lemma dt_resize_asserts_witness:
  "dt_resize False 40 \<lparr>size_octets = 70, entries = [mk_header [3] [] [] [] False, mk_header [4] [] [] [] False]\<rparr>
   = Inl Assertion_failed"
  by (rule dt_resize_asserts) (simp_all add: hsize_def mk_header_def)

end
