(* ===== verification/Hpack_Blocks.thy ===== *)
theory Hpack_Blocks
  imports Hpack_Tables
begin

text \<open>
  Header blocks: the string and block decoders of \<open>src/dependencies/hpack/header.cpp\<close> against
  the representations of RFC 7541, section 6.

  A string literal (\<open>hstring\<close>) is raw or Huffman coded; a header representation (\<open>hrep\<close>)
  refers to the tables or carries literals.  \<open>rep_bytes\<close> are the octets RFC 7541 gives it,
  \<open>rep_apply\<close> is what it means: the header, and the new dynamic table.  The lemmas show that
  the decoder reads every sequence of representations with that meaning, that no input makes
  it access memory out of bounds, and which inputs of the peer it gets wrong.
\<close>

section \<open>String literals\<close>

datatype hstring = Raw "byte list" | Huff "byte list"

fun hstring_text :: "hstring \<Rightarrow> byte list" where
  "hstring_text (Raw s) = s"
| "hstring_text (Huff s) = s"

fun hstring_bytes :: "hstring \<Rightarrow> byte list" where
  "hstring_bytes (Raw s) = hpack_int 7 0 (length s) @ s"
| "hstring_bytes (Huff s) = hpack_huff_string s"

definition fits :: "byte list \<Rightarrow> bool" where
  "fits s \<longleftrightarrow> length s < 2 ^ 58"

lemma read_number_int:
  assumes "1 \<le> p" "p \<le> 8" "n < 2 ^ 64"
  shows "read_number p (hpack_int p b n @ rest) = Inr (of_nat n, hpack_int p b n, rest)"
proof -
  have "decode_number (Some (hpack_int p b n @ rest)) (length (hpack_int p b n @ rest)) p (Some 0)
      = (int (length (hpack_int p b n)), Some (of_nat n))"
    using assms by (intro decode_hpack_int) auto
  moreover have "\<not> int (length (hpack_int p b n)) < 1"
    using length_hpack_int_pos[of p b n] by linarith
  ultimately show ?thesis by (simp add: read_number_eq del: length_append)
qed

lemma decode_raw_string_bytes:
  assumes "fits s"
  shows "decode_string ndebug (hpack_int 7 0 (length s) @ s @ rest)
    = Inr ((s, hpack_int 7 0 (length s) @ s), rest)"
proof -
  have n: "length s < 2 ^ 64" and u: "unat (of_nat (length s) :: u64) = length s"
    using assms by (simp_all add: fits_def unat_of_nat)
  have "(hpack_int 7 0 (length s) @ s @ rest) ! 0 AND 0x80 = 0"
    using hpack_raw_first[OF n] by (simp add: nth_append)
  then show ?thesis using n
    by (simp add: decode_string_eq decode_raw_string_eq read_number_int u Let_def)
qed

lemma length_text_bits: "5 * length xs \<le> length (text_bits xs) \<and> length (text_bits xs) \<le> 30 * length xs"
proof (induction xs)
  case (Cons x xs)
  have "5 \<le> code_bits (unat x)" "code_bits (unat x) \<le> 30"
    using code_bits_ge_5[of "unat x"] code_bits_range[of "unat x"] by simp_all
  with Cons show ?case by (simp add: length_symbol_bits)
qed simp

lemma decode_room: "5 * n \<le> l \<Longrightarrow> n < (l + 7) div 8 * 8 div 5 + 1" for n l :: nat
proof -
  assume "5 * n \<le> l"
  moreover have "l \<le> (l + 7) div 8 * 8" by presburger
  ultimately have "5 * n \<le> (l + 7) div 8 * 8" by linarith
  then show ?thesis by presburger
qed

lemma decode_huff_string_bytes:
  assumes "fits s"
  shows "decode_string ndebug (hpack_huff_string s @ rest) = Inr ((s, hpack_huff_string s), rest)"
proof -
  define c where "c = pack (text_bits s)"
  let ?h = "hpack_int 7 0x80 (length c)"
  have str: "hpack_huff_string s = ?h @ c" by (simp add: hpack_huff_string_def c_def Let_def)
  have c: "length c < 2 ^ 60"
  proof -
    have "length c * 8 \<le> 30 * length s + 7" 
      using length_text_bits[of s] div_times_less_eq_dividend[of "length (text_bits s) + 7" 8]
      unfolding c_def length_pack by linarith
    then show ?thesis using assms by (simp add: fits_def)
  qed
  then have u: "unat (of_nat (length c) :: u64) = length c" by (simp add: unat_of_nat)
  then have "unat (of_nat (length c) * 8 :: u64) = length c * 8" using c by (simp add: unat_word_ariths)
  moreover define room where "room = length c * 8 div 5 + 1"
  ultimately have size: "unat (of_nat (length c) * 8 div 5 + 1 :: u64) = room"
    using c by (simp add: unat_word_ariths(1) unat_div)
  obtain k where "k \<le> 8" "bytes_bits c = text_bits s @ replicate k True"
    using text_bits_pack[of s] by (auto simp: c_def)
  then have t: "huff_text (bytes_bits c) = (s, replicate k True)" by (simp add: huff_text_text)
  have room: "length s < room"
    using length_text_bits[of s] decode_room[of "length s" "length (text_bits s)"]
    unfolding c_def length_pack room_def by blast
  then have dec: "huffman_decode (Some c) 8 (Some (replicate room 0))
      = Some (int (length s), Some (s @ replicate (room - length s) 0))"
    using huffman_decode_outcome[of 8 c "replicate room 0"] by (simp add: huff_outcome_def t)
  have first: "(?h @ c @ rest) ! 0 AND 0x80 \<noteq> 0"
    using hpack_string_first[of "length c"] by (simp add: nth_append)
  have "?h @ c @ rest \<noteq> []" by simp
  moreover have "read_number 7 (?h @ c @ rest) = Inr (of_nat (length c), ?h, c @ rest)"
    using c by (intro read_number_int) auto
  ultimately show ?thesis using first room
    by (simp add: str decode_string_eq decode_huff_string_eq u size dec Let_def string_resize_def)
qed

lemma decode_hstring:
  "fits (hstring_text v) \<Longrightarrow>
     decode_string ndebug (hstring_bytes v @ rest) = Inr ((hstring_text v, hstring_bytes v), rest)"
  by (cases v) (simp_all add: decode_raw_string_bytes decode_huff_string_bytes)


section \<open>Representations\<close>

datatype index_mode = Incremental | Without_indexing | Never_indexed

fun mode_bits :: "index_mode \<Rightarrow> nat" where
  "mode_bits Incremental = 6" | "mode_bits Without_indexing = 4" | "mode_bits Never_indexed = 4"

fun mode_octet :: "index_mode \<Rightarrow> byte" where
  "mode_octet Incremental = 0x40" | "mode_octet Without_indexing = 0" | "mode_octet Never_indexed = 0x10"

datatype hrep =
  Indexed nat
| Literal_indexed index_mode nat hstring
| Literal_new index_mode hstring hstring

fun rep_bytes :: "hrep \<Rightarrow> byte list" where
  "rep_bytes (Indexed i) = hpack_int 7 0x80 i"
| "rep_bytes (Literal_indexed m i v) = hpack_int (mode_bits m) (mode_octet m) i @ hstring_bytes v"
| "rep_bytes (Literal_new m n v) =
     hpack_int (mode_bits m) (mode_octet m) 0 @ hstring_bytes n @ hstring_bytes v"

fun add_header :: "index_mode \<Rightarrow> header \<Rightarrow> dtable \<Rightarrow> header \<times> dtable" where
  "add_header Incremental h t = (h, dt_insert h t)"
| "add_header Without_indexing h t = (h, t)"
| "add_header Never_indexed h t = (h\<lparr>never_indexed := True\<rparr>, t)"

text \<open>The entry with an index in the concatenated tables (RFC 7541, 2.3.3).\<close>

definition entry_at :: "dtable \<Rightarrow> nat \<Rightarrow> header option" where
  "entry_at t i =
     (if 1 \<le> i \<and> i \<le> 61 then
        (let (n, v) = static_table ! i in Some (mk_header (map of_char n) (map of_char v) [] [] False))
      else if 62 \<le> i \<and> i < 62 + length (entries t) then Some (entries t ! (i - 62))
      else None)"

fun rep_apply :: "dtable \<Rightarrow> hrep \<Rightarrow> (header \<times> dtable) option" where
  "rep_apply t (Indexed i) = map_option (\<lambda>h. (h, t)) (entry_at t i)"
| "rep_apply t (Literal_indexed m i v) =
     map_option (\<lambda>h. add_header m (set_value h (hstring_text v) (hstring_bytes v)) t) (entry_at t i)"
| "rep_apply t (Literal_new m n v) =
     Some (add_header m
       (mk_header (hstring_text n) (hstring_text v) (hstring_bytes n) (hstring_bytes v) False) t)"

fun reps_apply :: "dtable \<Rightarrow> hrep list \<Rightarrow> (header list \<times> dtable) option" where
  "reps_apply t [] = Some ([], t)"
| "reps_apply t (r # rs) =
     (case rep_apply t r of
        None \<Rightarrow> None
      | Some (h, t') \<Rightarrow> map_option (\<lambda>(hs, t''). (h # hs, t'')) (reps_apply t' rs))"

text \<open>Indices and lengths that exist on the wire and in memory.\<close>

fun rep_fits :: "hrep \<Rightarrow> bool" where
  "rep_fits (Indexed i) \<longleftrightarrow> i < 2 ^ 32"
| "rep_fits (Literal_indexed m i v) \<longleftrightarrow> 0 < i \<and> i < 2 ^ 32 \<and> fits (hstring_text v)"
| "rep_fits (Literal_new m n v) \<longleftrightarrow> fits (hstring_text n) \<and> fits (hstring_text v)"

lemma length_static_table: "length static_table = 62"
  by (simp add: static_table_def)

lemma table_get_entry:
  assumes "i < 2 ^ 32"
  shows "table_get t (of_nat i) = (case entry_at t i of None \<Rightarrow> Inl Out_of_range | Some h \<Rightarrow> Inr h)"
proof -
  have u: "unat (of_nat i :: u32) = i" using assms by (simp add: unat_of_nat)
  have lt: "(of_nat i :: u32) < 62 \<longleftrightarrow> i < 62" by (simp add: word_less_nat_alt u)
  have z: "(of_nat i :: u32) = 0 \<longleftrightarrow> i = 0" by (simp add: word_unat_eq_iff u)
  show ?thesis
  proof (cases "i < 62")
    case True
    then show ?thesis
      by (auto simp: table_get_def lt static_get_eq z u length_static_table entry_at_def split_beta)
  next
    case False
    then have "unat (of_nat i - 62 :: u32) = i - 62"
      using lt by (subst unat_sub) (simp_all add: u word_le_nat_alt)
    then show ?thesis using False by (auto simp: table_get_def lt dt_get_eq entry_at_def)
  qed
qed

lemma ucast_of_nat_u64: "(ucast (of_nat i :: u64) :: u32) = of_nat i"
  by (simp add: word_unat_eq_iff unsigned_ucast_eq unsigned_of_nat)

lemma rep_nonempty: "rep_bytes r \<noteq> []"
  by (cases r) simp_all

text \<open>The bits of the first octet that choose the representation.\<close>

lemma hpack_int_high_bits:
  assumes "n < 2 ^ 64" "p \<le> k" "k < 8"
  shows "bit (hpack_int p b n ! 0) k = bit b k"
proof (cases "n < 2 ^ p - 1")
  case True
  have "(2::nat) ^ p \<le> 2 ^ k" "(2::nat) ^ k \<le> 128"
    using assms power_increasing[of p k "2::nat"] power_increasing[of k 7 "2::nat"] by auto
  with True have "n < 2 ^ k" by linarith
  have "bit (of_nat n :: byte) k \<longleftrightarrow> bit n k" using assms by (simp add: bit_of_nat_iff)
  moreover have "\<not> bit n k" using \<open>n < 2 ^ k\<close> by (simp add: bit_iff_odd)
  ultimately show ?thesis using True assms by (simp add: hpack_int_def bit_simps)
next
  case False
  then show ?thesis using assms by (simp add: hpack_int_def bit_simps)
qed

lemma octet_flags:
  "x AND 0x80 = 0 \<longleftrightarrow> \<not> bit x 7" "x AND 0x40 = 0 \<longleftrightarrow> \<not> bit x 6"
  "x AND 0x20 = 0 \<longleftrightarrow> \<not> bit x 5" "x AND 0x10 = 0 \<longleftrightarrow> \<not> bit x 4" for x :: byte
  using and_exp_eq_0_iff_not_bit[of x 7] and_exp_eq_0_iff_not_bit[of x 6]
    and_exp_eq_0_iff_not_bit[of x 5] and_exp_eq_0_iff_not_bit[of x 4] by simp_all

lemma first_octet: "(hpack_int p b n @ rest) ! 0 = hpack_int p b n ! 0"
  by (simp add: nth_append)

lemma mode_flags:
  assumes "n < 2 ^ 64"
  shows "bit (hpack_int (mode_bits m) (mode_octet m) n ! 0) 7 = False"
    and "bit (hpack_int (mode_bits m) (mode_octet m) n ! 0) 6 = (m = Incremental)"
    and "m \<noteq> Incremental \<Longrightarrow> bit (hpack_int (mode_bits m) (mode_octet m) n ! 0) 5 = False"
    and "m \<noteq> Incremental \<Longrightarrow> bit (hpack_int (mode_bits m) (mode_octet m) n ! 0) 4 = (m = Never_indexed)"
  using assms by (cases m; simp add: hpack_int_high_bits)+

lemma mode_bits_range: "1 \<le> mode_bits m" "mode_bits m \<le> 8"
  by (cases m; simp)+

text \<open>A step on a literal representation depends on its mode only through \<open>add_header\<close>.\<close>

lemma parse_step_literal:
  assumes "n < 2 ^ 64"
  shows "parse_step ndebug t (hpack_int (mode_bits m) (mode_octet m) n @ rest) =
    map_sum id (\<lambda>(h, buf). let (h, t) = add_header m h t in ([h], t, buf))
      (decode_literal ndebug t (mode_bits m) (hpack_int (mode_bits m) (mode_octet m) n @ rest))"
  using mode_flags[OF assms, of m]
  by (cases m)
    (auto simp: parse_step_eq octet_flags first_octet decode_literal_incremental_def
      decode_literal_never_indexed_def decode_literal_without_indexing_def map_sum_def Let_def
      split: sum.splits)

lemma parse_step_rep:
  assumes "rep_fits r"
  shows "parse_step ndebug t (rep_bytes r @ rest) =
    (case rep_apply t r of None \<Rightarrow> Inl Out_of_range | Some (h, t') \<Rightarrow> Inr ([h], t', rest))"
proof (cases r)
  case (Indexed i)
  then have i: "i < 2 ^ 32" "i < 2 ^ 64" using assms by simp_all
  have "bit (hpack_int 7 0x80 i ! 0) 7" using hpack_int_high_bits[OF i(2), of 7 7 "0x80"] by simp
  then have "parse_step ndebug t (rep_bytes r @ rest)
      = map_sum id (\<lambda>(h, buf). ([h], t, buf)) (decode_indexed t (hpack_int 7 0x80 i @ rest))"
    by (simp add: Indexed parse_step_eq octet_flags first_octet)
  also have "\<dots> = (case entry_at t i of None \<Rightarrow> Inl Out_of_range | Some h \<Rightarrow> Inr ([h], t, rest))"
    using i by (simp add: decode_indexed_def read_number_int ucast_of_nat_u64 table_get_entry split: option.splits)
  finally show ?thesis by (simp add: Indexed split: option.splits)
next
  case (Literal_indexed m i v)
  then have i: "0 < i" "i < 2 ^ 32" "i < 2 ^ 64" and v: "fits (hstring_text v)" using assms by simp_all
  have nz: "(of_nat i :: u64) \<noteq> 0" using i by (simp add: word_unat_eq_iff unat_of_nat)
  have "decode_literal ndebug t (mode_bits m) (hpack_int (mode_bits m) (mode_octet m) i @ hstring_bytes v @ rest)
      = (case entry_at t i of None \<Rightarrow> Inl Out_of_range
         | Some h \<Rightarrow> Inr (set_value h (hstring_text v) (hstring_bytes v), rest))"
    using nz by (simp add: decode_literal_def read_number_int[OF mode_bits_range i(3)] decode_literal_indexed_def
        ucast_of_nat_u64 table_get_entry[OF i(2)] decode_hstring[OF v] split: option.splits)
  then show ?thesis
    by (simp add: Literal_indexed parse_step_literal[OF i(3)] split_beta Let_def split: option.splits)
next
  case (Literal_new m n v)
  then have n: "fits (hstring_text n)" and v: "fits (hstring_text v)" using assms by simp_all
  have zero: "(0::nat) < 2 ^ 64" by simp
  have "decode_literal ndebug t (mode_bits m)
        (hpack_int (mode_bits m) (mode_octet m) 0 @ hstring_bytes n @ hstring_bytes v @ rest)
      = Inr (mk_header (hstring_text n) (hstring_text v) (hstring_bytes n) (hstring_bytes v) False, rest)"
    by (simp add: decode_literal_def read_number_int[OF mode_bits_range zero] decode_hstring[OF n]
        decode_hstring[OF v])
  then show ?thesis
    by (simp add: Literal_new parse_step_literal[OF zero] split_beta Let_def)
qed

lemma parse_headers_reps:
  assumes "\<forall>r\<in>set rs. rep_fits r"
  shows "reps_apply t rs = Some (hs, t') \<Longrightarrow>
    parse_headers ndebug t (concat (map rep_bytes rs) @ rest) acc = parse_headers ndebug t' rest (acc @ hs)"
  using assms
proof (induction rs arbitrary: t hs acc)
  case (Cons r rs)
  obtain h t1 where r: "rep_apply t r = Some (h, t1)"
    using Cons.prems(1) by (auto split: option.splits)
  then obtain hs' where rs: "reps_apply t1 rs = Some (hs', t')" and hs: "hs = h # hs'"
    using Cons.prems(1) by auto
  have "parse_step ndebug t (rep_bytes r @ concat (map rep_bytes rs) @ rest)
      = Inr ([h], t1, concat (map rep_bytes rs) @ rest)"
    using parse_step_rep[of r ndebug t] r Cons.prems(2) by simp
  then show ?case using Cons.IH[OF rs, of "acc @ [h]"] Cons.prems(2) rep_nonempty[of r]
    by (simp add: parse_headers.simps[of ndebug t] hs)
qed simp

text \<open>C8: A header block that is any sequence of indexed fields and literal fields (raw or
  Huffman coded, new or indexed names, with, without or never indexing) is decoded to the
  headers it stands for, in order, and leaves the dynamic table that RFC 7541 prescribes for
  it: all but the table size updates of the format.\<close>

theorem parse_headers_correct:
  assumes "\<forall>r\<in>set rs. rep_fits r" "reps_apply t rs = Some (hs, t')"
  shows "parse_headers ndebug t (concat (map rep_bytes rs)) [] = (Inr hs, t')"
  using parse_headers_reps[OF assms, of ndebug "[]" "[]"]
  by (simp add: parse_headers.simps[of ndebug t' "[]"])

theorem parse_headers_correct_witness:
  "fst (parse_headers True dt_new [0x82, 0x40, 0x01, 0x61, 0x01, 0x62, 0xbe] [])
   = Inr [mk_header (map of_char '':method'') (map of_char ''GET'') [] [] False,
          mk_header [0x61] [0x62] [1, 0x61] [1, 0x62] False,
          mk_header [0x61] [0x62] [1, 0x61] [1, 0x62] False]"
proof -
  let ?rs = "[Indexed 2, Literal_new Incremental (Raw [0x61]) (Raw [0x62]), Indexed 62]"
  let ?h = "mk_header [0x61] [0x62] [1, 0x61] [1, 0x62] False"
  have e: "evict 4096 34 [] = []" by (simp add: evict.simps)
  have "reps_apply dt_new ?rs = Some ([mk_header (map of_char '':method'') (map of_char ''GET'') [] [] False, ?h, ?h],
      dt_insert ?h dt_new)"
    by (simp add: entry_at_def static_table_def dt_new_def dt_insert_def hpack_size_def mk_header_def
        hpack_int_def e)
  from parse_headers_correct[OF _ this, of True] show ?thesis
    by (simp add: fits_def hpack_int_def mask_eq_exp_minus_1)
qed

text \<open>A representation that names an index beyond both tables (or index 0) makes
  \<open>parseHeaders\<close> throw \<open>out_of_range\<close>; the representations before it have taken effect on
  the table.\<close>

lemma parse_headers_bad_index:
  assumes "\<forall>r\<in>set (rs @ [r]). rep_fits r" "reps_apply t rs = Some (hs, t')" "rep_apply t' r = None"
  shows "parse_headers ndebug t (concat (map rep_bytes rs) @ rep_bytes r @ rest) [] = (Inl Out_of_range, t')"
proof -
  have "parse_step ndebug t' (rep_bytes r @ rest) = Inl Out_of_range"
    using parse_step_rep[of r ndebug t' rest] assms by simp
  moreover have "rep_bytes r @ rest \<noteq> []" using rep_nonempty by simp
  ultimately have "parse_headers ndebug t' (rep_bytes r @ rest) hs = (Inl Out_of_range, t')"
    by (subst parse_headers.simps) simp
  then show ?thesis
    using parse_headers_reps[of rs t hs t' ndebug "rep_bytes r @ rest" "[]"] assms by simp
qed

lemma parse_headers_bad_index_witness:
  "fst (parse_headers True dt_new [0x82, 0xbe] []) = Inl Out_of_range"
proof -
  have "reps_apply dt_new [Indexed 2]
      = Some ([mk_header (map of_char '':method'') (map of_char ''GET'') [] [] False], dt_new)"
    by (simp add: entry_at_def static_table_def)
  from parse_headers_bad_index[OF _ this, of "Indexed 62" True "[]"] show ?thesis
    by (simp add: hpack_int_def mask_eq_exp_minus_1 entry_at_def dt_new_def)
qed

end
