(* ===== verification/Hpack_Limits.thy ===== *)
theory Hpack_Limits
  imports Hpack_Blocks
begin

text \<open>
  The header code of \<open>src/dependencies/hpack/header.cpp\<close> on arbitrary input: no block makes
  the decoder access memory out of bounds, the dynamic table stays within its limit, and the
  places where the code leaves RFC 7541 (table size updates, truncated indices).  Then the
  strings that \<open>hpack_encode_string\<close> produces: the shorter of the two literals, where the
  buffer it allocates is large enough.
\<close>

section \<open>No undefined behaviour\<close>

lemma huffman_decode_defined: "1 \<le> k \<Longrightarrow> k \<le> 8 \<Longrightarrow> huffman_decode (Some buf) k (Some d) \<noteq> None"
  by (simp add: huffman_decode_outcome)

lemma read_number_defined: "read_number bits buf \<noteq> Inl Undefined"
  by (simp add: read_number_eq split_beta)

lemma decode_string_defined: "decode_string ndebug buf \<noteq> Inl Undefined"
  using read_number_defined[of 7 buf]
  by (auto simp: decode_string_eq decode_huff_string_eq decode_raw_string_eq Let_def
      huffman_decode_defined split: sum.splits option.splits)

lemma table_get_defined: "table_get t index \<noteq> Inl Undefined"
proof (cases "index < 62")
  case True
  then have "unat index < 62" by (simp add: word_less_nat_alt)
  then show ?thesis using True
    by (simp add: table_get_def static_get_eq length_static_table split_beta)
qed (simp add: table_get_def dt_get_eq)

lemma dt_resize_defined: "dt_resize ndebug n t \<noteq> Inl Undefined"
  using shrink_removes[of 0 "entries t" "dt_hpack_size (entries t)" ndebug n]
  by (auto simp: dt_resize_def dt_hpack_size_word split: sum.splits)

lemma map_sum_Inl: "map_sum f g x = Inl e \<longleftrightarrow> (\<exists>e'. x = Inl e' \<and> f e' = e)"
  by (cases x) auto

lemma decode_literal_defined: "decode_literal ndebug t bits buf \<noteq> Inl Undefined"
  using read_number_defined[of bits buf] table_get_defined decode_string_defined
  unfolding decode_literal_def decode_literal_indexed_def
  by (auto split: sum.splits prod.splits if_splits)

lemma parse_step_defined:
  assumes "buf \<noteq> []"
  shows "parse_step ndebug t buf \<noteq> Inl Undefined"
proof -
  have "decode_indexed t buf \<noteq> Inl Undefined"
    using read_number_defined[of 7 buf] table_get_defined
    by (auto simp: decode_indexed_def map_sum_Inl split: sum.splits)
  moreover have "decode_literal_incremental ndebug t buf \<noteq> Inl Undefined"
    using decode_literal_defined[of ndebug t 6 buf]
    by (auto simp: decode_literal_incremental_def split: sum.splits)
  moreover have "dynamic_table_resize ndebug t buf \<noteq> Inl Undefined"
    using read_number_defined[of 5 buf] dt_resize_defined
    by (auto simp: dynamic_table_resize_eq map_sum_Inl split: sum.splits)
  ultimately show ?thesis
    using assms decode_literal_defined[of ndebug t 4 buf]
    by (auto simp: parse_step_eq decode_literal_without_indexing_def decode_literal_never_indexed_def map_sum_Inl)
qed

text \<open>\<open>decode_number\<close> indexes with \<open>!\<close>; what it reads does not depend on what lies behind the octets it
  is given, so it reads nothing of that.\<close>

lemma decode_loop_local:
  "decode_loop (buf @ beyond) (length buf) i mult number = decode_loop buf (length buf) i mult number"
proof (induction buf "length buf" i mult number rule: decode_loop.induct)
  case (1 buf i mult number)
  then show ?case
    by (subst (1 2) decode_loop.simps) (simp add: nth_append Let_def)
qed

lemma decode_number_local:
  "decode_number (Some (buf @ beyond)) (length buf) bits number = decode_number (Some buf) (length buf) bits number"
  using decode_loop_local[of buf beyond]
  by (simp add: decode_number_def nth_append Let_def split: option.split)

lemma parse_headers_in_bounds: "fst (parse_headers ndebug t buf acc) \<noteq> Inl Undefined"
proof (induction ndebug t buf acc rule: parse_headers.induct)
  case (1 ndebug t buf acc)
  show ?case
  proof (cases "buf = []")
    case True
    then show ?thesis by (subst parse_headers.simps) simp
  next
    case False
    then show ?thesis
      using "1.IH"[OF False] parse_step_defined[OF False, of ndebug t]
      by (auto simp: parse_headers.simps[of ndebug t buf] split: sum.splits)
  qed
qed

text \<open>C16: Whatever octets the peer sends, and whatever the dynamic table holds,
  \<open>parseHeaders\<close> returns or throws: no \<open>[]\<close>, copy or \<open>subspan\<close> of \<open>header.cpp\<close> and no access of the
  Huffman decoder is out of bounds, and \<open>decode_number\<close> does not read behind the octets it is given.\<close>

theorem parse_headers_defined:
  "fst (parse_headers ndebug t buf acc) \<noteq> Inl Undefined
    \<and> decode_number (Some (buf @ beyond)) (length buf) bits number = decode_number (Some buf) (length buf) bits number"
  using parse_headers_in_bounds decode_number_local by blast


section \<open>The limit of the dynamic table\<close>

text \<open>
  The interface a block decoder has to its table: what it may do to the table while it reads
  one block.  The law is that an insertion keeps the invariant as long as there is room to
  count in, and costs at most the size of the header.
\<close>

locale header_store =
  fixes inv :: "'t \<Rightarrow> bool" and weight :: "'t \<Rightarrow> nat" and capacity :: nat
    and insert :: "'h \<Rightarrow> 't \<Rightarrow> 't" and size :: "'h \<Rightarrow> nat"
  assumes insert_inv: "inv t \<Longrightarrow> weight t + size h < capacity \<Longrightarrow> inv (insert h t)"
    and insert_weight: "weight t + size h < capacity \<Longrightarrow> weight (insert h t) \<le> weight t + size h"
begin

lemma inserts_weight:
  "weight t + sum_list (map size hs) < capacity \<Longrightarrow>
     weight (fold insert hs t) \<le> weight t + sum_list (map size hs)"
proof (induction hs arbitrary: t)
  case (Cons h hs)
  have "weight (insert h t) \<le> weight t + size h" using Cons.prems by (intro insert_weight) simp
  then show ?case using Cons.IH[of "insert h t"] Cons.prems by simp
qed simp

lemma inserts_inv:
  "inv t \<Longrightarrow> weight t + sum_list (map size hs) < capacity \<Longrightarrow> inv (fold insert hs t)"
proof (induction hs arbitrary: t)
  case (Cons h hs)
  have "weight (insert h t) \<le> weight t + size h" using Cons.prems by (intro insert_weight) simp
  moreover have "inv (insert h t)" using Cons.prems by (intro insert_inv) auto
  ultimately show ?case using Cons.IH[of "insert h t"] Cons.prems by simp
qed simp

end

interpretation table: header_store dt_ok "\<lambda>t. total (entries t)" "2 ^ 32" dt_insert hsize
  by unfold_locales (use dt_insert_ok dt_insert_total in auto)

text \<open>
  What reading one block adds to the table is bounded by the block: a new header takes its
  name from the block or from a table.
\<close>

definition names_below :: "nat \<Rightarrow> dtable \<Rightarrow> bool" where
  "names_below m t \<longleftrightarrow> (\<forall>h\<in>set (entries t). length (hname h) \<le> m)"

lemma static_names: "\<forall>e\<in>set static_table. length (fst e) \<le> 27"
  by (simp add: static_table_def)

lemma table_get_name:
  assumes "table_get t i = Inr h" "names_below m t" "27 \<le> m"
  shows "length (hname h) \<le> m"
proof (cases "i < 62")
  case True
  then have i: "unat i < length static_table" by (simp add: word_less_nat_alt length_static_table)
  then have "length (fst (static_table ! unat i)) \<le> 27" using static_names nth_mem by blast
  moreover have "hname h = map of_char (fst (static_table ! unat i))"
    using assms(1) True i by (auto simp: table_get_def static_get_eq split_beta mk_header_def split: if_splits)
  ultimately show ?thesis using assms(3) by simp
next
  case False
  then have "h \<in> set (entries t)" using assms(1) by (auto simp: table_get_def dt_get_eq split: if_splits)
  then show ?thesis using assms(2) by (simp add: names_below_def)
qed

lemma decode_string_length:
  assumes "decode_string ndebug buf = Inr ((s, e), rest)"
  shows "length s \<le> 2 * length buf"
proof (cases "(buf ! 0) AND 0x80 = 0")
  case True
  then have "decode_raw_string buf = Inr ((s, e), rest)" using assms by (simp add: decode_string_eq split: if_splits)
  then show ?thesis
    by (auto simp: decode_raw_string_eq Let_def split: sum.splits if_splits dest!: read_number_shorter)
next
  case False
  then have d: "decode_huff_string ndebug buf = Inr ((s, e), rest)"
    using assms by (simp add: decode_string_eq split: if_splits)
  then obtain n p buf' where r: "read_number 7 buf = Inr (n, p, buf')" "unat n \<le> length buf'"
    by (auto simp: decode_huff_string_eq split: sum.splits if_splits)
  let ?c = "take (unat n) buf'"
  obtain xs pad where t: "huff_text (bytes_bits ?c) = (xs, pad)" by fastforce
  have "5 * length xs \<le> 8 * length ?c + 4"
    using huff_text_length[of "bytes_bits ?c"] t by simp
  then have "length xs \<le> 2 * length ?c" by linarith
  moreover have "length ?c \<le> length buf" using read_number_shorter[OF r(1)] by simp
  moreover have "length s \<le> length xs"
    using d r t huffman_decode_outcome[of 8 ?c "replicate (unat (n * 8 div 5 + 1)) 0"]
    by (auto simp: decode_huff_string_eq huff_outcome_def string_resize_def Let_def split: if_splits)
  ultimately show ?thesis by linarith
qed

lemma decode_literal_size:
  assumes "decode_literal ndebug t bits buf = Inr (h, rest)" "bits \<le> 8"
    and m: "names_below m t" "27 \<le> m" "2 * length buf \<le> m"
  shows "length (hname h) \<le> m \<and> length (hvalue h) \<le> m"
proof -
  obtain idx p buf1 where r: "read_number bits buf = Inr (idx, p, buf1)"
    using assms(1) by (auto simp: decode_literal_def split: sum.splits)
  have l1: "length buf1 < length buf" using read_number_shorter[OF r assms(2)] .
  show ?thesis
  proof (cases "idx = 0")
    case True
    then obtain n ne buf2 v ve where s: "decode_string ndebug buf1 = Inr ((n, ne), buf2)"
      "decode_string ndebug buf2 = Inr ((v, ve), rest)" "h = mk_header n v ne ve False"
      using assms(1) r by (auto simp: decode_literal_def split: sum.splits)
    then show ?thesis
      using decode_string_length[OF s(1)] decode_string_length[OF s(2)] decode_string_shorter[OF s(1)] l1 m(3)
      by (simp add: mk_header_def)
  next
    case False
    then obtain h0 v ve where s: "table_get t (ucast idx) = Inr h0"
      "decode_string ndebug buf1 = Inr ((v, ve), rest)" "h = set_value h0 v ve"
      using assms(1) r by (auto simp: decode_literal_def decode_literal_indexed_def split: sum.splits)
    then show ?thesis
      using table_get_name[OF s(1) m(1,2)] decode_string_length[OF s(2)] l1 m(3)
      by (simp add: set_value_def)
  qed
qed

text \<open>What a step can do to the table.\<close>

lemma parse_step_table:
  assumes "parse_step ndebug t buf = Inr (hs, t', rest)"
    and m: "names_below m t" "27 \<le> m" "2 * length buf \<le> m"
  shows "t' = t \<or> (\<exists>h. t' = dt_insert h t \<and> length (hname h) \<le> m \<and> length (hvalue h) \<le> m)
    \<or> (\<exists>n. dt_resize ndebug n t = Inr t')"
proof -
  have "t' = t \<or> (\<exists>h rest'. decode_literal ndebug t 6 buf = Inr (h, rest') \<and> t' = dt_insert h t)
    \<or> (\<exists>n. dt_resize ndebug n t = Inr t')"
    using assms(1)
    by (auto simp: parse_step_eq decode_literal_incremental_def dynamic_table_resize_eq map_sum_def
        split: if_splits sum.splits)
  then show ?thesis using decode_literal_size[of ndebug t 6 buf, OF _ _ m] by fastforce
qed

lemma evict_take: "\<exists>n. evict limit newh t = take n t"
proof (induction limit newh t rule: evict.induct)
  case (1 limit newh t)
  show ?case
  proof (cases "limit < dt_hpack_size t + newh \<and> t \<noteq> []")
    case True
    then obtain n where "evict limit newh (butlast t) = take n (butlast t)" using 1 by blast
    then have "evict limit newh t = take (min n (length t - 1)) t"
      using True by (subst evict.simps) (simp add: butlast_conv_take min.commute)
    then show ?thesis by blast
  next
    case False
    then have "evict limit newh t = take (length t) t" by (subst evict.simps) (simp only: if_False take_all order_refl)
    then show ?thesis by blast
  qed
qed

lemma dt_insert_names: "names_below m t \<Longrightarrow> length (hname h) \<le> m \<Longrightarrow> names_below m (dt_insert h t)"
  using evict_take[of "size_octets t" "hpack_size h" "entries t"]
  by (auto simp: names_below_def dt_insert_def dest!: in_set_takeD)

lemma total_take: "total (take n t) \<le> total t"
  by (metis append_take_drop_id le_add1 total_simps(3))

lemma dt_resize_ok:
  assumes "dt_resize ndebug n t = Inr t'" "dt_ok t"
  shows "dt_ok t' \<and> total (entries t') \<le> total (entries t) \<and> (names_below m t \<longrightarrow> names_below m t')"
proof (cases "size_octets t \<le> n")
  case True
  then show ?thesis using assms by (auto simp: dt_resize_def dt_ok_def names_below_def word_le_nat_alt)
next
  case False
  then obtain k where "t' = t\<lparr>entries := take k (entries t)\<rparr>"
    using assms(1) by (auto simp: dt_resize_def split: sum.splits)
  then show ?thesis using total_take[of k "entries t"] assms(2)
    by (auto simp: dt_ok_def names_below_def dest: in_set_takeD)
qed

text \<open>C17: Reading a header block keeps the dynamic table within its limit.  The side
  conditions rule out that 32-bit sums wrap: they hold for every block and table of a size
  that frames allow.\<close>

theorem parse_headers_table_ok:
  assumes "dt_ok t" "names_below m t" "27 \<le> m" "2 * length buf \<le> m"
    and "total (entries t) + length buf * (32 + 2 * m) < 2 ^ 32"
  shows "dt_ok (snd (parse_headers ndebug t buf acc))"
  using assms
proof (induction ndebug t buf acc rule: parse_headers.induct)
  case (1 ndebug t buf acc)
  show ?case
  proof (cases "buf = [] \<or> (\<exists>e. parse_step ndebug t buf = Inl e)")
    case True
    then show ?thesis using "1.prems"(1) by (subst parse_headers.simps) auto
  next
    case False
    then obtain hs t' rest where step: "parse_step ndebug t buf = Inr (hs, t', rest)" and ne: "buf \<noteq> []"
      by (cases "parse_step ndebug t buf") auto
    define c where "c = 32 + 2 * m"
    have "length rest + 1 \<le> length buf" using parse_step_shorter[OF step] by simp
    then have "(length rest + 1) * c \<le> length buf * c" by (rule mult_le_mono1)
    then have fuel: "c + length rest * c \<le> length buf * c" by simp
    have sum: "total (entries t) + length buf * c < 2 ^ 32" using "1.prems"(5) by (simp add: c_def)
    have t': "dt_ok t' \<and> names_below m t' \<and> total (entries t') \<le> total (entries t) + c"
      using parse_step_table[OF step "1.prems"(2,3,4)]
    proof (elim disjE exE conjE)
      fix h assume h: "t' = dt_insert h t" "length (hname h) \<le> m" "length (hvalue h) \<le> m"
      have "hsize h \<le> c" using h by (simp add: hsize_def c_def)
      then have "total (entries t) + hsize h < 2 ^ 32" using sum fuel by linarith
      then show ?thesis
        using table.insert_inv[OF "1.prems"(1)] table.insert_weight dt_insert_names[OF "1.prems"(2) h(2)] h(1) \<open>hsize h \<le> c\<close>
        by fastforce
    next
      fix n assume "dt_resize ndebug n t = Inr t'"
      from dt_resize_ok[OF this "1.prems"(1)] show ?thesis using "1.prems"(2) by (simp add: trans_le_add1)
    qed (use "1.prems"(1,2) in simp)
    then have "total (entries t') + length rest * (32 + 2 * m) < 2 ^ 32"
      using sum fuel by (simp add: c_def)
    moreover have "2 * length rest \<le> m" using "1.prems"(4) parse_step_shorter[OF step] by simp
    ultimately have "dt_ok (snd (parse_headers ndebug t' rest (acc @ hs)))"
      using "1.IH"[OF ne step refl refl] t' "1.prems"(3) by blast
    then show ?thesis using ne step by (subst parse_headers.simps) simp
  qed
qed

theorem parse_headers_table_ok_witness:
  "dt_ok (snd (parse_headers True dt_new [0x40, 0x01, 0x61, 0x01, 0x62] []))"
  by (rule parse_headers_table_ok[of _ 27]) (simp_all add: dt_new_def dt_ok_def names_below_def)


section \<open>Where the decoder leaves the RFC\<close>

text \<open>Indices are truncated to 32 bits: an indexed field with the index \<open>n\<close> is looked up
  as \<open>n\<close> modulo 2^32, so indices that are out of range for RFC 7541 name table entries.\<close>

lemma decode_indexed_truncates:
  assumes "n < 2 ^ 64"
  shows "decode_indexed t (hpack_int 7 0x80 n @ rest) =
    (case entry_at t (n mod 2 ^ 32) of None \<Rightarrow> Inl Out_of_range | Some h \<Rightarrow> Inr (h, rest))"
proof -
  have "(of_nat n :: u32) = of_nat (n mod 2 ^ 32)" by (simp add: word_unat_eq_iff unat_of_nat)
  then have "table_get t (of_nat n) = (case entry_at t (n mod 2 ^ 32) of None \<Rightarrow> Inl Out_of_range | Some h \<Rightarrow> Inr h)"
    using table_get_entry[of "n mod 2 ^ 32" t] by simp
  then show ?thesis
    using assms by (simp add: decode_indexed_def read_number_int ucast_of_nat_u64 split: option.splits)
qed

lemma decode_indexed_truncates_witness:
  "decode_indexed dt_new [0xff, 0x83, 0xff, 0xff, 0xff, 0x0f]
   = Inr (mk_header (map of_char '':method'') (map of_char ''GET'') [] [] False, [])"
proof -
  have "hpack_int 7 0x80 (2 ^ 32 + 2) = [0xff, 0x83, 0xff, 0xff, 0xff, 0x0f]"
    by (simp add: hpack_int_def venc.simps mask_eq_exp_minus_1)
  then show ?thesis
    using decode_indexed_truncates[of "2 ^ 32 + 2" dt_new "[]"]
    by (simp add: entry_at_def static_table_def)
qed

text \<open>A dynamic table size update is taken only if bit 1 of its first octet is set (the
  code tests 0x02 where the format has 0x20): updates to 0, 1, 4, 5 and so on throw
  \<open>logic_error\<close>; the others, and all to 31 or more, reach \<open>resize\<close>.\<close>

lemma dynamic_table_resize_accepts:
  assumes "n < 2 ^ 32"
  shows "dynamic_table_resize ndebug t (hpack_int 5 0x20 n @ rest) =
    (if n < 31 \<and> even (n div 2) then Inl Logic_error
     else map_sum id (\<lambda>t. (t, rest)) (dt_resize ndebug (of_nat n) t))"
proof -
  have two: "(x AND 2 = 2) = bit x 1" for x :: byte
  proof -
    have "x AND 2 ^ 1 = (if bit x 1 then 2 ^ 1 else 0)"
      using and_exp_eq_0_iff_not_bit[of x 1] by (auto intro!: bit_word_eqI simp: bit_simps)
    then show ?thesis by (auto split: if_splits)
  qed
  have c: "bit (0x20 :: byte) 1 = False" by simp
  have "bit (hpack_int 5 0x20 n ! 0) 1 \<longleftrightarrow> \<not> (n < 31 \<and> even (n div 2))"
  proof (cases "n < 31")
    case True
    have "bit (0x20 AND NOT (mask 5) :: byte) 1 = False" by (simp add: bit_and_iff c)
    moreover have "bit (of_nat n :: byte) 1 = bit n 1" by (simp add: bit_of_nat_iff)
    moreover have "bit n 1 \<longleftrightarrow> odd (n div 2)" by (simp add: bit_iff_odd)
    ultimately show ?thesis using True by (simp add: hpack_int_def bit_or_iff del: bit_and_iff)
  next
    case False
    then show ?thesis by (simp add: hpack_int_def bit_or_iff bit_mask_iff)
  qed
  then have first: "((hpack_int 5 0x20 n @ rest) ! 0) AND 2 = 2 \<longleftrightarrow> \<not> (n < 31 \<and> even (n div 2))"
    by (simp only: first_octet two)
  show ?thesis
    using assms by (simp add: dynamic_table_resize_eq first read_number_int ucast_of_nat_u64)
qed

lemma dynamic_table_resize_accepts_witness:
  "parse_headers True dt_new [0x20] [] = (Inl Logic_error, dt_new)"
proof -
  have "dynamic_table_resize True dt_new [0x20] = Inl Logic_error"
    using dynamic_table_resize_accepts[of 0 True dt_new "[]"]
    by (simp add: hpack_int_def mask_eq_exp_minus_1)
  then show ?thesis by (subst parse_headers.simps) (simp add: parse_step_eq)
qed


section \<open>Encoding strings\<close>

lemma length_hpack_int_prefix: "length (hpack_int p b n) = length (hpack_int p c n)"
  by (simp add: hpack_int_def)

lemma hpack_int_prefix_short: "n < 2 ^ 63 \<Longrightarrow> length (hpack_int 7 b n) \<le> 10"
proof -
  assume "n < 2 ^ 63"
  then have "n - 127 < 128 ^ 9" by simp
  then have "length (venc (n - 127)) \<le> 9" by (rule length_venc_le) simp
  then show ?thesis by (simp add: hpack_int_def)
qed

text \<open>The raw literal as the code builds it: the bit above the length is left over from the
  uninitialised array.\<close>

definition raw_literal :: "byte \<Rightarrow> byte list \<Rightarrow> byte list" where
  "raw_literal b s = hpack_int 7 b (length s) @ s"

lemma hpack_encode_string_cases:
  assumes et: "generated_etable et" and num: "length num = 10" "length raw_num = 10"
    and len: "length s + 10 < 2 ^ 32"
  shows "length (hpack_huff_string s) \<le> length s + 10 \<or> length s + 10 \<le> length (pack (text_bits s)) \<Longrightarrow>
      hpack_encode_string et num raw_num s = Inr
        (if length (raw_literal (hd raw_num) s) < length (hpack_huff_string s)
         then raw_literal (hd raw_num) s else hpack_huff_string s)"
    and "length (pack (text_bits s)) < length s + 10 \<Longrightarrow> length s + 10 < length (hpack_huff_string s) \<Longrightarrow>
      hpack_encode_string et num raw_num s = Inl Undefined"
proof -
  let ?buf = "replicate (10 + length s) (0 :: byte)"
  let ?h = "hpack_int 7 (hd raw_num) (length s)"
  have small: "length ?buf + 10 \<le> SSIZE_MAX" using len by (simp add: SSIZE_MAX_def)
  note enc = huffman_encode_cases[OF et num(1) small, of s]
  show "hpack_encode_string et num raw_num s = Inl Undefined"
    if "length (pack (text_bits s)) < length s + 10" "length s + 10 < length (hpack_huff_string s)"
    using enc(2) that by (simp add: hpack_encode_string_def)
  have ten: "length ?h \<le> 10" using len by (intro hpack_int_prefix_short) simp
  have u: "unat (of_nat (length s) :: u64) = length s" using len by (simp add: unat_of_nat)
  have encn: "encode_number (of_nat (length s)) 7 (Some raw_num) 10
      = (int (length ?h), Some (?h @ drop (length ?h) raw_num))"
    using encode_number_spec[of 7 10 raw_num "of_nat (length s)"] num(2) ten by (simp add: u)
  have wrap: "unat (of_nat (length ?h + length s) :: u32) = length ?h + length s"
    using ten len by (simp add: unat_of_nat del: of_nat_add)
  have uwrap: "uint (of_nat (length ?h + length s) :: u32) = int (length ?h + length s)"
    using arg_cong[OF wrap, of int] by (simp del: of_nat_add)
  have raw: "raw_literal (hd raw_num) s = ?h @ s" by (simp add: raw_literal_def)
  have pos: "0 < length ?h" by (rule length_hpack_int_pos)
  show "hpack_encode_string et num raw_num s = Inr
        (if length (raw_literal (hd raw_num) s) < length (hpack_huff_string s)
         then raw_literal (hd raw_num) s else hpack_huff_string s)"
    if "length (hpack_huff_string s) \<le> length s + 10 \<or> length s + 10 \<le> length (pack (text_bits s))"
  proof (cases "length (hpack_huff_string s) \<le> length s + 10")
    case True
    let ?o = "hpack_huff_string s"
    have o: "huffman_encode et num s ?buf = Some (int (length ?o), ?o @ drop (length ?o) ?buf)"
      using enc(1) True by simp
    have opos: "0 < length ?o" by (simp add: hpack_huff_string_def Let_def)
    have "hpack_encode_string et num raw_num s =
        (if length ?o \<le> length s then Inr ?o
         else if length ?h + length s < length ?o then Inr (?h @ s) else Inr ?o)"
      using opos unfolding hpack_encode_string_def o
      by (simp add: encn wrap uwrap string_resize_def Let_def del: of_nat_add)
    then show ?thesis using pos by (simp add: raw)
  next
    case False
    then have big: "length ?buf \<le> length (pack (text_bits s))" using that by simp
    then obtain b where o: "huffman_encode et num s ?buf = Some (-1, b)"
      using enc(3) by (cases "huffman_encode et num s ?buf") auto
    have "hpack_encode_string et num raw_num s = Inr (?h @ s)"
      unfolding hpack_encode_string_def o by (simp add: encn wrap Let_def del: of_nat_add)
    moreover have "length (?h @ s) < length (hpack_huff_string s)"
      using False ten by simp
    ultimately show ?thesis by (simp add: raw)
  qed
qed

text \<open>C27: \<open>hpack_encode_string\<close> returns the shorter of the Huffman-coded and the raw
  literal (the Huffman-coded one when they are equal), whenever the Huffman-coded literal
  fits in the buffer of ten octets more than the text or its code alone is longer than that.\<close>

theorem hpack_encode_string_shorter:
  assumes "generated_etable et" "length num = 10" "length raw_num = 10" "length s + 10 < 2 ^ 32"
    and "length (hpack_huff_string s) \<le> length s + 10 \<or> length s + 10 \<le> length (pack (text_bits s))"
  shows "hpack_encode_string et num raw_num s = Inr
    (if length (raw_literal (hd raw_num) s) < length (hpack_huff_string s)
     then raw_literal (hd raw_num) s else hpack_huff_string s)"
  using assms by (rule hpack_encode_string_cases(1))

lemma huff_string_nul: "length (hpack_huff_string [0]) = 3"
  by (simp add: hpack_huff_string_def hpack_int_def Let_def length_pack length_symbol_bits code_of_eqs)

theorem hpack_encode_string_shorter_witness:
  "hpack_encode_string huff_etable (replicate 10 7) (replicate 10 0) [0] = Inr [0x01, 0x00]"
  using hpack_encode_string_shorter[of huff_etable "replicate 10 7" "replicate 10 0" "[0]"]
  by (simp add: generated_etable_eq huff_string_nul raw_literal_def hpack_int_def)

lemma raw_literal_clear:
  assumes "\<not> bit b 7"
  shows "raw_literal b s = hpack_int 7 0 (length s) @ s"
proof -
  have split: "i = 7 \<or> i < 7" if "i < LENGTH(8)" for i using that by auto
  have "b AND NOT (mask 7) = 0"
    by (rule bit_word_eqI, drule split) (use assms in \<open>auto simp: bit_simps\<close>)
  moreover have "b OR mask 7 = mask 7"
    by (rule bit_word_eqI, drule split) (use assms in \<open>auto simp: bit_simps\<close>)
  ultimately show ?thesis by (simp add: raw_literal_def hpack_int_def)
qed

text \<open>C28: Round trip, as far as it holds: when the Huffman literal is chosen, or the top bit of the
  octet that \<open>hpack_encode_string\<close> leaves uninitialised happens to be clear, the octets it returns
  are decoded to the text by \<open>decode_string_from_rbuf\<close>, which leaves exactly what follows them.
  Otherwise they are the octets of the text, marked as Huffman coded.\<close>

theorem hpack_string_roundtrip:
  assumes et: "generated_etable et" and num: "length num = 10" "length raw_num = 10"
    and len: "length s + 10 < 2 ^ 32" and enc: "hpack_encode_string et num raw_num s = Inr e"
  shows "if e = hpack_huff_string s \<or> \<not> bit (hd raw_num) 7
    then decode_string ndebug (e @ rest) = Inr ((s, e), rest)
    else (e ! 0) AND 0x80 \<noteq> 0 \<and> drop (length e - length s) e = s"
proof -
  have e: "e = raw_literal (hd raw_num) s \<or> e = hpack_huff_string s"
  proof (cases "length (hpack_huff_string s) \<le> length s + 10 \<or> length s + 10 \<le> length (pack (text_bits s))")
    case True
    then show ?thesis using hpack_encode_string_cases(1)[OF et num len] enc by (auto split: if_splits)
  next
    case False
    then show ?thesis using hpack_encode_string_cases(2)[OF et num len] enc by auto
  qed
  have fits: "fits s" using len by (simp add: fits_def)
  have marked: "(raw_literal (hd raw_num) s ! 0) AND 0x80 \<noteq> 0 \<and> drop (length (raw_literal (hd raw_num) s) - length s) (raw_literal (hd raw_num) s) = s"
    if "bit (hd raw_num) 7"
  proof -
    have "bit (hpack_int 7 (hd raw_num) (length s) ! 0) 7" using len that by (simp add: hpack_int_high_bits)
    then show ?thesis by (simp add: raw_literal_def first_octet octet_flags)
  qed
  show ?thesis
    using e fits marked decode_raw_string_bytes[of s ndebug rest] decode_huff_string_bytes[of s ndebug rest]
    by (auto simp: raw_literal_clear)
qed

theorem hpack_string_roundtrip_witness:
  "decode_string True [0x01, 0x00, 0xff] = Inr (([0], [0x01, 0x00]), [0xff])"
proof -
  have "hpack_encode_string huff_etable (replicate 10 7) (replicate 10 0) [0] = Inr [0x01, 0x00]"
    using hpack_encode_string_cases(1)[of huff_etable "replicate 10 7" "replicate 10 0" "[0]"]
    by (simp add: generated_etable_eq huff_string_nul raw_literal_def hpack_int_def)
  from hpack_string_roundtrip[OF _ _ _ _ this, of True "[0xff]"] show ?thesis
    by (simp add: generated_etable_eq)
qed

text \<open>A heap overflow: the buffer of \<open>hpack_encode_string\<close> has ten octets more than the
  text.  A text whose code fits there but not together with a length of two or more octets
  is moved beyond the end of the buffer by \<open>huffman_encode\<close>.\<close>

lemma hpack_encode_string_overflow:
  assumes "generated_etable et" "length num = 10" "length raw_num = 10" "length s + 10 < 2 ^ 32"
    and "length (pack (text_bits s)) < length s + 10" "length s + 10 < length (hpack_huff_string s)"
  shows "hpack_encode_string et num raw_num s = Inl Undefined"
  using assms by (rule hpack_encode_string_cases(2))

lemma hpack_encode_string_overflow_witness:
  "hpack_encode_string huff_etable (replicate 10 0) (replicate 10 0) (replicate 14 0x24 @ replicate 116 0x26)
   = Inl Undefined"
proof -
  let ?s = "replicate 14 0x24 @ replicate 116 0x26 :: byte list"
  have "length (pack (text_bits ?s)) = 139"
    unfolding text_bits_append length_pack length_append
    by (simp add: text_bits_def length_concat_replicate length_symbol_bits code_of_eqs)
  moreover from this have "length (hpack_huff_string ?s) = 141"
    by (simp add: hpack_huff_string_def hpack_int_def Let_def venc.simps)
  ultimately show ?thesis
    using hpack_encode_string_overflow[of huff_etable "replicate 10 0" "replicate 10 0" ?s]
    by (simp add: generated_etable_eq)
qed

text \<open>The array for the length of the raw literal is not initialised, and
  \<open>encode_number\<close> keeps the bit above the prefix: if that bit happens to be set, the raw
  text goes out marked as Huffman coded.\<close>

lemma hpack_encode_string_marks_raw:
  assumes "generated_etable et" "length num = 10" "length raw_num = 10" "length s + 10 < 2 ^ 32"
    and "length (raw_literal (hd raw_num) s) < length (hpack_huff_string s)"
      "length (hpack_huff_string s) \<le> length s + 10" and "bit (hd raw_num) 7"
  shows "\<exists>e. hpack_encode_string et num raw_num s = Inr e \<and> (e ! 0) AND 0x80 \<noteq> 0
    \<and> drop (length e - length s) e = s"
proof -
  have "bit (hpack_int 7 (hd raw_num) (length s) ! 0) 7"
    using assms(4,7) by (simp add: hpack_int_high_bits)
  then show ?thesis
    using hpack_encode_string_cases(1)[OF assms(1-4)] assms(5,6)
    by (simp add: raw_literal_def first_octet octet_flags)
qed

lemma hpack_encode_string_marks_raw_witness:
  "\<exists>e. hpack_encode_string huff_etable (replicate 10 7) (replicate 10 0x80) [0] = Inr e
     \<and> (e ! 0) AND 0x80 \<noteq> 0 \<and> drop (length e - 1) e = [0]"
  using hpack_encode_string_marks_raw[of huff_etable "replicate 10 7" "replicate 10 0x80" "[0]"]
  by (simp add: generated_etable_eq huff_string_nul raw_literal_def hpack_int_def)

text \<open>The cached encoding of a value is computed from the name.\<close>

lemma value_encoded_ignores_value:
  assumes "hvalue_encoded h = []" "hname_encoded h = []"
  shows "map_sum id fst (value_encoded et num raw_num h) = map_sum id fst (name_encoded et num raw_num h)"
  using assms by (simp add: value_encoded_def name_encoded_def split: sum.splits)

end
