(* ===== verification/Http2_Transport.thy ===== *)
theory Http2_Transport
  imports Http2_Frame Input_Loop Hpack_Limits
begin

text \<open>
  The HTTP/2 server transport: \<open>src/http2/ServerTransport.cpp\<close>, \<open>src/http2/ServerStream.h\<close>
  and \<open>ServerStream.cpp\<close>.

  The record \<open>h2\<close> holds the members of \<open>ServerTransport::Impl\<close> (the pointers to the parent,
  the connection and the server, of which only the connection is used, are the calls of a run).
  Handlers that consume input return the remaining content of the buffer.  A stream identifier
  is a word of 31 bits, so the check of the constructor of \<open>ServerStream\<close> always passes.
\<close>

section \<open>Streams\<close>

datatype stream_state =
  Idle | Reserved_local | Reserved_remote | Open | Half_closed_local | Half_closed_remote | Closed

record stream =
  st_id :: "31 word"
  st_window :: int
  st_state :: stream_state
  st_request :: message

definition stream_new :: "31 word \<Rightarrow> stream" where
  "stream_new sid = \<lparr>st_id = sid, st_window = 65535, st_state = Idle, st_request = message_new\<rparr>"

definition stream_add_window_size :: "int \<Rightarrow> stream \<Rightarrow> http_error + stream" where
  "stream_add_window_size n s = map_sum id (\<lambda>w. s\<lparr>st_window := w\<rparr>) (add_window_size (st_window s) n)"

definition stream_subtract_window_size :: "nat \<Rightarrow> stream \<Rightarrow> http_error + stream" where
  "stream_subtract_window_size n s =
     map_sum id (\<lambda>w. s\<lparr>st_window := w\<rparr>) (subtract_window_size (st_window s) n)"

text \<open>\<open>Impl::writeHeadersFrame\<close>, which writes the parts of the frame itself.\<close>

definition write_headers_frame :: "headers_frame \<Rightarrow> unit run" where
  "write_headers_frame f = call (Send_payload [frame_header_octets (hf_header f), hf_fragment f, hf_padding f])"

text \<open>\<open>sendResponse\<close> ignores the response, \<open>onRequest\<close> the request.\<close>

definition stream_send_response :: "response \<Rightarrow> stream \<Rightarrow> unit run" where
  "stream_send_response r s =
     (let hs = headers_frame_new (st_id s);
          hs = hf_set_fragment [0x88] hs;
          hs = hf_set_end_stream True hs
      in write_headers_frame hs)"

definition stream_on_request :: "request \<Rightarrow> stream \<Rightarrow> unit run" where
  "stream_on_request req s = stream_send_response (response_new 200 []) s"


section \<open>The transport\<close>

record h2 =
  h2_local :: settings
  h2_peer :: settings
  h2_table :: dtable
  h2_streams :: "31 word \<Rightarrow> stream option"
  h2_current :: "frame_header option"
  h2_window :: u32
  h2_preface :: bool
  h2_updated :: bool

definition CLIENT_PREFACE :: octets where
  "CLIENT_PREFACE =
     [0x50, 0x52, 0x49, 0x20, 0x2a, 0x20, 0x48, 0x54, 0x54, 0x50, 0x2f, 0x32, 0x2e, 0x30, 0x0d, 0x0a,
      0x0d, 0x0a, 0x53, 0x4d, 0x0d, 0x0a, 0x0d, 0x0a]"

definition decode_base64_settings :: "env \<Rightarrow> octets \<Rightarrow> http_error + settings" where
  "decode_base64_settings e b64 =
     (if 128 < e_fb64_size e (length b64) then Inl E_runtime
      else (case e_fb64 e b64 of
              None \<Rightarrow> Inl E_runtime
            | Some decoded \<Rightarrow> settings_from_buffer (e_char_signed e) decoded))"

definition server_preface :: octets where
  "server_preface = [0, 0, 0, 4, 0, 0, 0, 0, 0]"

text \<open>The constructor, with the value of the \<open>HTTP2-Settings\<close> header on an upgrade.\<close>

definition h2_new :: "env \<Rightarrow> octets option \<Rightarrow> h2 run" where
  "h2_new e http2_settings =
     and_then (case http2_settings of
                 None \<Rightarrow> return settings_default
               | Some b64 \<Rightarrow> lift_sum (decode_base64_settings e b64))
       (\<lambda>peer. and_then (call (Send_raw server_preface))
         (\<lambda>_. return
            \<lparr>h2_local = set_setting ENABLE_PUSH 0 settings_default, h2_peer = peer, h2_table = dt_new,
             h2_streams = Map.empty(1 \<mapsto> stream_new 1), h2_current = None, h2_window = 65535,
             h2_preface = False, h2_updated = False\<rparr>))"

definition h2_get_stream :: "31 word \<Rightarrow> h2 \<Rightarrow> http_error + stream" where
  "h2_get_stream sid s = (case h2_streams s sid of Some st \<Rightarrow> Inr st | None \<Rightarrow> Inl E_runtime)"

definition write_frame :: "frame_header \<Rightarrow> octets \<Rightarrow> unit run" where
  "write_frame h data =
     call (Send_payload [frame_header_octets (h\<lparr>fh_length := of_nat (length data)\<rparr>), data])"

definition h2_end_stream :: "31 word \<Rightarrow> h2 \<Rightarrow> h2" where
  "h2_end_stream sid s = s\<lparr>h2_streams := (h2_streams s)(sid := None)\<rparr>"

definition get_header_value :: "env \<Rightarrow> headers \<Rightarrow> octets \<Rightarrow> octets" where
  "get_header_value e hs name = snd (hdr_get (e_pick e) name hs)"

definition h2_dispatch :: "env \<Rightarrow> stream \<Rightarrow> unit run" where
  "h2_dispatch e st =
     (let meth = get_header_value e (m_headers (st_request st)) (str '':method'');
          path = get_header_value e (m_headers (st_request st)) (str '':path'')
      in stream_on_request \<lparr>rq_message = st_request st, rq_method = meth, rq_path = path\<rparr> st)"


section \<open>Frame handlers\<close>

fun hpack_exception :: "hpack_error \<Rightarrow> http_error" where
  "hpack_exception Out_of_range = E_out_of_range"
| "hpack_exception Runtime_error = E_runtime"
| "hpack_exception Logic_error = E_logic"
| "hpack_exception Length_error = E_length"
| "hpack_exception Assertion_failed = E_assert"
| "hpack_exception Undefined = E_undefined"

text \<open>
  In the handlers a reference to a stream is its identifier: the stream is written back to the
  map, and erased from it, as the code does through the pointer.
\<close>

text \<open>The length of the content of a DATA frame, behind its padding length.\<close>

definition data_content :: "frame_header \<Rightarrow> octets \<Rightarrow> (nat \<times> octets) run" where
  "data_content h buf =
     (if \<not> data_is_padded h then return (unat (fh_length h), buf)
      else if fh_length h = 0 \<or> buf = [] then raise E_runtime
      else
        let pad_length = unat (buf ! 0)
        in and_then (lift_sum (advance 1 buf)) (\<lambda>buf.
             if unat (fh_length h) < pad_length then raise E_runtime
             else return (unat (fh_length h) - pad_length, buf)))"

text \<open>The stream a DATA frame belongs to, charged for it.\<close>

definition data_stream :: "frame_header \<Rightarrow> h2 \<Rightarrow> http_error + stream" where
  "data_stream h s =
     (if fh_stream h = 0 then Inl E_runtime
      else (case h2_get_stream (fh_stream h) s of
              Inl err \<Rightarrow> Inl err
            | Inr st \<Rightarrow>
                if st_state st \<noteq> Open \<and> st_state st \<noteq> Half_closed_local then Inl E_runtime
                else stream_subtract_window_size (unat (fh_length h)) st))"

definition receive_data :: "env \<Rightarrow> frame_header \<Rightarrow> h2 \<Rightarrow> octets \<Rightarrow> (h2 \<times> octets) run" where
  "receive_data e h s buf =
     and_then (lift_sum (data_stream h s)) (\<lambda>st.
       and_then (data_content h buf) (\<lambda>(len, buf).
         if length buf < len then raise E_undefined
         else
           let st = st\<lparr>st_request := (st_request st)\<lparr>m_body := m_body (st_request st) @ take len buf\<rparr>\<rparr>
           in and_then (h2_dispatch e st) (\<lambda>_. return (h2_end_stream (st_id st) s, buf))))"

text \<open>The stream a HEADERS frame belongs to, made when there is none, and the headers added to it.\<close>

definition headers_stream :: "31 word \<Rightarrow> h2 \<Rightarrow> stream" where
  "headers_stream sid s = (case h2_streams s sid of Some st \<Rightarrow> st | None \<Rightarrow> stream_new sid)"

definition accumulate_headers :: "header list \<Rightarrow> stream \<Rightarrow> stream" where
  "accumulate_headers hs st =
     st\<lparr>st_request := (st_request st)\<lparr>m_headers :=
       foldl (\<lambda>m x. hdr_add (hname x) (hvalue x) m) (m_headers (st_request st)) hs\<rparr>\<rparr>"

definition receive_headers :: "env \<Rightarrow> frame_header \<Rightarrow> h2 \<Rightarrow> octets \<Rightarrow> h2 run" where
  "receive_headers e h s buf =
     (if length buf < unat (fh_length h) then raise (if e_ndebug e then E_undefined else E_assert)
      else
        (case parse_headers (e_ndebug e) (h2_table s) (take (unat (fh_length h)) buf) [] of
           (Inl err, table) \<Rightarrow> raise (hpack_exception err)
         | (Inr hs, table) \<Rightarrow>
             let st = accumulate_headers hs (headers_stream (fh_stream h) s)
             in and_then (h2_dispatch e st)
                  (\<lambda>_. return (h2_end_stream (st_id st)
                     (s\<lparr>h2_table := table, h2_streams := (h2_streams s)(fh_stream h \<mapsto> st)\<rparr>)))))"

definition send_ping_response :: "octets \<Rightarrow> unit run" where
  "send_ping_response data =
     (let h = flag_set 0 True (frame_header_new FT_PING);
          h = h\<lparr>fh_length := of_nat (length data)\<rparr>
      in call (Send_payload [frame_header_octets h, data]))"

definition receive_ping :: "frame_header \<Rightarrow> octets \<Rightarrow> octets run" where
  "receive_ping h buf =
     (if is_ping_ack h then return buf
      else if fh_stream h \<noteq> 0 then raise E_runtime
      else if unat (fh_length h) \<noteq> 8 then raise E_runtime
      else if length buf < 8 then return buf
      else and_then (send_ping_response (take 8 buf)) (\<lambda>_. lift_sum (advance 8 buf)))"

definition receive_reset_stream :: "frame_header \<Rightarrow> h2 \<Rightarrow> octets \<Rightarrow> h2 run" where
  "receive_reset_stream h s buf =
     (if unat (fh_length h) \<noteq> 4 then raise E_runtime
      else if fh_stream h = 0 then raise E_runtime
      else if length buf < 4 then raise E_undefined
      else return (h2_end_stream (fh_stream h) s))"

definition ack_settings :: "unit run" where
  "ack_settings = call (Send_payload [frame_header_octets (flag_set 0 True (frame_header_new FT_SETTINGS))])"

definition receive_settings :: "env \<Rightarrow> frame_header \<Rightarrow> h2 \<Rightarrow> octets \<Rightarrow> h2 run" where
  "receive_settings e h s buf =
     (if is_settings_ack h then return s
      else if length buf < unat (fh_length h) then raise E_undefined
      else and_then (lift_sum (settings_from_buffer (e_char_signed e) (take (unat (fh_length h)) buf))) (\<lambda>peer.
        let s = s\<lparr>h2_peer := peer\<rparr>;
            s = (if \<not> h2_updated s then s\<lparr>h2_window := setting_value INITIAL_WINDOW_SIZE peer\<rparr> else s)
        in and_then ack_settings (\<lambda>_. return s)))"

text \<open>The 31 bits of the increment, of which the conversion to \<open>int32_t\<close> keeps the value.\<close>

definition read_window_size :: "octets \<Rightarrow> int" where
  "read_window_size buf =
     uint ((push_bit 24 (ucast (buf ! 0)) OR push_bit 16 (ucast (buf ! 1))
       OR push_bit 8 (ucast (buf ! 2)) OR ucast (buf ! 3) :: u32) AND 0x7fffffff)"

definition add_connection_window_size :: "int \<Rightarrow> h2 \<Rightarrow> h2 run" where
  "add_connection_window_size n s =
     and_then (lift_sum (add_window_size (sint (h2_window s)) n)) (\<lambda>w.
       return (s\<lparr>h2_window := word_of_int w, h2_updated := True\<rparr>))"

definition add_stream_window_size :: "31 word \<Rightarrow> int \<Rightarrow> h2 \<Rightarrow> h2 run" where
  "add_stream_window_size sid n s =
     (case h2_streams s sid of
        None \<Rightarrow> return s
      | Some st \<Rightarrow>
          and_then (lift_sum (stream_add_window_size n st)) (\<lambda>st.
            return (s\<lparr>h2_streams := (h2_streams s)(sid \<mapsto> st)\<rparr>)))"

definition receive_window_update :: "frame_header \<Rightarrow> h2 \<Rightarrow> octets \<Rightarrow> h2 run" where
  "receive_window_update h s buf =
     (if unat (fh_length h) \<noteq> 4 then raise E_runtime
      else if length buf < 4 then raise E_undefined
      else
        let window_size = read_window_size buf
        in if fh_stream h = 0 then add_connection_window_size window_size s
           else add_stream_window_size (fh_stream h) window_size s)"


section \<open>Reading frames\<close>

definition frame_handler :: "env \<Rightarrow> frame_header \<Rightarrow> h2 \<Rightarrow> octets \<Rightarrow> (h2 \<times> octets) run" where
  "frame_handler e h s buf =
     (let keep = (\<lambda>r. and_then r (\<lambda>s. return (s, buf)))
      in if fh_type h = FT_DATA then receive_data e h s buf
         else if fh_type h = FT_HEADERS then keep (receive_headers e h s buf)
         else if fh_type h = FT_PING then and_then (receive_ping h buf) (\<lambda>buf. return (s, buf))
         else if fh_type h = FT_RST_STREAM then keep (receive_reset_stream h s buf)
         else if fh_type h = FT_SETTINGS then keep (receive_settings e h s buf)
         else if fh_type h = FT_WINDOW_UPDATE then keep (receive_window_update h s buf)
         else return (s, buf))"

definition process_frame_body :: "env \<Rightarrow> h2 \<Rightarrow> octets \<Rightarrow> (h2 \<times> octets) run" where
  "process_frame_body e s buf =
     (case h2_current s of
        None \<Rightarrow> raise (if e_ndebug e then E_undefined else E_assert)
      | Some h \<Rightarrow>
          if length buf < unat (fh_length h) then return (s, buf)
          else and_then (frame_handler e h s buf) (\<lambda>(s, buf).
            and_then (lift_sum (advance (unat (fh_length h)) buf)) (\<lambda>buf.
              return (s\<lparr>h2_current := None\<rparr>, buf))))"

definition receive_frame_header :: "env \<Rightarrow> h2 \<Rightarrow> octets \<Rightarrow> (h2 \<times> octets) run" where
  "receive_frame_header e s buf =
     (if length buf < FRAME_HEADER_SIZE then return (s, buf)
      else and_then (lift_sum (read_frame_header (e_char_signed e) buf)) (\<lambda>(h, buf).
        return (s\<lparr>h2_current := Some h\<rparr>, buf)))"

definition receive_frame :: "env \<Rightarrow> h2 \<Rightarrow> octets \<Rightarrow> (bool \<times> h2 \<times> octets) run" where
  "receive_frame e s buf =
     and_then (if h2_current s = None then receive_frame_header e s buf else return (s, buf)) (\<lambda>(s, buf).
       case h2_current s of
         None \<Rightarrow> return (False, s, buf)
       | Some h \<Rightarrow>
           if length buf < unat (fh_length h) then return (False, s, buf)
           else and_then (process_frame_body e s buf) (\<lambda>(s, buf). return (True, s, buf)))"


text \<open>A frame that is processed consumes its header, or turns the one that was read to \<open>None\<close>.\<close>

definition h2_weight :: "h2 \<Rightarrow> octets \<Rightarrow> nat" where
  "h2_weight s buf = 2 * length buf + (if h2_current s = None then 0 else 1)"

lemma advance_Inr: "advance n buf = Inr r \<longleftrightarrow> n \<le> length buf \<and> r = drop n buf"
  by (auto simp: advance_def)

lemma read_frame_header_Inr: "read_frame_header cs buf = Inr (h, r) \<Longrightarrow> r = drop 9 buf"
  by (auto simp: read_frame_header_def Let_def map_sum_def FRAME_HEADER_SIZE_def advance_def
      split: if_splits sum.splits)

lemma data_content_Inr:
  "data_content h buf = (acts, Inr (len, r)) \<longleftrightarrow>
     acts = [] \<and> (if \<not> data_is_padded h then len = unat (fh_length h) \<and> r = buf
       else fh_length h \<noteq> 0 \<and> buf \<noteq> [] \<and> unat (buf ! 0) \<le> unat (fh_length h)
         \<and> len = unat (fh_length h) - unat (buf ! 0) \<and> r = drop 1 buf)"
  by (cases buf) (auto simp: data_content_def and_then_Inr return_def raise_def lift_sum_def advance_Inr Let_def)

lemma receive_data_shorter: "receive_data e h s buf = (acts, Inr (s', r)) \<Longrightarrow> length r \<le> length buf"
  by (auto simp: receive_data_def and_then_Inr return_def raise_def lift_sum_def Let_def data_content_Inr
      split: if_splits)

lemma receive_ping_shorter: "receive_ping h buf = (acts, Inr r) \<Longrightarrow> length r \<le> length buf"
  by (auto simp: receive_ping_def and_then_Inr return_def raise_def lift_sum_def advance_Inr split: if_splits)

lemma frame_handler_shorter: "frame_handler e h s buf = (acts, Inr (s', r)) \<Longrightarrow> length r \<le> length buf"
  by (auto simp: frame_handler_def and_then_Inr return_def Let_def split: if_splits
      dest: receive_data_shorter receive_ping_shorter)

lemma receive_frame_weight:
  assumes "receive_frame e s buf = (acts, Inr (True, s', r))"
  shows "h2_weight s' r < h2_weight s buf"
proof -
  obtain a1 s1 b1 h a2 where hd: "(if h2_current s = None then receive_frame_header e s buf else return (s, buf)) = (a1, Inr (s1, b1))"
    and cur: "h2_current s1 = Some h" and body: "process_frame_body e s1 b1 = (a2, Inr (s', r))"
    using assms by (auto simp: receive_frame_def and_then_Inr return_def split: option.splits if_splits prod.splits)
  have "h2_weight s1 b1 \<le> h2_weight s buf"
    using hd by (auto simp: h2_weight_def receive_frame_header_def FRAME_HEADER_SIZE_def and_then_Inr return_def lift_sum_def
        dest!: read_frame_header_Inr split: if_splits)
  moreover have "h2_weight s' r < h2_weight s1 b1 \<or> (s' = s1 \<and> r = b1 \<and> length b1 < unat (fh_length h))"
    using body cur by (auto simp: h2_weight_def process_frame_body_def and_then_Inr return_def lift_sum_def
        advance_Inr split: if_splits dest!: frame_handler_shorter)
  moreover have "unat (fh_length h) \<le> length b1"
    using assms hd cur by (auto simp: receive_frame_def and_then_Inr return_def split: if_splits)
  ultimately show ?thesis by auto
qed

function receive_frames :: "env \<Rightarrow> h2 \<Rightarrow> octets \<Rightarrow> (h2 \<times> octets) run" where
  "receive_frames e s buf =
     (case receive_frame e s buf of
        (acts, Inl err) \<Rightarrow> (acts, Inl err)
      | (acts, Inr (go, s', rest)) \<Rightarrow>
          if go \<and> rest \<noteq> [] then prepend acts (receive_frames e s' rest) else (acts, Inr (s', rest)))"
  by pat_completeness auto
termination
  by (relation "measure (\<lambda>(e, s, buf). h2_weight s buf)") (auto dest: receive_frame_weight[OF sym])

declare receive_frames.simps [simp del]

definition receive_preface :: "env \<Rightarrow> h2 \<Rightarrow> octets \<Rightarrow> (h2 \<times> octets) run" where
  "receive_preface e s buf =
     (if length buf < length CLIENT_PREFACE then return (s, buf)
      else if take (length CLIENT_PREFACE) buf \<noteq> CLIENT_PREFACE then raise E_runtime
      else and_then (lift_sum (advance (length CLIENT_PREFACE) buf))
             (\<lambda>buf. receive_frames e (s\<lparr>h2_preface := True\<rparr>) buf))"

definition h2_on_input :: "env \<Rightarrow> h2 \<Rightarrow> octets \<Rightarrow> (h2 \<times> octets) run" where
  "h2_on_input e s buf =
     and_then (if \<not> h2_preface s then receive_preface e s buf else return (s, buf))
       (\<lambda>(s, buf). receive_frames e s buf)"


section \<open>Cutting the input into pieces\<close>

lemma read_frame_header_append:
  assumes "read_frame_header cs buf = Inr (h, r)"
  shows "read_frame_header cs (buf @ xs) = Inr (h, r @ xs)"
proof -
  have "9 \<le> length buf" using assms by (auto simp: read_frame_header_def FRAME_HEADER_SIZE_def split: if_splits)
  then have "buf \<noteq> []" "9 \<le> length buf" by auto
  then show ?thesis
    using assms by (simp add: read_frame_header_def FRAME_HEADER_SIZE_def advance_def Let_def nth_append)
qed

lemma data_content_append:
  "data_content h buf = ([], Inr (len, r)) \<Longrightarrow> data_content h (buf @ xs) = ([], Inr (len, r @ xs))"
  by (cases buf) (auto simp: data_content_Inr split: if_splits)

lemma receive_data_append:
  assumes "receive_data e h s buf = (acts, Inr (s', r))"
  shows "receive_data e h s (buf @ xs) = (acts, Inr (s', r @ xs))"
proof -
  obtain st len r1 where st: "data_stream h s = Inr st" and c: "data_content h buf = ([], Inr (len, r1))"
    using assms by (auto simp: receive_data_def and_then_Inr lift_sum_def data_content_Inr)
  then show ?thesis
    using assms data_content_append[OF c, of xs]
    by (auto simp: receive_data_def run_simps and_then_Inr return_def Let_def split: if_splits)
qed

lemma receive_ping_append:
  "receive_ping h buf = (acts, Inr r) \<Longrightarrow> unat (fh_length h) \<le> length buf \<Longrightarrow>
   receive_ping h (buf @ xs) = (acts, Inr (r @ xs))"
  by (auto simp: receive_ping_def and_then_Inr return_def raise_def lift_sum_def advance_Inr split: if_splits)

lemma receive_headers_append:
  "unat (fh_length h) \<le> length buf \<Longrightarrow> receive_headers e h s (buf @ xs) = receive_headers e h s buf"
  by (simp add: receive_headers_def)

lemma receive_settings_append:
  "unat (fh_length h) \<le> length buf \<Longrightarrow> receive_settings e h s (buf @ xs) = receive_settings e h s buf"
  by (simp add: receive_settings_def)

lemma receive_reset_stream_append:
  "unat (fh_length h) \<le> length buf \<Longrightarrow> receive_reset_stream h s (buf @ xs) = receive_reset_stream h s buf"
  by (simp add: receive_reset_stream_def)

lemma receive_window_update_append:
  "unat (fh_length h) \<le> length buf \<Longrightarrow> receive_window_update h s (buf @ xs) = receive_window_update h s buf"
  by (cases buf) (auto simp: receive_window_update_def read_window_size_def nth_append)

lemmas handlers_append =
  receive_headers_append receive_settings_append receive_reset_stream_append receive_window_update_append

lemma frame_handler_append:
  assumes "frame_handler e h s buf = (acts, Inr (s', r))" "unat (fh_length h) \<le> length buf"
  shows "frame_handler e h s (buf @ xs) = (acts, Inr (s', r @ xs))"
  using assms receive_data_append[of e h s buf acts s' r xs] receive_ping_append[of h buf _ _ xs]
  by (auto simp: frame_handler_def and_then_Inr return_def Let_def handlers_append split: if_splits)

lemma receive_frame_header_read:
  assumes "h2_current s = None" "read_frame_header (e_char_signed e) buf = Inr (h, r)"
  shows "receive_frame e s buf = receive_frame e (s\<lparr>h2_current := Some h\<rparr>) r"
proof -
  have "\<not> length buf < FRAME_HEADER_SIZE" using assms(2) by (auto simp: read_frame_header_def split: if_splits)
  then show ?thesis
    using assms by (simp add: receive_frame_def receive_frame_header_def and_then_def return_def lift_sum_def split_beta)
qed

lemma receive_frame_short:
  "h2_current s = None \<Longrightarrow> length buf < FRAME_HEADER_SIZE \<Longrightarrow> receive_frame e s buf = ([], Inr (False, s, buf))"
  by (simp add: receive_frame_def receive_frame_header_def run_simps)

lemma receive_frame_pending:
  "h2_current s = Some h \<Longrightarrow> receive_frame e s buf =
     (if length buf < unat (fh_length h) then ([], Inr (False, s, buf))
      else and_then (process_frame_body e s buf) (\<lambda>(s, buf). return (True, s, buf)))"
  by (simp add: receive_frame_def run_simps)

lemma receive_frame_cases:
  assumes "h2_current s = None"
  obtains (Short) "length buf < FRAME_HEADER_SIZE"
  | (Read) h where "read_frame_header (e_char_signed e) buf = Inr (h, drop 9 buf)" "9 \<le> length buf"
  using that by (cases "length buf < FRAME_HEADER_SIZE") (auto simp: read_frame_header_def Let_def advance_def FRAME_HEADER_SIZE_def)

lemma process_frame_body_append:
  assumes "process_frame_body e s buf = (acts, Inr (s', r))" "h2_current s = Some h" "unat (fh_length h) \<le> length buf"
  shows "process_frame_body e s (buf @ xs) = (acts, Inr (s', r @ xs))"
proof -
  obtain s1 b1 where f: "frame_handler e h s buf = (acts, Inr (s1, b1))" and
    r: "unat (fh_length h) \<le> length b1" "s' = s1\<lparr>h2_current := None\<rparr>" "r = drop (unat (fh_length h)) b1"
    using assms by (auto simp: process_frame_body_def and_then_Inr return_def lift_sum_def advance_Inr)
  then show ?thesis
    using frame_handler_append[OF f assms(3), of xs] assms(2,3)
    by (simp add: process_frame_body_def run_simps advance_def)
qed

lemma receive_frame_pending_append:
  assumes "h2_current s = Some h" "receive_frame e s buf = (acts, Inr (True, s', r))"
  shows "receive_frame e s (buf @ xs) = (acts, Inr (True, s', r @ xs))"
proof -
  have len: "unat (fh_length h) \<le> length buf" and body: "process_frame_body e s buf = (acts, Inr (s', r))"
    using assms by (auto simp: receive_frame_pending and_then_Inr return_def split: if_splits)
  then show ?thesis
    using process_frame_body_append[OF body assms(1) len, of xs] assms(1)
    by (simp add: receive_frame_pending run_simps)
qed

lemma receive_frame_more:
  assumes "receive_frame e s buf = (acts, Inr (True, s', r))"
  shows "receive_frame e s (buf @ xs) = (acts, Inr (True, s', r @ xs))"
proof (cases "h2_current s")
  case None
  then show ?thesis
  proof (cases rule: receive_frame_cases[where buf = buf and e = e])
    case Short
    then show ?thesis using receive_frame_short[OF None Short] assms by simp
  next
    case (Read h)
    then show ?thesis
      using receive_frame_header_read[OF None Read(1)] read_frame_header_append[OF Read(1), of xs]
        receive_frame_header_read[OF None, of e "buf @ xs"] assms
        receive_frame_pending_append[of "s\<lparr>h2_current := Some h\<rparr>" h e "drop 9 buf" acts s' r xs]
      by simp
  qed
next
  case (Some h)
  then show ?thesis using receive_frame_pending_append assms by blast
qed

lemma receive_frame_wait_pending:
  "h2_current s = Some h \<Longrightarrow> receive_frame e s buf = (acts, Inr (False, s', r)) \<Longrightarrow> acts = [] \<and> s' = s \<and> r = buf"
  by (auto simp: receive_frame_pending and_then_Inr return_def split: if_splits)

lemma receive_frame_wait:
  assumes "receive_frame e s buf = (acts, Inr (False, s', r))"
  shows "receive_frame e s (buf @ xs) = prepend acts (receive_frame e s' (r @ xs))"
proof (cases "h2_current s")
  case None
  then show ?thesis
  proof (cases rule: receive_frame_cases[where buf = buf and e = e])
    case Short
    then show ?thesis using receive_frame_short[OF None Short] assms by auto
  next
    case (Read h)
    then show ?thesis
      using receive_frame_header_read[OF None Read(1)] read_frame_header_append[OF Read(1), of xs]
        receive_frame_header_read[OF None, of e "buf @ xs"] assms
        receive_frame_wait_pending[of "s\<lparr>h2_current := Some h\<rparr>" h e "drop 9 buf" acts s' r]
      by auto
  qed
next
  case (Some h)
  then show ?thesis using receive_frame_wait_pending assms by fastforce
qed

interpretation h2_input: patient_input_loop "receive_frame e" "receive_frames e" h2_weight "\<lambda>s. True"
  for e
proof unfold_locales
  fix s buf
  show "receive_frames e s buf =
      (case receive_frame e s buf of
         (acts, Inl err) \<Rightarrow> (acts, Inl err)
       | (acts, Inr (go, s', rest)) \<Rightarrow>
           if go \<and> rest \<noteq> [] then prepend acts (receive_frames e s' rest) else (acts, Inr (s', rest)))"
    by (rule receive_frames.simps)
qed (auto intro: receive_frame_weight receive_frame_more receive_frame_wait)

text \<open>Frames never take the preface back.\<close>

lemma h2_end_stream_preface [simp]: "h2_preface (h2_end_stream sid s) = h2_preface s"
  by (simp add: h2_end_stream_def)

lemma frame_handler_preface: "frame_handler e h s buf = (acts, Inr (s', r)) \<Longrightarrow> h2_preface s' = h2_preface s"
  by (auto simp: frame_handler_def receive_data_def receive_headers_def receive_reset_stream_def
      receive_settings_def receive_window_update_def add_connection_window_size_def add_stream_window_size_def
      and_then_Inr return_def raise_def lift_sum_def Let_def split: if_splits option.splits prod.splits sum.splits)

lemma receive_frame_preface: "receive_frame e s buf = (acts, Inr (go, s', r)) \<Longrightarrow> h2_preface s' = h2_preface s"
  by (auto simp: receive_frame_def receive_frame_header_def process_frame_body_def and_then_Inr return_def
      raise_def lift_sum_def split: if_splits option.splits prod.splits dest!: frame_handler_preface)

lemma receive_frames_preface: "receive_frames e s buf = (acts, Inr (s', r)) \<Longrightarrow> h2_preface s' = h2_preface s"
  by (induction rule: h2_input.loop_induct) (auto dest: receive_frame_preface)

lemma h2_on_input_frames: "h2_preface s \<Longrightarrow> h2_on_input e s buf = receive_frames e s buf"
  by (simp add: h2_on_input_def run_simps)

text \<open>The calls a connection makes as octets arrive: each chunk is appended to what was left.\<close>

primrec h2_feed :: "env \<Rightarrow> h2 \<Rightarrow> octets \<Rightarrow> octets list \<Rightarrow> (h2 \<times> octets) run" where
  "h2_feed e s rest [] = return (s, rest)"
| "h2_feed e s rest (chunk # chunks) =
     and_then (h2_on_input e s (rest @ chunk)) (\<lambda>(s', rest'). h2_feed e s' rest' chunks)"

lemma h2_feed_frames: "h2_preface s \<Longrightarrow> h2_feed e s rest chunks = h2_input.feed e s rest chunks"
proof (induction chunks arbitrary: s rest)
  case (Cons c cs)
  then show ?case
    by (auto simp: h2_on_input_frames and_then_def split: prod.splits sum.splits dest!: receive_frames_preface)
qed simp

text \<open>C9: Once the preface is received, the way the network cuts the input into pieces does not
  matter: when the pieces are handled without an exception, reading them all at once makes the
  same calls on the connection and ends in the same state.\<close>

theorem h2_input_fragmentation:
  assumes "h2_preface s" "h2_feed e s rest chunks = (acts, Inr (s', rest'))" "chunks \<noteq> []" "[] \<notin> set chunks"
  shows "h2_on_input e s (rest @ concat chunks) = (acts, Inr (s', rest'))"
proof -
  obtain c cs where "chunks = c # cs" using assms(3) by (cases chunks) auto
  then show ?thesis
    using h2_input.feed_concat[of e s rest c cs acts s' rest'] assms h2_feed_frames[OF assms(1), of e rest chunks]
      h2_on_input_frames[OF assms(1), of e]
    by simp
qed

definition h2_ready :: h2 where
  "h2_ready = \<lparr>h2_local = set_setting ENABLE_PUSH 0 settings_default, h2_peer = settings_default,
     h2_table = dt_new, h2_streams = Map.empty(1 \<mapsto> stream_new 1), h2_current = None, h2_window = 65535,
     h2_preface = True, h2_updated = False\<rparr>"

text \<open>C31: When \<open>onInput\<close> returns, no complete frame is left in the buffer: it is empty, or too short
  for a frame header, or a frame header was read and its payload is not complete.\<close>

theorem h2_input_drained:
  assumes "h2_preface s" "h2_on_input e s buf = (acts, Inr (s', rest))"
  shows "rest = [] \<or> (case h2_current s' of None \<Rightarrow> length rest < 9 | Some h \<Rightarrow> length rest < unat (fh_length h))"
  using assms(2) unfolding h2_on_input_frames[OF assms(1)]
proof (induction rule: h2_input.loop_induct)
  case (Last s buf acts go)
  then show ?case
    by (cases go) (auto simp: receive_frame_def receive_frame_header_def FRAME_HEADER_SIZE_def and_then_Inr
        return_def lift_sum_def split: if_splits option.splits prod.splits)
qed

theorem h2_input_drained_witness: "h2_on_input (plain_env []) h2_ready [0, 0] = ([], Inr (h2_ready, [0, 0]))
  \<and> (case h2_current h2_ready of None \<Rightarrow> length [0, 0 :: byte] < 9 | Some h \<Rightarrow> True)"
proof -
  have r: "h2_on_input (plain_env []) h2_ready [0, 0] = ([], Inr (h2_ready, [0, 0]))"
    by (subst h2_on_input_frames) (simp_all add: h2_ready_def receive_frames.simps receive_frame_short FRAME_HEADER_SIZE_def)
  have "h2_preface h2_ready" by (simp add: h2_ready_def)
  from h2_input_drained[OF this r] r show ?thesis by (simp add: h2_ready_def)
qed

text \<open>Evaluation of a whole frame.\<close>

lemma receive_frame_whole:
  assumes "h2_current s = None" "\<forall>c\<in>set (frame_header_octets h). char_exact (e_char_signed e) c"
    "length body = unat (fh_length h)"
    "frame_handler e h (s\<lparr>h2_current := Some h\<rparr>) (body @ rest) = (acts, Inr (s', buf))"
  shows "receive_frame e s (frame_header_octets h @ body @ rest)
    = (acts, case advance (unat (fh_length h)) buf of
        Inl err \<Rightarrow> Inl err | Inr r \<Rightarrow> Inr (True, s'\<lparr>h2_current := None\<rparr>, r))"
proof -
  have "read_frame_header (e_char_signed e) (frame_header_octets h @ body @ rest) = Inr (h, body @ rest)"
    by (rule read_frame_header_octets[OF assms(2)])
  then show ?thesis
    using receive_frame_header_read[OF assms(1)] assms(3,4)
    by (simp add: receive_frame_pending process_frame_body_def run_simps split: sum.splits)
qed

lemma receive_frame_whole_error:
  assumes "h2_current s = None" "\<forall>c\<in>set (frame_header_octets h). char_exact (e_char_signed e) c"
    "length body = unat (fh_length h)"
    "frame_handler e h (s\<lparr>h2_current := Some h\<rparr>) (body @ rest) = (acts, Inl err)"
  shows "receive_frame e s (frame_header_octets h @ body @ rest) = (acts, Inl err)"
proof -
  have "read_frame_header (e_char_signed e) (frame_header_octets h @ body @ rest) = Inr (h, body @ rest)"
    by (rule read_frame_header_octets[OF assms(2)])
  then show ?thesis
    using receive_frame_header_read[OF assms(1)] assms(3,4)
    by (simp add: receive_frame_pending process_frame_body_def run_simps)
qed

theorem h2_input_fragmentation_witness:
  "h2_on_input (plain_env []) h2_ready [0, 0, 0, 10, 0, 0, 0, 0, 0] = ([], Inr (h2_ready, []))"
proof -
  let ?e = "plain_env []" and ?h = "frame_header_new 10"
  have o: "frame_header_octets ?h = [0, 0, 0, 10, 0, 0, 0, 0, 0]"
    by (simp add: frame_header_octets_def frame_header_new_def)
  have first: "h2_on_input ?e h2_ready [0, 0, 0] = ([], Inr (h2_ready, [0, 0, 0]))"
    by (subst h2_on_input_frames) (simp_all add: h2_ready_def receive_frames.simps receive_frame_short FRAME_HEADER_SIZE_def)
  have cur: "h2_ready\<lparr>h2_current := None\<rparr> = h2_ready" "h2_current h2_ready = None"
    by (simp_all add: h2_ready_def)
  have "unat (fh_length ?h) = 0" by (simp add: frame_header_new_def)
  moreover have "frame_handler ?e ?h (h2_ready\<lparr>h2_current := Some ?h\<rparr>) [] = ([], Inr (h2_ready\<lparr>h2_current := Some ?h\<rparr>, []))"
    by (simp add: frame_handler_def run_simps frame_header_new_def frame_types)
  ultimately have "receive_frame ?e h2_ready [0, 0, 0, 10, 0, 0, 0, 0, 0] = ([], Inr (True, h2_ready, []))"
    using receive_frame_whole[of h2_ready ?h ?e "[]" "[]" "[]" "h2_ready\<lparr>h2_current := Some ?h\<rparr>" "[]"] cur
    by (simp add: o char_exact_def advance_def)
  then have second: "h2_on_input ?e h2_ready [0, 0, 0, 10, 0, 0, 0, 0, 0] = ([], Inr (h2_ready, []))"
    by (subst h2_on_input_frames) (simp_all add: h2_ready_def receive_frames.simps)
  have "h2_feed ?e h2_ready [] [[0, 0, 0], [10, 0, 0, 0, 0, 0]] = ([], Inr (h2_ready, []))"
    using first second by (simp add: run_simps)
  moreover have "h2_preface h2_ready" by (simp add: h2_ready_def)
  ultimately show ?thesis
    using h2_input_fragmentation[of h2_ready ?e "[]" "[[0, 0, 0], [10, 0, 0, 0, 0, 0]]" "[]" h2_ready "[]"] by simp
qed


section \<open>Streams stay idle\<close>

text \<open>The states a transport goes through while its input raises no exception.\<close>

inductive h2_reach :: "env \<Rightarrow> h2 \<Rightarrow> bool" for e where
  start: "h2_new e hs = (acts, Inr s) \<Longrightarrow> h2_reach e s"
| input: "h2_reach e s \<Longrightarrow> h2_on_input e s buf = (acts, Inr (s', rest)) \<Longrightarrow> h2_reach e s'"

definition h2_idle :: "h2 \<Rightarrow> bool" where
  "h2_idle s \<longleftrightarrow> (\<forall>sid st. h2_streams s sid = Some st \<longrightarrow> st_state st = Idle \<and> st_id st = sid)"

lemma h2_idle_more [simp]:
  "h2_idle (s\<lparr>h2_current := c\<rparr>) = h2_idle s" "h2_idle (s\<lparr>h2_peer := pr\<rparr>) = h2_idle s"
  "h2_idle (s\<lparr>h2_window := w\<rparr>) = h2_idle s" "h2_idle (s\<lparr>h2_updated := u\<rparr>) = h2_idle s"
  "h2_idle (s\<lparr>h2_preface := b\<rparr>) = h2_idle s" "h2_idle (s\<lparr>h2_table := t\<rparr>) = h2_idle s"
  by (simp_all add: h2_idle_def)

lemma h2_idle_end_stream: "h2_idle s \<Longrightarrow> h2_idle (h2_end_stream sid s)"
  by (auto simp: h2_idle_def h2_end_stream_def)

lemma h2_idle_put:
  "h2_idle s \<Longrightarrow> st_state st = Idle \<Longrightarrow> st_id st = sid \<Longrightarrow> h2_idle (s\<lparr>h2_streams := (h2_streams s)(sid \<mapsto> st)\<rparr>)"
  by (auto simp: h2_idle_def)

lemma stream_new_idle [simp]: "st_state (stream_new sid) = Idle" "st_id (stream_new sid) = sid"
  by (simp_all add: stream_new_def)

text \<open>A DATA frame finds no stream that may take it.\<close>

lemma data_stream_idle: "h2_idle s \<Longrightarrow> data_stream h s = Inl E_runtime"
  by (auto simp: data_stream_def h2_get_stream_def h2_idle_def split: option.splits)

text \<open>Every request is answered in the same way.\<close>

definition response_header :: "31 word \<Rightarrow> frame_header" where
  "response_header sid = \<lparr>fh_length = 1, fh_type = FT_HEADERS, fh_flags = 0x05, fh_reserved = False, fh_stream = sid\<rparr>"

lemma response_pieces:
  "stream_send_response r st = call (Send_payload [frame_header_octets (response_header (st_id st)), [0x88], []])"
proof -
  have "set_bit 0 (set_bit 2 0) = (5 :: byte)" by (simp add: set_bit_eq)
  then show ?thesis
    by (simp add: stream_send_response_def write_headers_frame_def headers_frame_new_def hf_set_fragment_def
        hf_set_end_stream_def flag_set_def frame_header_new_def response_header_def hf_length_def Let_def)
qed

lemma h2_dispatch_eq:
  "h2_dispatch e st = ([Send_payload [frame_header_octets (response_header (st_id st)), [0x88], []]], Inr ())"
  by (simp add: h2_dispatch_def stream_on_request_def response_pieces call_def)

lemma headers_stream_id: "h2_idle s \<Longrightarrow> st_id (headers_stream sid s) = sid"
  by (auto simp: headers_stream_def h2_idle_def split: option.splits)

lemma accumulate_headers_id [simp]: "st_id (accumulate_headers hs st) = st_id st"
  by (simp add: accumulate_headers_def)

lemma receive_headers_idle_eq:
  assumes "h2_idle s" "unat (fh_length h) \<le> length buf"
    "parse_headers (e_ndebug e) (h2_table s) (take (unat (fh_length h)) buf) [] = (Inr hs, table)"
  shows "receive_headers e h s buf =
    ([Send_payload [frame_header_octets (response_header (fh_stream h)), [0x88], []]],
     Inr (h2_end_stream (fh_stream h) (s\<lparr>h2_table := table\<rparr>)))"
  using assms
  by (simp add: receive_headers_def h2_dispatch_eq run_simps headers_stream_id h2_end_stream_def)

lemma receive_headers_idle:
  assumes "h2_idle s" "receive_headers e h s buf = (acts, Inr s')"
  shows "h2_idle s'"
proof -
  have len: "unat (fh_length h) \<le> length buf" using assms(2) by (auto simp: receive_headers_def raise_def split: if_splits)
  obtain hs table where p: "parse_headers (e_ndebug e) (h2_table s) (take (unat (fh_length h)) buf) [] = (Inr hs, table)"
    using assms(2) by (auto simp: receive_headers_def raise_def split: prod.splits sum.splits if_splits)
  show ?thesis
    using assms(2) receive_headers_idle_eq[OF assms(1) len p] assms(1) by (auto intro: h2_idle_end_stream)
qed

lemma frame_handler_idle:
  assumes "h2_idle s" "frame_handler e h s buf = (acts, Inr (s', r))"
  shows "h2_idle s'"
  using assms receive_headers_idle[OF assms(1)]
  by (auto simp: frame_handler_def receive_data_def data_stream_idle receive_reset_stream_def
      receive_settings_def receive_window_update_def add_connection_window_size_def add_stream_window_size_def
      stream_add_window_size_def and_then_Inr return_def raise_def lift_sum_def Let_def h2_idle_end_stream
      intro!: h2_idle_put split: if_splits option.splits)
    (auto simp: h2_idle_def map_sum_def split: sum.splits)

lemma receive_frame_idle:
  assumes "receive_frame e s buf = (acts, Inr (go, s', r))" "h2_idle s"
  shows "h2_idle s'"
  using assms
  by (auto simp: receive_frame_def receive_frame_header_def process_frame_body_def and_then_Inr return_def
      raise_def lift_sum_def split: if_splits option.splits prod.splits dest!: frame_handler_idle[rotated])

lemma receive_frames_idle: "receive_frames e s buf = (acts, Inr (s', r)) \<Longrightarrow> h2_idle s \<Longrightarrow> h2_idle s'"
  by (induction rule: h2_input.loop_induct) (auto dest: receive_frame_idle)

lemma h2_on_input_idle:
  assumes "h2_on_input e s buf = (acts, Inr (s', r))" "h2_idle s"
  shows "h2_idle s'"
  using assms receive_frames_idle
  by (auto simp: h2_on_input_def receive_preface_def and_then_Inr return_def raise_def lift_sum_def
      split: if_splits)

lemma h2_new_idle: "h2_new e hs = (acts, Inr s) \<Longrightarrow> h2_idle s"
  by (auto simp: h2_new_def and_then_Inr return_def h2_idle_def split: if_splits)

lemma h2_reach_idle: "h2_reach e s \<Longrightarrow> h2_idle s"
  by (induction rule: h2_reach.induct) (auto dest: h2_new_idle h2_on_input_idle)

inductive_cases h2_reachE: "h2_reach e s"

text \<open>C32: No stream ever leaves the state Idle, so every DATA frame ends in an exception, which
  nothing between the transport and \<open>Server::run\<close> catches: a request with a body stops the server.\<close>

theorem h2_data_refused:
  assumes "h2_reach e s" "fh_type h = FT_DATA"
  shows "frame_handler e h s buf = ([], Inl E_runtime)"
  using assms by (simp add: frame_handler_def frame_types receive_data_def data_stream_idle h2_reach_idle run_simps)

lemma h2_new_plain:
  "h2_new e None = ([Send_raw server_preface], Inr (h2_ready\<lparr>h2_preface := False\<rparr>))"
  by (simp add: h2_new_def run_simps h2_ready_def)

theorem h2_data_refused_witness:
  "frame_handler (plain_env []) ((frame_header_new FT_DATA)\<lparr>fh_stream := 1\<rparr>) (h2_ready\<lparr>h2_preface := False\<rparr>) [7]
     = ([], Inl E_runtime)"
  using h2_data_refused[OF h2_reach.start[OF h2_new_plain], of "(frame_header_new FT_DATA)\<lparr>fh_stream := 1\<rparr>" "plain_env []" "[7]"]
  by (simp add: frame_header_new_def)

text \<open>C19: A HEADERS frame whose payload the HPACK decoder accepts is answered at once, on its own
  stream, and the stream is closed; the decoder's table is carried over to the next frame.  The
  frame header has to be read as it was written, which the reader of the source does when
  \<open>char\<close> is unsigned or the octets of the header are below 128 (\<open>char_exact\<close>); with a
  signed \<open>char\<close> larger lengths and stream numbers are misread.\<close>

theorem h2_request_answered:
  assumes "h2_reach e s" "h2_current s = None" "fh_type h = FT_HEADERS"
    "\<forall>c\<in>set (frame_header_octets h). char_exact (e_char_signed e) c"
    "length block = unat (fh_length h)"
    "parse_headers (e_ndebug e) (h2_table s) block [] = (Inr hs, table)"
  shows "receive_frame e s (frame_header_octets h @ block @ rest)
    = ([Send_payload [frame_header_octets (response_header (fh_stream h)), [0x88], []]],
       Inr (True, s\<lparr>h2_table := table, h2_streams := (h2_streams s)(fh_stream h := None)\<rparr>, rest))"
proof -
  let ?s = "s\<lparr>h2_current := Some h\<rparr>"
  have "frame_handler e h ?s (block @ rest)
      = ([Send_payload [frame_header_octets (response_header (fh_stream h)), [0x88], []]],
         Inr (h2_end_stream (fh_stream h) (?s\<lparr>h2_table := table\<rparr>), block @ rest))"
    using receive_headers_idle_eq[of ?s h "block @ rest" e hs table] assms(3,5,6) h2_reach_idle[OF assms(1)]
    by (simp add: frame_handler_def frame_types run_simps)
  from receive_frame_whole[OF assms(2,4,5) this] assms(2,5) show ?thesis
    by (simp add: advance_def h2_end_stream_def)
qed

theorem h2_request_answered_witness:
  "snd (receive_frame (plain_env []) (h2_ready\<lparr>h2_preface := False\<rparr>)
      (frame_header_octets ((frame_header_new FT_HEADERS)\<lparr>fh_stream := 3\<rparr>) @ [] @ [9]))
   = Inr (True, h2_ready\<lparr>h2_preface := False\<rparr>, [9])"
proof -
  let ?h = "(frame_header_new FT_HEADERS)\<lparr>fh_stream := 3\<rparr>" and ?s = "h2_ready\<lparr>h2_preface := False\<rparr>"
  have "\<forall>c\<in>set (frame_header_octets ?h). char_exact (e_char_signed (plain_env [])) c"
    by (simp add: frame_header_octets_def frame_header_new_def char_exact_def Let_def frame_types)
  note answered = h2_request_answered[OF h2_reach.start[OF h2_new_plain] _ _ this, of "[]" "[]" dt_new "[9]"]
  have "?s\<lparr>h2_table := dt_new, h2_streams := (h2_streams ?s)(3 := None)\<rparr> = ?s"
    by (auto simp: h2_ready_def fun_eq_iff)
  moreover have "h2_current ?s = None" "h2_table ?s = dt_new" by (simp_all add: h2_ready_def)
  ultimately show ?thesis
    using answered by (simp add: frame_header_new_def parse_headers.simps)
qed

lemma parse_headers_200:
  "parse_headers nd t [0x88] [] = (Inr [mk_header (str '':status'') (str ''200'') [] [] False], t)"
proof -
  have "reps_apply t [Indexed 8] = Some ([mk_header (str '':status'') (str ''200'') [] [] False], t)"
    by (simp add: entry_at_def static_table_def str_def)
  moreover have "concat (map rep_bytes [Indexed 8]) = [0x88]"
    by (simp add: hpack_int_def mask_eq_exp_minus_1)
  ultimately show ?thesis
    using parse_headers_reps[of "[Indexed 8]" t _ t nd "[]" "[]"] by (simp add: parse_headers.simps[of nd t "[]"])
qed

text \<open>C20: The frame that answers a request reads back as a HEADERS frame of that stream with
  END_STREAM and END_HEADERS set and the header \<open>:status: 200\<close>, whatever the response was
  meant to be: status, headers and body given to \<open>sendResponse\<close> are dropped.\<close>

theorem h2_response_decodes:
  "\<exists>h. stream_send_response r st = ([Send_payload [frame_header_octets h, [0x88], []]], Inr ())
    \<and> read_frame_header False (frame_header_octets h @ [0x88]) = Inr (h, [0x88])
    \<and> fh_type h = FT_HEADERS \<and> fh_stream h = st_id st \<and> fh_length h = 1
    \<and> flag_test 0 h \<and> flag_test 2 h \<and> \<not> flag_test 3 h
    \<and> fst (parse_headers nd t [0x88] []) = Inr [mk_header (str '':status'') (str ''200'') [] [] False]"
proof -
  define flags where "flags = (5 :: byte)"
  have "bit flags 0" "bit flags 2" "\<not> bit flags 3" by (simp_all add: flags_def bit_iff_odd)
  then show ?thesis
    using read_frame_header_octets[of "response_header (st_id st)" False "[0x88]"]
    by (intro exI[of _ "response_header (st_id st)"])
      (simp add: response_pieces call_def char_exact_def parse_headers_200 flag_test_def flip: flags_def,
       simp add: response_header_def flag_test_def flip: flags_def)
qed


section \<open>PING, SETTINGS and the preface\<close>

definition ping_header :: frame_header where
  "ping_header = (frame_header_new FT_PING)\<lparr>fh_length := 8\<rparr>"

definition pong_header :: frame_header where
  "pong_header = flag_set 0 True ping_header"

lemma ping_octets: "frame_header_octets ping_header = [0, 0, 8, 6, 0, 0, 0, 0, 0]"
  by (simp add: frame_header_octets_def ping_header_def frame_header_new_def frame_types)

lemma ping_handler:
  "8 \<le> length buf \<Longrightarrow> frame_handler e ping_header s buf
     = ([Send_payload [frame_header_octets pong_header, take 8 buf]], Inr (s, drop 8 buf))"
  by (simp add: frame_handler_def frame_types ping_header_def pong_header_def frame_header_new_def receive_ping_def
      is_ping_ack_def flag_test_def flag_set_def send_ping_response_def run_simps advance_def min_def)

text \<open>C33: A PING is answered with its payload, but the payload is then skipped twice: the next eight
  octets of the input are lost, and when fewer have arrived \<open>advance\<close> throws.\<close>

theorem h2_ping:
  assumes "h2_current s = None" "length data = 8"
  shows "receive_frame e s (frame_header_octets ping_header @ data @ rest)
    = ([Send_payload [frame_header_octets pong_header, data]],
       if length rest < 8 then Inl E_length else Inr (True, s, drop 8 rest))"
proof -
  have c: "\<forall>c\<in>set (frame_header_octets ping_header). char_exact (e_char_signed e) c"
    by (simp add: ping_octets char_exact_def)
  have "s\<lparr>h2_current := None\<rparr> = s" using assms(1) by simp
  moreover have "unat (fh_length ping_header) = 8" by (simp add: ping_header_def)
  ultimately show ?thesis
    using receive_frame_whole[OF assms(1) c, of data rest] ping_handler[of "data @ rest" e "s\<lparr>h2_current := Some ping_header\<rparr>"]
      assms(2)
    by (simp add: advance_def)
qed

theorem h2_ping_witness:
  "receive_frame (plain_env []) h2_ready (frame_header_octets ping_header @ [1, 2, 3, 4, 5, 6, 7, 8] @ [])
     = ([Send_payload [frame_header_octets pong_header, [1, 2, 3, 4, 5, 6, 7, 8]]], Inl E_length)"
  using h2_ping[of h2_ready "[1, 2, 3, 4, 5, 6, 7, 8]" "plain_env []" "[]"] by (simp add: h2_ready_def)

definition settings_header :: "nat \<Rightarrow> frame_header" where
  "settings_header n = (frame_header_new FT_SETTINGS)\<lparr>fh_length := of_nat n\<rparr>"

definition ack_header :: frame_header where
  "ack_header = flag_set 0 True (frame_header_new FT_SETTINGS)"

text \<open>SETTINGS are acknowledged and applied, to the initial values; until the first
  WINDOW_UPDATE for the connection, the initial window of the streams also becomes the window of
  the connection.\<close>

lemma h2_settings:
  assumes "h2_current s = None" "length payload < 2 ^ 24"
    "\<forall>c\<in>set (frame_header_octets (settings_header (length payload))). char_exact (e_char_signed e) c"
    "settings_from_buffer (e_char_signed e) payload = Inr peer"
  shows "receive_frame e s (frame_header_octets (settings_header (length payload)) @ payload @ rest)
    = ([Send_payload [frame_header_octets ack_header]],
       Inr (True, s\<lparr>h2_peer := peer, h2_window := if h2_updated s then h2_window s else peer ! 3\<rparr>, rest))"
proof -
  let ?h = "settings_header (length payload)"
  have len: "unat (fh_length ?h) = length payload"
    using assms(2) by (simp add: settings_header_def unat_of_nat)
  have t: "fh_type ?h = FT_SETTINGS" "\<not> is_settings_ack ?h"
    by (simp_all add: settings_header_def frame_header_new_def is_settings_ack_def flag_test_def)
  have "frame_handler e ?h (s\<lparr>h2_current := Some ?h\<rparr>) (payload @ rest)
      = ([Send_payload [frame_header_octets ack_header]],
         Inr (s\<lparr>h2_current := Some ?h, h2_peer := peer, h2_window := if h2_updated s then h2_window s else peer ! 3\<rparr>,
              payload @ rest))"
    using t assms(4) by (simp add: frame_handler_def frame_types receive_settings_def len run_simps ack_settings_def
        ack_header_def setting_value_def INITIAL_WINDOW_SIZE_def SETTINGS_FIRST_def)
  from receive_frame_whole[OF assms(1,3) len[symmetric] this] show ?thesis
    using assms(1) by (simp add: len advance_def)
qed

lemma h2_settings_witness:
  "receive_frame (plain_env []) h2_ready (frame_header_octets (settings_header 6) @ [0, 4, 0, 0, 0, 100] @ [])
     = ([Send_payload [frame_header_octets ack_header]],
        Inr (True, h2_ready\<lparr>h2_peer := [4096, 1, NOT 0, 100, 16384, NOT 0], h2_window := 100\<rparr>, []))"
proof -
  have p: "settings_from_buffer (e_char_signed (plain_env [])) [0, 4, 0, 0, 0, 100]
      = Inr [4096, 1, NOT 0, 100, 16384, NOT 0]"
    using settings_from_buffer_put[of "[(4, 100)]" "e_char_signed (plain_env [])"]
    by (simp add: setting_octets_def char_exact_def put_setting_def settings_default_def)
  show ?thesis
    using h2_settings[of h2_ready "[0, 4, 0, 0, 0, 100]" "plain_env []", OF _ _ _ p, of "[]"]
    by (simp add: h2_ready_def frame_header_octets_def settings_header_def frame_header_new_def frame_types char_exact_def)
qed

lemma length_CLIENT_PREFACE [simp]: "length CLIENT_PREFACE = 24"
  by (simp add: CLIENT_PREFACE_def)

lemma preface_refused:
  assumes "\<not> h2_preface s" "24 \<le> length buf" "buf ! 1 \<noteq> 0x52"
  shows "h2_on_input e s buf = ([], Inl E_runtime)"
proof -
  have "take 24 buf ! 1 = buf ! 1" by simp
  moreover have "CLIENT_PREFACE ! 1 = 0x52" by (simp add: CLIENT_PREFACE_def)
  ultimately have "take 24 buf \<noteq> CLIENT_PREFACE" using assms(3) by metis
  then show ?thesis using assms(1,2) by (simp add: h2_on_input_def receive_preface_def run_simps)
qed

text \<open>While fewer octets than the preface have arrived, \<open>onInput\<close> goes on to \<open>receiveFrames\<close>,
  which takes the first nine octets of the preface for a frame header (of a frame of 0x505249
  octets); the rest of the preface is then refused.  This happens after an upgrade, where the
  preface is not known to be complete.\<close>

lemma h2_split_preface:
  assumes "h2_current s = None" "\<not> h2_preface s" "9 \<le> n" "n < 24" "9 \<le> length later"
  shows "\<exists>s' h. h2_on_input e s (take n CLIENT_PREFACE) = ([], Inr (s', drop 9 (take n CLIENT_PREFACE)))
    \<and> h2_current s' = Some h \<and> unat (fh_length h) = 0x505249
    \<and> h2_on_input e s' (drop 9 (take n CLIENT_PREFACE) @ drop n CLIENT_PREFACE @ later) = ([], Inl E_runtime)"
proof -
  let ?b = "take n CLIENT_PREFACE"
  have p: "?b = [0x50, 0x52, 0x49, 0x20, 0x2a, 0x20, 0x48, 0x54, 0x54] @ drop 9 ?b"
  proof -
    have "?b = take 9 ?b @ drop 9 ?b" by (rule append_take_drop_id[symmetric])
    also have "take 9 ?b = take 9 CLIENT_PREFACE" using assms(3) by (simp add: min_def)
    finally show ?thesis by (simp add: CLIENT_PREFACE_def)
  qed
  have x: "char_val (e_char_signed e) c = (ucast c :: u32)" if "c \<in> {0x50, 0x52, 0x49, 0x48, 0x54, 0x20}" for c
    by (rule char_val_exact) (use that in \<open>auto simp: char_exact_def\<close>)
  have "\<exists>h. read_frame_header (e_char_signed e) ([0x50, 0x52, 0x49, 0x20, 0x2a, 0x20, 0x48, 0x54, 0x54] @ r) = Inr (h, r)
      \<and> unat (fh_length h) = 0x505249" for r
    by (simp add: read_frame_header_def FRAME_HEADER_SIZE_def advance_def Let_def x)
  then obtain h where h: "read_frame_header (e_char_signed e) ?b = Inr (h, drop 9 ?b)" "unat (fh_length h) = 0x505249"
    using p by metis
  let ?s = "s\<lparr>h2_current := Some h\<rparr>"
  have "n - 9 < 0x505249" using assms(4) by linarith
  then have "receive_frame e s ?b = ([], Inr (False, ?s, drop 9 ?b))"
    using receive_frame_header_read[OF assms(1) h(1)] h(2) assms(4) by (simp add: receive_frame_pending)
  then have partial: "h2_on_input e s ?b = ([], Inr (?s, drop 9 ?b))"
    using assms(2,4) by (simp add: h2_on_input_def receive_preface_def run_simps receive_frames.simps)
  have "drop 9 ?b @ drop n CLIENT_PREFACE = drop 9 CLIENT_PREFACE"
    using assms(3,4) by (metis append_take_drop_id drop_append length_CLIENT_PREFACE length_take min.absorb4 diff_is_0_eq drop0)
  then have "drop 9 ?b @ drop n CLIENT_PREFACE @ later = drop 9 CLIENT_PREFACE @ later"
    by (metis append.assoc)
  moreover have "h2_on_input e ?s (drop 9 CLIENT_PREFACE @ later) = ([], Inl E_runtime)"
    using assms(2,5) by (intro preface_refused) (simp_all add: CLIENT_PREFACE_def)
  ultimately have "h2_on_input e ?s (drop 9 ?b @ drop n CLIENT_PREFACE @ later) = ([], Inl E_runtime)" by metis
  with partial show ?thesis using h(2) by (intro exI[of _ ?s] exI[of _ h]) simp
qed

lemma h2_split_preface_witness:
  "\<exists>s' h. h2_on_input (plain_env []) (h2_ready\<lparr>h2_preface := False\<rparr>) (take 20 CLIENT_PREFACE)
      = ([], Inr (s', drop 9 (take 20 CLIENT_PREFACE)))
    \<and> h2_current s' = Some h \<and> unat (fh_length h) = 0x505249
    \<and> h2_on_input (plain_env []) s'
        (drop 9 (take 20 CLIENT_PREFACE) @ drop 20 CLIENT_PREFACE @ replicate 9 0) = ([], Inl E_runtime)"
  by (rule h2_split_preface) (simp_all add: h2_ready_def)

end
