(* ===== verification/Http1_Transport.thy ===== *)
theory Http1_Transport
  imports Http2_Transport
begin

text \<open>
  The HTTP/1 transports: \<open>src/http1/Transport.cpp\<close>, \<open>ServerTransport.cpp\<close>,
  \<open>ClientTransport.cpp\<close>, \<open>HTTP2Upgrader.cpp\<close> and \<open>UpgradeRegistry.cpp\<close>.

  The record \<open>h1\<close> holds the members of \<open>http1::Transport\<close>.  Its virtual functions are the
  record \<open>h1_class\<close>, of which the server and the client transport are instances.  A handler of
  messages may replace the transport of the connection, which destroys the object; any further
  call on it is undefined.
\<close>

section \<open>The base class\<close>

record incoming =
  im_first_line :: octets
  im_message :: message

record h1 =
  h1_incoming :: "incoming option"
  h1_last_header :: octets
  h1_headers_complete :: bool
  h1_expected :: int

definition h1_new :: h1 where
  "h1_new = \<lparr>h1_incoming = None, h1_last_header = [], h1_headers_complete = False, h1_expected = 0\<rparr>"

datatype 't h1_state = Active h1 | Replaced 't

text \<open>\<open>handleIncomingMessage\<close>, with the new transport if there is one, and \<open>onEndOfMessageHeaders\<close>.\<close>

record 't h1_class =
  hc_handle :: "incoming \<Rightarrow> 't option run"
  hc_end_of_headers :: "headers \<Rightarrow> unit run"

definition is_message_complete :: "h1 \<Rightarrow> bool" where
  "is_message_complete s =
     (case h1_incoming s of
        None \<Rightarrow> False
      | Some m \<Rightarrow> int (length (m_body (im_message m))) = h1_expected s)"

definition message_headers :: "h1 \<Rightarrow> headers" where
  "message_headers s = (case h1_incoming s of None \<Rightarrow> [] | Some m \<Rightarrow> m_headers (im_message m))"

definition set_message_headers :: "headers \<Rightarrow> h1 \<Rightarrow> h1" where
  "set_message_headers hs s =
     s\<lparr>h1_incoming := map_option (\<lambda>m. m\<lparr>im_message := (im_message m)\<lparr>m_headers := hs\<rparr>\<rparr>) (h1_incoming s)\<rparr>"

definition append_body :: "octets \<Rightarrow> h1 \<Rightarrow> h1" where
  "append_body xs s =
     s\<lparr>h1_incoming := map_option (\<lambda>m. m\<lparr>im_message := (im_message m)\<lparr>m_body := m_body (im_message m) @ xs\<rparr>\<rparr>)
        (h1_incoming s)\<rparr>"

text \<open>
  \<open>readContent\<close> takes the larger of what is there and what is expected.  Octets behind the
  content of the buffer are stale or out of bounds: reading them is \<open>E_undefined\<close> (at best, the
  \<open>advance\<close> that follows throws).
\<close>

definition read_content :: "h1 \<Rightarrow> octets \<Rightarrow> (h1 \<times> octets) run" where
  "read_content s buf =
     (let len = max (length buf) (nat (h1_expected s))
      in if length buf < len then raise E_undefined
         else and_then (lift_sum (advance len buf)) (\<lambda>rest. return (append_body (take len buf) s, rest)))"

definition read_chunked :: "h1 \<Rightarrow> octets \<Rightarrow> (h1 \<times> octets) run" where
  "read_chunked s buf = raise E_runtime"

definition read_body :: "h1 \<Rightarrow> octets \<Rightarrow> (h1 \<times> octets) run" where
  "read_body s buf = (if h1_expected s = - 1 then read_chunked s buf else read_content s buf)"

definition mark_headers_complete :: "env \<Rightarrow> 't h1_class \<Rightarrow> h1 \<Rightarrow> h1 run" where
  "mark_headers_complete e c s =
     and_then (lift_sum (get_content_length (e_pick e) (message_headers s))) (\<lambda>n.
       and_then (hc_end_of_headers c (message_headers s)) (\<lambda>_.
         return (s\<lparr>h1_headers_complete := True, h1_expected := n\<rparr>)))"

definition reset_incoming_message :: "h1 \<Rightarrow> h1" where
  "reset_incoming_message s =
     s\<lparr>h1_incoming := None, h1_last_header := [], h1_headers_complete := False, h1_expected := 0\<rparr>"

definition handle_message :: "env \<Rightarrow> 't h1_class \<Rightarrow> h1 \<Rightarrow> 't h1_state run" where
  "handle_message e c s =
     (case h1_incoming s of
        None \<Rightarrow> raise (if e_ndebug e then E_undefined else E_assert)
      | Some m \<Rightarrow>
          let has_connection_close =
                snd (hdr_get (e_pick e) (str ''connection'') (m_headers (im_message m))) = str ''close''
          in and_then (hc_handle c m) (\<lambda>replaced.
               case replaced of
                 Some t \<Rightarrow> return (Replaced t)
               | None \<Rightarrow>
                   and_then (if has_connection_close then call Close_connection else return ()) (\<lambda>_.
                     return (Active (reset_incoming_message s)))))"

definition header_line :: "octets \<Rightarrow> h1 \<Rightarrow> http_error + h1" where
  "header_line line s =
     (case find_char CH_COLON 0 line of
        None \<Rightarrow> Inl E_runtime
      | Some colon \<Rightarrow>
          let start_of_value = (if colon < length line - 1 \<and> line ! (colon + 1) = CH_SP then colon + 1 else colon);
              val = trim_lws (drop start_of_value line);
              name = ascii_lower (take colon line)
          in Inr (set_message_headers (hdr_add name val (message_headers s)) (s\<lparr>h1_last_header := name\<rparr>)))"

text \<open>The value of the entry that \<open>find\<close> returned is extended in place.\<close>

fun extend_entry :: "hdr \<Rightarrow> octets \<Rightarrow> headers \<Rightarrow> headers" where
  "extend_entry h xs [] = []"
| "extend_entry h xs (x # hs) = (if x = h then (fst x, snd x @ xs) # hs else x # extend_entry h xs hs)"

definition header_continuation :: "env \<Rightarrow> octets \<Rightarrow> h1 \<Rightarrow> http_error + h1" where
  "header_continuation e line s =
     (if h1_last_header s = [] then Inl E_runtime
      else (case hdr_find (e_pick e) (h1_last_header s) (message_headers s) of
              None \<Rightarrow> Inl E_logic
            | Some h \<Rightarrow> Inr (set_message_headers (extend_entry h line (message_headers s)) s)))"

text \<open>One line of the head of a message; whether \<open>processInput\<close> is to be called again.\<close>

definition process_line :: "env \<Rightarrow> 't h1_class \<Rightarrow> octets \<Rightarrow> h1 \<Rightarrow> (bool \<times> 't h1_state) run" where
  "process_line e c line s =
     (if h1_incoming s = None then
        return (True, Active (s\<lparr>h1_headers_complete := False,
          h1_incoming := Some \<lparr>im_first_line = line, im_message = message_new\<rparr>\<rparr>))
      else if line = [] then
        and_then (mark_headers_complete e c s) (\<lambda>s.
          if is_message_complete s then and_then (handle_message e c s) (\<lambda>t. return (True, t))
          else return (False, Active s))
      else if line ! 0 = CH_SP \<or> line ! 0 = CH_TAB then
        and_then (lift_sum (header_continuation e line s)) (\<lambda>s. return (True, Active s))
      else and_then (lift_sum (header_line line s)) (\<lambda>s. return (True, Active s)))"

definition process_input :: "env \<Rightarrow> 't h1_class \<Rightarrow> 't h1_state \<Rightarrow> octets \<Rightarrow> (bool \<times> 't h1_state \<times> octets) run" where
  "process_input e c t buf =
     (case t of
        Replaced t' \<Rightarrow> raise E_undefined
      | Active s \<Rightarrow>
          if buf = [] then return (False, Active s, buf)
          else if h1_incoming s \<noteq> None \<and> h1_headers_complete s \<and> \<not> is_message_complete s then
            and_then (read_body s buf) (\<lambda>(s, buf).
              if is_message_complete s then and_then (handle_message e c s) (\<lambda>t. return (True, t, buf))
              else return (False, Active s, buf))
          else
            (case get_line buf of
               Inl err \<Rightarrow> raise err
             | Inr None \<Rightarrow> return (False, Active s, buf)
             | Inr (Some (line, rest)) \<Rightarrow>
                 and_then (process_line e c line s) (\<lambda>(go, t). return (go, t, rest))))"

lemma read_body_shorter: "read_body s buf = (acts, Inr (s', rest)) \<Longrightarrow> rest = []"
  by (auto simp: read_body_def read_chunked_def read_content_def Let_def raise_def return_def and_then_Inr
      lift_sum_def advance_Inr split: if_splits)

lemma process_input_shorter:
  "process_input e c t buf = (acts, Inr (True, t', rest)) \<Longrightarrow> length rest < length buf"
  by (auto simp: process_input_def get_line_eq and_then_Inr return_def raise_def
      split: h1_state.splits if_splits option.splits dest!: read_body_shorter next_line_shorter)

function h1_on_input :: "env \<Rightarrow> 't h1_class \<Rightarrow> 't h1_state \<Rightarrow> octets \<Rightarrow> ('t h1_state \<times> octets) run" where
  "h1_on_input e c t buf =
     (case process_input e c t buf of
        (acts, Inl err) \<Rightarrow> (acts, Inl err)
      | (acts, Inr (go, t', rest)) \<Rightarrow>
          if go \<and> rest \<noteq> [] then prepend acts (h1_on_input e c t' rest) else (acts, Inr (t', rest)))"
  by pat_completeness auto
termination
  by (relation "measure (\<lambda>(e, c, t, buf). length buf)") (auto dest: process_input_shorter[OF sym])

declare h1_on_input.simps [simp del]


section \<open>The server transport\<close>

text \<open>The registry \<open>staticUpgrades\<close>: the one token leads to HTTP/2.\<close>

definition static_upgrades :: "unit registry" where
  "static_upgrades = fst (registry_add (str ''h2c'') () Map.empty)"

definition confirm_upgrade :: "env \<Rightarrow> octets \<Rightarrow> unit run" where
  "confirm_upgrade e token =
     (let hs = hdr_add (str ''Connection'') (str ''Upgrade'') [];
          hs = hdr_set (str ''Upgrade'') token hs
      in and_then (lift_sum (status_line 101)) (\<lambda>line. send_headers e line hs))"

text \<open>
  \<open>HTTP2Upgrader::upgrade\<close> hands the constructor a reference made from the null pointer
  \<open>server_\<close>; the HTTP/2 transport keeps its address and never uses it.
\<close>

definition http2_upgrade :: "env \<Rightarrow> request \<Rightarrow> h2 run" where
  "http2_upgrade e req =
     h2_new e (Some (snd (hdr_get (e_pick e) (str ''HTTP2-Settings'') (m_headers (rq_message req)))))"

definition remove_request_header :: "octets \<Rightarrow> request \<Rightarrow> request" where
  "remove_request_header n req =
     req\<lparr>rq_message := (rq_message req)\<lparr>m_headers := hdr_remove n (m_headers (rq_message req))\<rparr>\<rparr>"

text \<open>\<open>upgrade\<close>: the new transport is installed and given the request as its stream 1.\<close>

definition upgrade_to :: "h2 \<Rightarrow> request \<Rightarrow> h2 run" where
  "upgrade_to t req =
     and_then (lift_sum (h2_get_stream 1 t)) (\<lambda>st. and_then (stream_on_request req st) (\<lambda>_. return t))"

definition try_upgrade :: "env \<Rightarrow> request \<Rightarrow> h2 option run" where
  "try_upgrade e req =
     (let upgrade_header = hdr_get (e_pick e) (str ''upgrade'') (m_headers (rq_message req))
      in if upgrade_header = no_header then return None
         else
           let token = snd upgrade_header
           in (case registry_get static_upgrades token of
                 None \<Rightarrow> return None
               | Some u \<Rightarrow>
                   and_then (confirm_upgrade e token) (\<lambda>_.
                     and_then (http2_upgrade e req) (\<lambda>t.
                       and_then (upgrade_to t (remove_request_header (str ''Upgrade'') req)) (\<lambda>t.
                         return (Some t))))))"

definition server_on_request :: "env \<Rightarrow> request \<Rightarrow> h2 option run" where
  "server_on_request e req =
     and_then (try_upgrade e req) (\<lambda>upgraded.
       if upgraded \<noteq> None then return upgraded
       else and_then (send_responses e (routes_dispatch (e_routes e) req)) (\<lambda>_. return None))"

definition server_handle :: "env \<Rightarrow> incoming \<Rightarrow> h2 option run" where
  "server_handle e m =
     and_then (lift_sum (parse_request_line (im_first_line m))) (\<lambda>rl.
       server_on_request e \<lparr>rq_message = im_message m, rq_method = rl_method rl, rq_path = rl_path rl\<rparr>)"

definition handle_expect :: "env \<Rightarrow> octets \<Rightarrow> unit run" where
  "handle_expect e val =
     (if val \<noteq> str ''100-continue'' then
        let response = response_new 417 (str ''Expectation Failed.'' @ [CH_LF])
        in and_then (lift_sum (status_line (rs_status response))) (\<lambda>line. send_message e line (rs_message response))
      else send_response e (response_new 100 []))"

definition server_end_of_headers :: "env \<Rightarrow> headers \<Rightarrow> unit run" where
  "server_end_of_headers e hs =
     (let expect_header = hdr_get (e_pick e) (str ''expect'') hs
      in if expect_header \<noteq> no_header then handle_expect e (snd expect_header) else return ())"

definition h1_server :: "env \<Rightarrow> h2 h1_class" where
  "h1_server e = \<lparr>hc_handle = server_handle e, hc_end_of_headers = server_end_of_headers e\<rparr>"


section \<open>The client transport\<close>

text \<open>
  The response handler is the list of the requests it sends on the stream it is given; \<open>None\<close>
  is the empty function.
\<close>

type_synonym resp_handler = "(response \<Rightarrow> request list) option"

definition client_send_request :: "env \<Rightarrow> resp_handler \<Rightarrow> request \<Rightarrow> unit run" where
  "client_send_request e handler req =
     (if handler = None then raise E_invalid_argument
      else send_message e (request_line (rq_method req) (rq_path req)) (rq_message req))"

fun client_send_requests :: "env \<Rightarrow> resp_handler \<Rightarrow> request list \<Rightarrow> unit run" where
  "client_send_requests e handler [] = return ()"
| "client_send_requests e handler (req # reqs) =
     and_then (client_send_request e handler req) (\<lambda>_. client_send_requests e handler reqs)"

definition client_handle :: "env \<Rightarrow> resp_handler \<Rightarrow> incoming \<Rightarrow> unit option run" where
  "client_handle e handler m =
     and_then (lift_sum (parse_status_line (im_first_line m))) (\<lambda>sl.
       case handler of
         None \<Rightarrow> raise E_bad_function_call
       | Some f \<Rightarrow>
           and_then (client_send_requests e handler (f \<lparr>rs_message = im_message m, rs_status = sl_code sl\<rparr>))
             (\<lambda>_. return None))"

definition h1_client :: "env \<Rightarrow> resp_handler \<Rightarrow> unit h1_class" where
  "h1_client e handler = \<lparr>hc_handle = client_handle e handler, hc_end_of_headers = (\<lambda>hs. return ())\<rparr>"


section \<open>Cutting the input into pieces\<close>

text \<open>A transport that does not wait for a body leaves no octets but those of an incomplete line.\<close>

definition h1_live :: "'t h1_state \<Rightarrow> bool" where
  "h1_live t = (case t of Active s \<Rightarrow> \<not> h1_headers_complete s | Replaced t' \<Rightarrow> True)"

lemma process_line_live:
  assumes "process_line e c line s = (acts, Inr (True, t'))" "\<not> h1_headers_complete s"
  shows "h1_live t'"
  using assms
  by (auto simp: process_line_def handle_message_def header_line_def header_continuation_def h1_live_def
      reset_incoming_message_def set_message_headers_def and_then_Inr return_def raise_def lift_sum_def Let_def
      split: if_splits option.splits)

lemma process_line_waits:
  "process_line e c line s = (acts, Inr (False, t')) \<Longrightarrow> \<not> h1_live t'"
  by (auto simp: process_line_def mark_headers_complete_def h1_live_def and_then_Inr return_def lift_sum_def
      split: if_splits)

lemma process_input_head:
  "\<not> h1_headers_complete s \<Longrightarrow> process_input e c (Active s) buf =
     (case next_line buf of
        None \<Rightarrow> ([], Inr (False, Active s, buf))
      | Some (line, rest) \<Rightarrow> and_then (process_line e c line s) (\<lambda>(go, t). return (go, t, rest)))"
  by (cases "buf = []") (auto simp: process_input_def get_line_eq run_simps next_line_def split: option.splits)

interpretation h1_input: input_loop "process_input e c" "h1_on_input e c" "\<lambda>t buf. length buf" h1_live
  for e :: env and c :: "'t h1_class"
proof unfold_locales
  fix t :: "'t h1_state" and buf
  show "h1_on_input e c t buf =
      (case process_input e c t buf of
         (acts, Inl err) \<Rightarrow> (acts, Inl err)
       | (acts, Inr (go, t', rest)) \<Rightarrow>
           if go \<and> rest \<noteq> [] then prepend acts (h1_on_input e c t' rest) else (acts, Inr (t', rest)))"
    by (rule h1_on_input.simps)
next
  fix t t' :: "'t h1_state" and buf rest acts later
  assume step: "process_input e c t buf = (acts, Inr (True, t', rest))" and live: "h1_live t"
  then obtain s where t: "t = Active s" "\<not> h1_headers_complete s"
    by (cases t) (auto simp: h1_live_def process_input_def raise_def)
  then obtain line where l: "next_line buf = Some (line, rest)" and p: "process_line e c line s = (acts, Inr (True, t'))"
    using step by (auto simp: process_input_head and_then_Inr return_def split: option.splits prod.splits)
  show "h1_live t'" by (rule process_line_live[OF p t(2)])
  show "process_input e c t (buf @ later) = (acts, Inr (True, t', rest @ later))"
    using t next_line_append[OF l, of later] p by (simp add: process_input_head run_simps)
next
  fix t t' :: "'t h1_state" and buf rest acts later
  assume step: "process_input e c t buf = (acts, Inr (False, t', rest))" and live: "h1_live t" "h1_live t'"
  then obtain s where t: "t = Active s" "\<not> h1_headers_complete s"
    by (cases t) (auto simp: h1_live_def process_input_def raise_def)
  then have "acts = []" "t' = t" "rest = buf"
    using step live(2) by (auto simp: process_input_head and_then_Inr return_def dest: process_line_waits
        split: option.splits prod.splits)
  then show "process_input e c t (buf @ later) = prepend acts (process_input e c t' (rest @ later))" by simp
qed (rule process_input_shorter)

text \<open>The calls a connection makes as octets arrive.\<close>

primrec h1_feed :: "env \<Rightarrow> 't h1_class \<Rightarrow> 't h1_state \<Rightarrow> octets \<Rightarrow> octets list \<Rightarrow> ('t h1_state \<times> octets) run" where
  "h1_feed e c t rest [] = return (t, rest)"
| "h1_feed e c t rest (chunk # chunks) =
     and_then (h1_on_input e c t (rest @ chunk)) (\<lambda>(t', rest'). h1_feed e c t' rest' chunks)"

text \<open>What can be read at once can be read up to any octet.\<close>

lemma h1_on_input_prefix:
  assumes "h1_on_input e c t (a @ b) = (acts, Inr (t', rest))" "h1_live t" "h1_live t'"
  shows "\<exists>a1 t1 r1. h1_on_input e c t a = (a1, Inr (t1, r1)) \<and> h1_live t1"
  using assms(1,2)
proof (induction "length a" arbitrary: a t acts rule: less_induct)
  case less
  from less.prems obtain s where t: "t = Active s" "\<not> h1_headers_complete s"
    by (cases t) (auto simp: h1_live_def h1_on_input.simps process_input_def raise_def)
  show ?case
  proof (cases "next_line a")
    case None
    then show ?thesis using less.prems(2) t
      by (auto simp: h1_on_input.simps[of e c "Active s" a] process_input_head)
  next
    case (Some lr)
    then obtain line r where l: "next_line a = Some (line, r)" by (cases lr) auto
    note whole = process_input_head[OF t(2), of e c "a @ b"] and part = process_input_head[OF t(2), of e c a]
    obtain a1 go t1 where p: "process_line e c line s = (a1, Inr (go, t1))"
      using less.prems(1) whole next_line_append[OF l, of b]
      by (cases "process_line e c line s"; cases "snd (process_line e c line s)")
        (auto simp: t h1_on_input.simps[of e c "Active s" "a @ b"] run_simps)
    show ?thesis
    proof (cases go)
      case False
      then have "t1 = t'" using less.prems(1) whole next_line_append[OF l, of b] p
        by (simp add: t h1_on_input.simps[of e c "Active s" "a @ b"] run_simps)
      then show ?thesis using process_line_waits[of e c line s a1 t1] p False assms(3) by simp
    next
      case True
      then have live: "h1_live t1" using process_line_live[of e c line s a1 t1] p t by simp
      show ?thesis
      proof (cases "r = []")
        case True
        then show ?thesis using part l p \<open>go\<close> live t by (simp add: h1_on_input.simps[of e c "Active s" a] run_simps)
      next
        case False
        then have "h1_on_input e c t (a @ b) = prepend a1 (h1_on_input e c t1 (r @ b))"
          using whole next_line_append[OF l, of b] p \<open>go\<close> t by (simp add: h1_on_input.simps[of e c "Active s" "a @ b"] run_simps)
        then have "h1_on_input e c t1 (r @ b) = (fst (h1_on_input e c t1 (r @ b)), Inr (t', rest))"
          using less.prems(1) by (cases "h1_on_input e c t1 (r @ b)") (simp add: run_simps)
        then obtain a2 t2 r2 where "h1_on_input e c t1 r = (a2, Inr (t2, r2))" "h1_live t2"
          using less.hyps[OF next_line_shorter[OF l]] live by blast
        then show ?thesis using part l p \<open>go\<close> False t
          by (simp add: h1_on_input.simps[of e c "Active s" a] run_simps)
      qed
    qed
  qed
qed

lemma h1_feed_whole:
  assumes "h1_on_input e c t (r @ concat chunks) = (acts, Inr (t', rest))" "h1_live t" "h1_live t'"
    "chunks \<noteq> []" "[] \<notin> set chunks"
  shows "h1_feed e c t r chunks = (acts, Inr (t', rest))"
  using assms
proof (induction chunks arbitrary: t r acts)
  case (Cons x xs)
  show ?case
  proof (cases "xs = []")
    case True
    then show ?thesis using Cons.prems(1) by (simp add: run_simps)
  next
    case False
    then have "concat xs \<noteq> []" using Cons.prems(5) by (cases xs) auto
    obtain a1 t1 r1 where p: "h1_on_input e c t (r @ x) = (a1, Inr (t1, r1))" "h1_live t1"
      using h1_on_input_prefix[of e c t "r @ x" "concat xs" acts t' rest] Cons.prems by auto
    have "h1_on_input e c t (r @ concat (x # xs)) = prepend a1 (h1_on_input e c t1 (r1 @ concat xs))"
      using h1_input.loop_chunks[OF p(1) Cons.prems(2) p(2) \<open>concat xs \<noteq> []\<close>] by simp
    then obtain a2 where "h1_on_input e c t1 (r1 @ concat xs) = (a2, Inr (t', rest))" "acts = a1 @ a2"
      using Cons.prems(1) by (cases "h1_on_input e c t1 (r1 @ concat xs)") (simp add: run_simps)
    then show ?thesis
      using Cons.IH[OF _ p(2) Cons.prems(3) False] Cons.prems(5) p(1) by (simp add: run_simps)
  qed
qed simp

text \<open>C11: As long as no body is expected (\<open>h1_live\<close>), neither at the beginning of the input nor at its end,
  the way the network cuts the input of an HTTP/1 transport does not matter: fed piece by piece,
  it makes the same calls and ends in the same state as when it reads everything at once.  For
  messages with bodies the cuts do matter (C25, C26).\<close>

theorem h1_input_fragmentation:
  assumes "h1_on_input e c t (r @ concat chunks) = (acts, Inr (t', rest))" "h1_live t" "h1_live t'"
    "chunks \<noteq> []" "[] \<notin> set chunks"
  shows "h1_feed e c t r chunks = (acts, Inr (t', rest))"
  using assms by (rule h1_feed_whole)


section \<open>Reading the head of a message\<close>

text \<open>The header fields that are read as they were printed.\<close>

definition field_ok :: "hdr \<Rightarrow> bool" where
  "field_ok f \<longleftrightarrow> (case f of (n, v) \<Rightarrow>
     n \<noteq> [] \<and> CH_COLON \<notin> set n \<and> CH_LF \<notin> set n \<and> \<not> is_lws (hd n) \<and>
     CH_LF \<notin> set v \<and> (v = [] \<or> \<not> is_lws (hd v) \<and> \<not> is_lws (last v)))"

definition field_octets :: "hdr \<Rightarrow> octets" where
  "field_octets f = (case f of (n, v) \<Rightarrow> n @ [CH_COLON, CH_SP] @ v)"

definition received_field :: "hdr \<Rightarrow> hdr" where
  "received_field f = (case f of (n, v) \<Rightarrow> (ascii_lower n, v))"

definition add_field :: "hdr \<Rightarrow> h1 \<Rightarrow> h1" where
  "add_field f s = set_message_headers (message_headers s @ [received_field f]) (s\<lparr>h1_last_header := fst (received_field f)\<rparr>)"

lemma char_neqs [simp]:
  "CH_COLON \<noteq> CH_LF" "CH_SP \<noteq> CH_LF" "CH_LF \<noteq> CH_COLON" "CH_LF \<noteq> CH_SP" "CH_COLON \<noteq> CH_SP" "is_lws CH_SP" "\<not> is_lws CH_COLON" "\<not> is_lws CH_CR"
  by (simp_all add: CH_COLON_def CH_LF_def CH_SP_def CH_CR_def CH_TAB_def is_lws_def)

lemma trim_lws_value:
  assumes "v = [] \<or> \<not> is_lws (hd v) \<and> \<not> is_lws (last v)"
  shows "trim_lws (CH_SP # v) = v"
proof (cases "v = []")
  case True
  have "trim_trailing_lws [CH_SP] = [CH_SP]" by (simp add: trim_trailing_lws_def)
  then show ?thesis using True trim_leading_blanks[of "[CH_SP]" "[]"] by (simp add: trim_lws_def)
next
  case False
  then show ?thesis using trim_lws_blanks[of "[CH_SP]" "[]" v] assms by simp
qed

lemma header_line_field:
  assumes "field_ok f"
  shows "header_line (field_octets f) s = Inr (add_field f s)"
proof -
  obtain n v where f: "f = (n, v)" by (cases f)
  then have "find_char CH_COLON 0 (field_octets f) = Some (length n)"
    using assms find_char_0[of CH_COLON n "CH_SP # v"] by (simp add: field_ok_def field_octets_def)
  then show ?thesis
    using assms f trim_lws_value[of v]
    by (simp add: header_line_def field_octets_def field_ok_def nth_append add_field_def received_field_def
        hdr_add_def message_headers_def Let_def)
qed

lemma process_line_field:
  assumes "field_ok f" "h1_incoming s \<noteq> None"
  shows "process_line e c (field_octets f) s = ([], Inr (True, Active (add_field f s)))"
proof -
  obtain n v where f: "f = (n, v)" by (cases f)
  then have "n \<noteq> []" "\<not> is_lws (hd n)" using assms(1) by (simp_all add: field_ok_def)
  then have "field_octets f \<noteq> []" "\<not> (field_octets f ! 0 = CH_SP \<or> field_octets f ! 0 = CH_TAB)"
    using f by (simp_all add: field_octets_def is_lws_def nth_append hd_conv_nth)
  then show ?thesis using header_line_field[OF assms(1), of s] assms(2) by (auto simp: process_line_def run_simps)
qed

lemma add_field_fields [simp]:
  "h1_incoming (add_field f s) \<noteq> None \<longleftrightarrow> h1_incoming s \<noteq> None"
  "h1_headers_complete (add_field f s) = h1_headers_complete s"
  "h1_expected (add_field f s) = h1_expected s"
  by (simp_all add: add_field_def set_message_headers_def)

lemma h1_on_input_line:
  assumes "next_line buf = Some (line, rest)" "\<not> h1_headers_complete s" "process_line e c line s = (acts, Inr (True, t))"
    "rest \<noteq> []"
  shows "h1_on_input e c (Active s) buf = prepend acts (h1_on_input e c t rest)"
proof -
  have "process_input e c (Active s) buf = (acts, Inr (True, t, rest))"
    using assms(1,2,3) by (simp add: process_input_head run_simps)
  then show ?thesis using assms(4) by (subst h1_on_input.simps) simp
qed

lemma field_line:
  "field_ok f \<Longrightarrow> next_line (field_octets f @ CH_CR # CH_LF # rest) = Some (field_octets f, rest)"
  by (rule next_line_CRLF) (cases f, simp add: field_ok_def field_octets_def)

lemma render_headers_Cons:
  "render_headers (f # hs) = field_octets f @ CH_CR # CH_LF # render_headers hs"
  by (cases f) (simp add: render_headers_def field_octets_def)

lemma render_headers_Nil: "render_headers [] = [CH_CR, CH_LF]"
  by (simp add: render_headers_def)

lemma render_headers_not_Nil [simp]: "render_headers hs \<noteq> []"
  by (simp add: render_headers_def)

lemma h1_on_input_fields:
  assumes "\<forall>f\<in>set hs. field_ok f" "h1_incoming s \<noteq> None" "\<not> h1_headers_complete s"
  shows "h1_on_input e c (Active s) (render_headers hs @ rest)
    = h1_on_input e c (Active (fold add_field hs s)) (CH_CR # CH_LF # rest)"
  using assms
proof (induction hs arbitrary: s)
  case Nil
  then show ?case by (simp add: render_headers_Nil)
next
  case (Cons f hs)
  have "h1_on_input e c (Active s) (render_headers (f # hs) @ rest)
      = h1_on_input e c (Active (add_field f s)) (render_headers hs @ rest)"
    using h1_on_input_line[of "render_headers (f # hs) @ rest", OF _ Cons.prems(3) process_line_field[of f s e c]]
      field_line[of f "render_headers hs @ rest"] Cons.prems
    by (simp add: render_headers_Cons)
  moreover have "h1_incoming (add_field f s) \<noteq> None"
    using Cons.prems(2) by (cases "h1_incoming s") (simp_all add: add_field_def set_message_headers_def)
  ultimately show ?case using Cons.IH[of "add_field f s"] Cons.prems(1,3) by simp
qed

text \<open>The state behind the header fields, and what the empty line does there.\<close>

definition head_read :: "octets \<Rightarrow> headers \<Rightarrow> h1" where
  "head_read first hs =
     \<lparr>h1_incoming = Some \<lparr>im_first_line = first, im_message = \<lparr>m_body = [], m_headers = map received_field hs\<rparr>\<rparr>,
      h1_last_header = (if hs = [] then [] else fst (received_field (last hs))),
      h1_headers_complete = False, h1_expected = 0\<rparr>"

lemma head_read_fields [simp]:
  "h1_incoming (head_read first hs)
     = Some \<lparr>im_first_line = first, im_message = \<lparr>m_body = [], m_headers = map received_field hs\<rparr>\<rparr>"
  "\<not> h1_headers_complete (head_read first hs)" "h1_expected (head_read first hs) = 0"
  by (simp_all add: head_read_def)

lemma fold_add_field: "fold add_field hs (head_read first gs) = head_read first (gs @ hs)"
proof (induction hs arbitrary: gs)
  case (Cons f hs)
  have "add_field f (head_read first gs) = head_read first (gs @ [f])"
    by (simp add: add_field_def head_read_def set_message_headers_def message_headers_def)
  then show ?case using Cons[of "gs @ [f]"] by simp
qed simp

lemma h1_on_input_head:
  assumes "CH_LF \<notin> set first" "\<forall>f\<in>set hs. field_ok f"
  shows "h1_on_input e c (Active h1_new) (first @ CH_CR # CH_LF # render_headers hs @ rest)
    = h1_on_input e c (Active (head_read first hs)) (CH_CR # CH_LF # rest)"
proof -
  have "process_line e c first h1_new = ([], Inr (True, Active (head_read first [])))"
    by (simp add: process_line_def h1_new_def head_read_def message_new_def run_simps)
  from h1_on_input_line[OF next_line_CRLF[OF assms(1)] _ this]
  have "h1_on_input e c (Active h1_new) (first @ CH_CR # CH_LF # render_headers hs @ rest)
      = h1_on_input e c (Active (head_read first [])) (render_headers hs @ rest)"
    by (simp add: h1_new_def)
  also have "\<dots> = h1_on_input e c (Active (head_read first hs)) (CH_CR # CH_LF # rest)"
    using h1_on_input_fields[OF assms(2), of "head_read first []"] fold_add_field[of hs first "[]"] by simp
  finally show ?thesis .
qed


section \<open>Requests\<close>

text \<open>The octets of a request without a body, and the request the server makes of them.\<close>

definition request_octets :: "request \<Rightarrow> octets" where
  "request_octets r = request_line (rq_method r) (rq_path r) @ CH_CR # CH_LF # render_headers (m_headers (rq_message r))"

definition received :: "request \<Rightarrow> request" where
  "received r = r\<lparr>rq_message := \<lparr>m_body = [], m_headers = map received_field (m_headers (rq_message r))\<rparr>\<rparr>"

text \<open>
  Requests that are neither split by spaces or line ends of their own, nor ask for a body, an
  upgrade, a confirmation or the end of the connection.
\<close>

definition simple_request :: "env \<Rightarrow> request \<Rightarrow> bool" where
  "simple_request e r \<longleftrightarrow>
     CH_SP \<notin> set (rq_method r) \<and> CH_LF \<notin> set (rq_method r) \<and>
     CH_SP \<notin> set (rq_path r) \<and> CH_LF \<notin> set (rq_path r) \<and>
     (\<forall>f\<in>set (m_headers (rq_message r)). field_ok f) \<and>
     (let hs = m_headers (rq_message (received r))
      in get_content_length (e_pick e) hs = Inr 0 \<and>
         hdr_get (e_pick e) (str ''expect'') hs = no_header \<and>
         hdr_get (e_pick e) (str ''upgrade'') hs = no_header \<and>
         snd (hdr_get (e_pick e) (str ''connection'') hs) \<noteq> str ''close'')"

definition answers :: "env \<Rightarrow> request \<Rightarrow> unit run" where
  "answers e r = send_responses e (routes_dispatch (e_routes e) (received r))"

lemma request_line_no_LF:
  "CH_LF \<notin> set meth \<Longrightarrow> CH_LF \<notin> set path \<Longrightarrow> CH_LF \<notin> set (request_line meth path)"
  by (auto simp: request_line_def str_HTTP11) (auto simp: str_def of_char_def CH_LF_def)

lemma server_handle_simple:
  assumes "simple_request e r"
  shows "server_handle e \<lparr>im_first_line = request_line (rq_method r) (rq_path r), im_message = rq_message (received r)\<rparr>
    = and_then (answers e r) (\<lambda>_. return None)"
proof -
  have "\<lparr>rq_message = rq_message (received r), rq_method = rq_method r, rq_path = rq_path r\<rparr> = received r"
    by (simp add: received_def)
  then show ?thesis
    using assms
    by (simp add: server_handle_def parse_request_line_request_line simple_request_def run_simps
        server_on_request_def try_upgrade_def answers_def Let_def prepend_def flip: and_then_prepend)
qed

lemma blank_line: "next_line (CH_CR # CH_LF # rest) = Some ([], rest)"
  using next_line_CRLF[of "[]" rest] by simp

text \<open>The empty line behind the head of a message with no body.\<close>

lemma process_blank_line:
  assumes "get_content_length (e_pick e) (map received_field hs) = Inr 0"
    "hc_end_of_headers c (map received_field hs) = return ()"
    "hc_handle c \<lparr>im_first_line = first, im_message = \<lparr>m_body = [], m_headers = map received_field hs\<rparr>\<rparr> = (acts, Inr None)"
    "snd (hdr_get (e_pick e) (str ''connection'') (map received_field hs)) \<noteq> str ''close''"
  shows "process_line e c [] (head_read first hs) = (acts, Inr (True, Active h1_new))"
proof -
  have "message_headers (head_read first hs) = map received_field hs" by (simp add: message_headers_def)
  then show ?thesis
    using assms
    by (simp add: process_line_def mark_headers_complete_def run_simps is_message_complete_def handle_message_def
        reset_incoming_message_def h1_new_def)
qed

lemma h1_simple_request:
  assumes "simple_request e r" "answers e r = (acts, Inr ())"
  shows "h1_on_input e (h1_server e) (Active h1_new) (request_octets r @ rest)
    = (if rest = [] then (acts, Inr (Active h1_new, []))
       else prepend acts (h1_on_input e (h1_server e) (Active h1_new) rest))"
proof -
  let ?first = "request_line (rq_method r) (rq_path r)" and ?hs = "m_headers (rq_message r)"
  have r: "rq_message (received r) = \<lparr>m_body = [], m_headers = map received_field ?hs\<rparr>"
    by (simp add: received_def)
  have ends: "hc_end_of_headers (h1_server e) (map received_field ?hs) = return ()"
    using assms(1) by (simp add: h1_server_def server_end_of_headers_def simple_request_def r Let_def)
  have h: "hc_handle (h1_server e) \<lparr>im_first_line = ?first, im_message = \<lparr>m_body = [], m_headers = map received_field ?hs\<rparr>\<rparr>
      = (acts, Inr None)"
    using server_handle_simple[OF assms(1)] assms(2) by (simp add: h1_server_def r run_simps)
  have l: "process_line e (h1_server e) [] (head_read ?first ?hs) = (acts, Inr (True, Active h1_new))"
    using process_blank_line[OF _ ends h] assms(1) by (simp add: simple_request_def r Let_def)
  have "h1_on_input e (h1_server e) (Active h1_new) (request_octets r @ rest)
      = h1_on_input e (h1_server e) (Active (head_read ?first ?hs)) (CH_CR # CH_LF # rest)"
    using h1_on_input_head[OF request_line_no_LF, of "rq_method r" "rq_path r" ?hs] assms(1)
    by (simp add: request_octets_def simple_request_def)
  moreover have "process_input e (h1_server e) (Active (head_read ?first ?hs)) (CH_CR # CH_LF # rest)
      = (acts, Inr (True, Active h1_new, rest))"
    using l by (simp add: process_input_head blank_line run_simps)
  ultimately show ?thesis by (subst (asm) (2) h1_on_input.simps) simp
qed

text \<open>A sequence of requests without bodies, printed as the client prints them and pipelined in
  one buffer, is answered request by request and in order: each goes, with its header names in
  lower case, to the routes, and the responses of its handler are sent.\<close>

lemma h1_pipeline_answered:
  assumes "\<forall>r\<in>set rs. simple_request e r \<and> answers e r = (acts r, Inr ())"
  shows "h1_on_input e (h1_server e) (Active h1_new) (concat (map request_octets rs))
    = (concat (map acts rs), Inr (Active h1_new, []))"
  using assms
proof (induction rs)
  case Nil
  then show ?case by (simp add: h1_on_input.simps process_input_def run_simps)
next
  case (Cons r rs)
  moreover have "concat (map request_octets rs) = [] \<Longrightarrow> rs = []"
    by (cases rs) (simp_all add: request_octets_def)
  ultimately show ?case
    using h1_simple_request[of e r "acts r" "concat (map request_octets rs)"] by (auto simp: run_simps)
qed

definition plain_request :: request where
  "plain_request = \<lparr>rq_message = message_new, rq_method = str ''GET'', rq_path = str ''/''\<rparr>"

definition plain_routes :: routes where
  "plain_routes = add_handler (str ''/'') (static_responder (response_new 200 (str ''hi''))) []"

lemma plain_request_simple: "simple_request (plain_env rs) plain_request"
  by (simp add: simple_request_def plain_request_def received_def message_new_def get_content_length_def hdr_find_def
      hdr_get_def hdr_matching_def no_header_def str_def of_char_def CH_SP_def CH_LF_def)

lemma plain_request_answered: "snd (answers (plain_env plain_routes) plain_request) = Inr ()"
  by (simp add: answers_def plain_env_def plain_routes_def add_handler_def static_responder_def plain_request_def
      received_def add_standard_headers_def response_new_def send_response_def status_line_def status_string_def
      send_message_def run_simps Let_def)

lemma h1_pipeline_example:
  "h1_on_input (plain_env plain_routes) (h1_server (plain_env plain_routes)) (Active h1_new)
      (concat (map request_octets [plain_request, plain_request]))
    = (fst (answers (plain_env plain_routes) plain_request) @ fst (answers (plain_env plain_routes) plain_request),
       Inr (Active h1_new, []))"
  using h1_pipeline_answered[of "[plain_request, plain_request]" "plain_env plain_routes"
      "\<lambda>r. fst (answers (plain_env plain_routes) plain_request)"]
    plain_request_simple plain_request_answered
  by (simp add: prod_eq_iff)

theorem h1_input_fragmentation_witness:
  "h1_feed (plain_env []) (h1_server (plain_env [])) (Active h1_new) [] [[71, 69], [84]]
     = ([], Inr (Active h1_new, [71, 69, 84]))"
proof -
  have "h1_on_input (plain_env []) (h1_server (plain_env [])) (Active h1_new) [71, 69, 84] = ([], Inr (Active h1_new, [71, 69, 84]))"
    by (simp add: h1_on_input.simps process_input_head h1_new_def next_line_def CH_LF_def)
  then show ?thesis by (intro h1_input_fragmentation) (simp_all add: h1_live_def h1_new_def)
qed


section \<open>Bodies\<close>

text \<open>A body is read only from a buffer that holds exactly as many octets as are expected: from
  fewer, the code reads behind the buffer; more are all taken, and the message is never complete.\<close>

lemma h1_body_all_or_nothing:
  assumes "h1_incoming s = Some m" "m_body (im_message m) = []" "h1_headers_complete s" "0 < n"
    "h1_expected s = int n" "buf \<noteq> []"
  shows "process_input e c (Active s) buf =
    (if length buf < n then ([], Inl E_undefined)
     else if length buf = n then and_then (handle_message e c (append_body buf s)) (\<lambda>t. return (True, t, []))
     else ([], Inr (False, Active (append_body buf s), [])))"
  using assms
  by (auto simp: process_input_def is_message_complete_def read_body_def read_content_def Let_def run_simps
      advance_def append_body_def max_def)

lemma h1_body_all_or_nothing_witness:
  "process_input (plain_env []) (h1_server (plain_env []))
     (Active ((head_read [65] [])\<lparr>h1_headers_complete := True, h1_expected := 2\<rparr>)) [7] = ([], Inl E_undefined)"
  using h1_body_all_or_nothing[of "(head_read [65] [])\<lparr>h1_headers_complete := True, h1_expected := 2\<rparr>"
      "\<lparr>im_first_line = [65], im_message = \<lparr>m_body = [], m_headers = []\<rparr>\<rparr>" 2 "[7]"]
  by (simp add: head_read_def)

text \<open>A message whose body has outgrown its length takes all further input.\<close>

definition h1_overfull :: "h1 \<Rightarrow> bool" where
  "h1_overfull s \<longleftrightarrow> h1_headers_complete s \<and> 0 < h1_expected s \<and>
     (\<exists>m. h1_incoming s = Some m \<and> h1_expected s < int (length (m_body (im_message m))))"

lemma h1_overfull_input:
  assumes "h1_overfull s" "buf \<noteq> []"
  shows "if int (length buf) < h1_expected s then h1_on_input e c (Active s) buf = ([], Inl E_undefined)
    else h1_on_input e c (Active s) buf = ([], Inr (Active (append_body buf s), [])) \<and> h1_overfull (append_body buf s)"
  using assms
  by (auto simp: h1_overfull_def h1_on_input.simps process_input_def is_message_complete_def read_body_def
      read_content_def Let_def run_simps advance_def append_body_def max_def)

lemma h1_overfull_feed:
  assumes "h1_overfull s" "[] \<notin> set chunks"
  shows "fst (h1_feed e c (Active s) [] chunks) = []"
  using assms
proof (induction chunks arbitrary: s)
  case (Cons b bs)
  then have "b \<noteq> []" "[] \<notin> set bs" by auto
  then show ?case
    using h1_overfull_input[OF Cons.prems(1) \<open>b \<noteq> []\<close>, of e c] Cons.IH[of "append_body b s"]
    by (auto simp: run_simps split: if_splits)
qed (simp add: run_simps)

text \<open>The head of a message with a body, which is left in the buffer.\<close>

lemma process_blank_line_body:
  assumes "get_content_length (e_pick e) (map received_field hs) = Inr (int n)" "0 < n"
    "hc_end_of_headers c (map received_field hs) = return ()"
  shows "process_line e c [] (head_read first hs)
    = ([], Inr (False, Active ((head_read first hs)\<lparr>h1_headers_complete := True, h1_expected := int n\<rparr>)))"
proof -
  have "message_headers (head_read first hs) = map received_field hs" by (simp add: message_headers_def)
  then show ?thesis
    using assms by (simp add: process_line_def mark_headers_complete_def run_simps is_message_complete_def)
qed

lemma h1_head_then_body:
  assumes "CH_LF \<notin> set first" "\<forall>f\<in>set hs. field_ok f"
    "get_content_length (e_pick e) (map received_field hs) = Inr (int n)" "0 < n"
    "hc_end_of_headers c (map received_field hs) = return ()"
  shows "h1_on_input e c (Active h1_new) (first @ CH_CR # CH_LF # render_headers hs @ rest)
    = ([], Inr (Active ((head_read first hs)\<lparr>h1_headers_complete := True, h1_expected := int n\<rparr>), rest))"
proof -
  have "process_input e c (Active (head_read first hs)) (CH_CR # CH_LF # rest)
      = ([], Inr (False, Active ((head_read first hs)\<lparr>h1_headers_complete := True, h1_expected := int n\<rparr>), rest))"
    using process_blank_line_body[OF assms(3-5)] by (simp add: process_input_head blank_line run_simps)
  then show ?thesis
    unfolding h1_on_input_head[OF assms(1,2)] by (subst h1_on_input.simps) simp
qed

text \<open>A body in the segment of its head is never completed.\<close>

lemma body_with_head_stalls:
  assumes "CH_LF \<notin> set first" "\<forall>f\<in>set hs. field_ok f"
    "get_content_length (e_pick e) (map received_field hs) = Inr (int (length body))" "body \<noteq> []"
    "hc_end_of_headers c (map received_field hs) = return ()" "[] \<notin> set chunks"
  shows "fst (h1_feed e c (Active h1_new) []
    ((first @ CH_CR # CH_LF # render_headers hs @ body) # chunks)) = []"
proof -
  let ?s = "(head_read first hs)\<lparr>h1_headers_complete := True, h1_expected := int (length body)\<rparr>"
  have first: "h1_on_input e c (Active h1_new) (first @ CH_CR # CH_LF # render_headers hs @ body) = ([], Inr (Active ?s, body))"
    using assms(4) by (intro h1_head_then_body[OF assms(1,2,3) _ assms(5)]) simp
  have "fst (h1_feed e c (Active ?s) body chunks) = []"
  proof (cases chunks)
    case (Cons b bs)
    then have b: "b \<noteq> []" "[] \<notin> set bs" using assms(6) by auto
    have "process_input e c (Active ?s) (body @ b) = ([], Inr (False, Active (append_body (body @ b) ?s), []))"
      using h1_body_all_or_nothing[of ?s _ "length body" "body @ b" e c] assms(4) b by simp
    then have "h1_on_input e c (Active ?s) (body @ b) = ([], Inr (Active (append_body (body @ b) ?s), []))"
      by (subst h1_on_input.simps) simp
    moreover have "h1_overfull (append_body (body @ b) ?s)"
      using assms(4) b by (simp add: h1_overfull_def append_body_def)
    ultimately show ?thesis using Cons h1_overfull_feed[OF _ b(2)] by (simp add: run_simps)
  qed (simp add: run_simps)
  then show ?thesis using first by (simp add: run_simps)
qed

text \<open>C26: A message that arrives in one segment with its body is never handled: the transport stops
  behind the head, and when more arrives the buffer holds more than the body.  Whatever the peer
  sends next, nothing is ever called on the connection: no response, no close.\<close>

theorem h1_body_with_head_stalls:
  assumes "CH_LF \<notin> set first" "\<forall>f\<in>set hs. field_ok f"
    "get_content_length (e_pick e) (map received_field hs) = Inr (int (length body))" "body \<noteq> []"
    "hc_end_of_headers c (map received_field hs) = return ()" "[] \<notin> set chunks"
  shows "fst (h1_feed e c (Active h1_new) []
    ((first @ CH_CR # CH_LF # render_headers hs @ body) # chunks)) = []"
  using assms by (rule body_with_head_stalls)

definition length_field :: "nat \<Rightarrow> hdr" where
  "length_field n = (str ''content-length'', to_decimal n)"

lemma digit_not: "is_digit c \<Longrightarrow> c \<noteq> CH_LF \<and> \<not> is_lws c"
  by (auto simp: is_digit_def is_lws_def CH_LF_def CH_SP_def CH_TAB_def)

lemma field_ok_length: "field_ok (length_field n)"
  using to_decimal_digits[of _ n] digit_not hd_in_set[of "to_decimal n"] last_in_set[of "to_decimal n"]
  by (auto simp: field_ok_def length_field_def)
    (auto simp: str_def of_char_def CH_COLON_def CH_LF_def is_lws_def CH_SP_def CH_TAB_def)

lemma length_field_received:
  "n < 2 ^ 63 \<Longrightarrow> get_content_length (e_pick (plain_env rs)) [received_field (length_field n)] = Inr (int n)"
proof -
  have "received_field (length_field n) = length_field n"
    by (simp add: received_field_def length_field_def ascii_lower_def str_def of_char_def tolower_def)
  then show "n < 2 ^ 63 \<Longrightarrow> ?thesis"
    using get_content_length_single[OF plain_env_ok, of "[length_field n]" _ n rs]
    by (simp add: length_field_def hdr_matching_def)
qed

lemma no_expect: "hc_end_of_headers (h1_server (plain_env rs)) [received_field (length_field n)] = return ()"
proof -
  have "\<not> ci_equal (str ''expect'') (fst (received_field (length_field n)))"
    by (auto simp: received_field_def length_field_def str_def ascii_lower_def dest!: ci_equal_length)
  then show ?thesis
    by (simp add: h1_server_def server_end_of_headers_def hdr_get_def hdr_find_def hdr_matching_def split_beta)
qed

theorem h1_body_with_head_stalls_witness:
  "fst (h1_feed (plain_env []) (h1_server (plain_env [])) (Active h1_new) []
    [[80, 32, 47, 32, 49] @ CH_CR # CH_LF # render_headers [length_field 2] @ [1, 2], [9], [9, 9]]) = []"
  by (rule h1_body_with_head_stalls)
    (simp_all add: field_ok_length length_field_received no_expect CH_LF_def)

lemma h1_body_handled:
  assumes "CH_LF \<notin> set first" "\<forall>f\<in>set hs. field_ok f"
    "get_content_length (e_pick e) (map received_field hs) = Inr (int (length body))" "body \<noteq> []"
    "hc_end_of_headers c (map received_field hs) = return ()"
    "hc_handle c \<lparr>im_first_line = first, im_message = \<lparr>m_body = body, m_headers = map received_field hs\<rparr>\<rparr> = (acts, Inr None)"
    "snd (hdr_get (e_pick e) (str ''connection'') (map received_field hs)) \<noteq> str ''close''"
  shows "h1_feed e c (Active h1_new) [] [first @ CH_CR # CH_LF # render_headers hs, body] = (acts, Inr (Active h1_new, []))"
proof -
  let ?s = "(head_read first hs)\<lparr>h1_headers_complete := True, h1_expected := int (length body)\<rparr>"
  have "h1_on_input e c (Active h1_new) (first @ CH_CR # CH_LF # render_headers hs) = ([], Inr (Active ?s, []))"
    using h1_head_then_body[OF assms(1,2,3) _ assms(5), of "[]"] assms(4) by simp
  moreover have "handle_message e c (append_body body ?s) = (acts, Inr (Active h1_new))"
    using assms(6,7) by (simp add: handle_message_def append_body_def run_simps reset_incoming_message_def h1_new_def)
  then have "process_input e c (Active ?s) body = (acts, Inr (True, Active h1_new, []))"
    using h1_body_all_or_nothing[of ?s _ "length body" body e c] assms(4) by (simp add: run_simps)
  then have "h1_on_input e c (Active ?s) body = (acts, Inr (Active h1_new, []))"
    by (subst h1_on_input.simps) simp
  ultimately show ?thesis by (simp add: run_simps)
qed

text \<open>C25: A body that arrives in a segment of its own, behind the head, completes the message: it is
  handled with exactly that body.\<close>

theorem h1_body_in_own_segment:
  assumes "CH_LF \<notin> set first" "\<forall>f\<in>set hs. field_ok f"
    "get_content_length (e_pick e) (map received_field hs) = Inr (int (length body))" "body \<noteq> []"
    "hc_end_of_headers c (map received_field hs) = return ()"
    "hc_handle c \<lparr>im_first_line = first, im_message = \<lparr>m_body = body, m_headers = map received_field hs\<rparr>\<rparr> = (acts, Inr None)"
    "snd (hdr_get (e_pick e) (str ''connection'') (map received_field hs)) \<noteq> str ''close''"
  shows "h1_feed e c (Active h1_new) [] [first @ CH_CR # CH_LF # render_headers hs, body] = (acts, Inr (Active h1_new, []))"
  using assms by (rule h1_body_handled)

theorem h1_body_in_own_segment_witness:
  "snd (h1_feed (plain_env []) (h1_server (plain_env [])) (Active h1_new) []
    [[80, 32, 47, 32, 49] @ CH_CR # CH_LF # render_headers [length_field 2], [1, 2]]) = Inr (Active h1_new, [])"
proof -
  let ?e = "plain_env []" and ?c = "h1_server (plain_env [])"
  let ?m = "\<lparr>im_first_line = [80, 32, 47, 32, 49], im_message = \<lparr>m_body = [1, 2], m_headers = map received_field [length_field 2]\<rparr>\<rparr>"
  have none: "hdr_get (e_pick ?e) n [received_field (length_field 2)] = no_header" if "length n \<noteq> 14" for n
    using that by (auto simp: hdr_get_def hdr_find_def hdr_matching_def received_field_def length_field_def
        ascii_lower_def str_def dest!: ci_equal_length)
  have "parse_request_line [80, 32, 47, 32, 49] = Inr \<lparr>rl_method = [80], rl_path = [47], rl_version = [49]\<rparr>"
    using parse_request_line_parts[of "[80]" "[47]" "[49]"] by (simp add: CH_SP_def)
  then have "hc_handle ?c ?m = ([], Inr None)"
    using none[of "str ''upgrade''"]
    by (simp add: h1_server_def server_handle_def run_simps server_on_request_def try_upgrade_def Let_def plain_env_def str_def)
  from h1_body_in_own_segment[OF _ _ _ _ _ this] show ?thesis
    using none[of "str ''connection''"]
    by (simp add: field_ok_length length_field_received no_expect CH_LF_def no_header_def str_def)
qed

end
