(* ===== verification/Http1_Upgrade.thy ===== *)
theory Http1_Upgrade
  imports Http1_Transport
begin

text \<open>
  The HTTP/1 server on requests that leave the plain path: malformed first lines, fields without
  a blank behind the colon, and the upgrade to HTTP/2 of \<open>ServerTransport::tryUpgrade\<close>.
\<close>

section \<open>Malformed heads\<close>

text \<open>A request line with fewer than two spaces raises a protocol error when the head is complete.\<close>

lemma h1_bad_request_line:
  assumes "CH_LF \<notin> set first" "length (filter (\<lambda>c. c = CH_SP) first) < 2" "\<forall>f\<in>set hs. field_ok f"
    "get_content_length (e_pick e) (map received_field hs) = Inr 0"
    "hdr_get (e_pick e) (str ''expect'') (map received_field hs) = no_header"
  shows "h1_on_input e (h1_server e) (Active h1_new) (first @ CH_CR # CH_LF # render_headers hs @ rest)
    = ([], Inl E_protocol)"
proof -
  have "message_headers (head_read first hs) = map received_field hs" by (simp add: message_headers_def)
  then have "process_line e (h1_server e) [] (head_read first hs) = ([], Inl E_protocol)"
    using assms(4,5) parse_request_line_bad[OF assms(2)]
    by (simp add: process_line_def mark_headers_complete_def run_simps h1_server_def server_end_of_headers_def
        is_message_complete_def handle_message_def server_handle_def)
  then have "process_input e (h1_server e) (Active (head_read first hs)) (CH_CR # CH_LF # rest) = ([], Inl E_protocol)"
    by (simp add: process_input_head blank_line run_simps)
  then show ?thesis
    unfolding h1_on_input_head[OF assms(1,3)] by (subst h1_on_input.simps) simp
qed

text \<open>A header field without a space behind its colon keeps the colon in its value.\<close>

lemma header_line_keeps_colon:
  assumes "CH_COLON \<notin> set n" "v \<noteq> []" "\<not> is_lws (hd v)" "\<not> is_lws (last v)"
  shows "header_line (n @ CH_COLON # v) s
    = Inr (set_message_headers (message_headers s @ [(ascii_lower n, CH_COLON # v)]) (s\<lparr>h1_last_header := ascii_lower n\<rparr>))"
proof -
  have "trim_lws (CH_COLON # v) = CH_COLON # v"
    using trim_lws_blanks[of "[]" "[]" "CH_COLON # v"] assms(2,4) by simp
  moreover have "v ! 0 \<noteq> CH_SP" using assms(2,3) by (auto simp: hd_conv_nth)
  ultimately show ?thesis
    using find_char_0[OF assms(1), of v] assms(2)
    by (simp add: header_line_def nth_append hdr_add_def message_headers_def Let_def)
qed

lemma header_line_keeps_colon_witness:
  "header_line ([72] @ CH_COLON # [120]) (head_read [] [])
     = Inr (set_message_headers [([104], [CH_COLON, 120])] ((head_read [] [])\<lparr>h1_last_header := [104]\<rparr>))"
  using header_line_keeps_colon[of "[72]" "[120]" "head_read [] []"]
  by (simp add: CH_COLON_def is_lws_def CH_SP_def CH_TAB_def ascii_lower_def tolower_def message_headers_def)


section \<open>The upgrade to HTTP/2\<close>

text \<open>What is sent on an upgrade, and the transport that takes over.\<close>

definition upgrade_calls :: "env \<Rightarrow> action list" where
  "upgrade_calls e = fst (confirm_upgrade e (str ''h2c''))
     @ [Send_raw server_preface, Send_payload [frame_header_octets (response_header 1), [0x88], []]]"

definition h2_upgraded :: "settings \<Rightarrow> h2" where
  "h2_upgraded peer = h2_ready\<lparr>h2_peer := peer, h2_preface := False\<rparr>"

definition upgrade_request :: "env \<Rightarrow> request \<Rightarrow> settings \<Rightarrow> bool" where
  "upgrade_request e r peer \<longleftrightarrow>
     CH_SP \<notin> set (rq_method r) \<and> CH_LF \<notin> set (rq_method r) \<and>
     CH_SP \<notin> set (rq_path r) \<and> CH_LF \<notin> set (rq_path r) \<and>
     (\<forall>f\<in>set (m_headers (rq_message r)). field_ok f) \<and>
     (let hs = m_headers (rq_message (received r))
      in get_content_length (e_pick e) hs = Inr 0 \<and>
         hdr_get (e_pick e) (str ''expect'') hs = no_header \<and>
         snd (hdr_get (e_pick e) (str ''upgrade'') hs) = str ''h2c'' \<and>
         decode_base64_settings e (snd (hdr_get (e_pick e) (str ''HTTP2-Settings'') hs)) = Inr peer)"

lemma str_h2c [simp]: "str ''h2c'' \<noteq> []" "[] \<noteq> str ''h2c''"
  by (simp_all add: str_def)

lemma static_upgrades_h2c: "registry_get static_upgrades (str ''h2c'') = Some ()"
  by (simp add: registry_get_def static_upgrades_def registry_add_def)

lemma confirm_upgrade_sent: "\<exists>acts. confirm_upgrade e token = (acts, Inr ())"
  by (simp add: confirm_upgrade_def status_line_octets run_simps send_headers_def Let_def del: of_nat_add)

lemma h2_new_upgraded:
  "decode_base64_settings e b64 = Inr peer \<Longrightarrow> h2_new e (Some b64) = ([Send_raw server_preface], Inr (h2_upgraded peer))"
  by (simp add: h2_new_def run_simps h2_upgraded_def h2_ready_def)

lemma server_handle_upgrade:
  assumes "upgrade_request e r peer"
  shows "server_handle e \<lparr>im_first_line = request_line (rq_method r) (rq_path r), im_message = rq_message (received r)\<rparr>
    = (upgrade_calls e, Inr (Some (h2_upgraded peer)))"
proof -
  let ?hs = "m_headers (rq_message (received r))"
  have "hdr_get (e_pick e) (str ''upgrade'') ?hs \<noteq> no_header"
    using assms by (auto simp: upgrade_request_def no_header_def Let_def)
  moreover have "h2_get_stream 1 (h2_upgraded peer) = Inr (stream_new 1)"
    by (simp add: h2_get_stream_def h2_upgraded_def h2_ready_def)
  moreover obtain acts where "confirm_upgrade e (str ''h2c'') = (acts, Inr ())"
    using confirm_upgrade_sent by blast
  ultimately show ?thesis
    using assms
    by (simp add: server_handle_def parse_request_line_request_line upgrade_request_def run_simps server_on_request_def
        try_upgrade_def static_upgrades_h2c Let_def http2_upgrade_def h2_new_upgraded upgrade_to_def
        stream_on_request_def response_pieces upgrade_calls_def)
qed

text \<open>C34: A request to upgrade to h2c is answered with 101, the server's SETTINGS and the response
  on stream 1, in this order, and the connection's transport is replaced.  When more input is in
  the buffer, as it is when the client sends its preface at once, the loop of \<open>onInput\<close> goes on
  with the transport that has just been destroyed.\<close>

theorem h1_upgrade:
  assumes "upgrade_request e r peer"
  shows "h1_on_input e (h1_server e) (Active h1_new) (request_octets r @ rest)
    = (upgrade_calls e, if rest = [] then Inr (Replaced (h2_upgraded peer), []) else Inl E_undefined)"
proof -
  let ?first = "request_line (rq_method r) (rq_path r)" and ?hs = "m_headers (rq_message r)"
  have r: "rq_message (received r) = \<lparr>m_body = [], m_headers = map received_field ?hs\<rparr>"
    by (simp add: received_def)
  have "message_headers (head_read ?first ?hs) = map received_field ?hs" by (simp add: message_headers_def)
  then have "process_line e (h1_server e) [] (head_read ?first ?hs)
      = (upgrade_calls e, Inr (True, Replaced (h2_upgraded peer)))"
    using assms server_handle_upgrade[OF assms]
    by (simp add: process_line_def mark_headers_complete_def run_simps h1_server_def server_end_of_headers_def
        is_message_complete_def handle_message_def upgrade_request_def r Let_def)
  then have p: "process_input e (h1_server e) (Active (head_read ?first ?hs)) (CH_CR # CH_LF # rest)
      = (upgrade_calls e, Inr (True, Replaced (h2_upgraded peer), rest))"
    by (simp add: process_input_head blank_line run_simps)
  have "h1_on_input e (h1_server e) (Active h1_new) (request_octets r @ rest)
      = h1_on_input e (h1_server e) (Active (head_read ?first ?hs)) (CH_CR # CH_LF # rest)"
    using h1_on_input_head[OF request_line_no_LF, of "rq_method r" "rq_path r" ?hs] assms
    by (simp add: request_octets_def upgrade_request_def)
  moreover have "h1_on_input e (h1_server e) (Replaced (h2_upgraded peer)) rest = ([], Inl E_undefined)"
    by (simp add: h1_on_input.simps process_input_def run_simps)
  ultimately show ?thesis
    using p by (subst (asm) (2) h1_on_input.simps) (simp add: run_simps)
qed

definition h2c_request :: request where
  "h2c_request = \<lparr>rq_message = \<lparr>m_body = [], m_headers = [(str ''upgrade'', str ''h2c'')]\<rparr>,
     rq_method = str ''GET'', rq_path = str ''/''\<rparr>"

lemma h2c_request_ok: "upgrade_request (plain_env []) h2c_request settings_default"
proof -
  have h: "map received_field (m_headers (rq_message h2c_request)) = [(str ''upgrade'', str ''h2c'')]"
    by (simp add: h2c_request_def received_field_def ascii_lower_def str_def of_char_def tolower_def)
  have n: "hdr_matching n [(str ''upgrade'', str ''h2c'')] = []" if "length n \<noteq> 7" for n
    using that by (auto simp: hdr_matching_def str_def dest!: ci_equal_length)
  have "hdr_matching (str ''upgrade'') [(str ''upgrade'', str ''h2c'')] = [(str ''upgrade'', str ''h2c'')]"
    by (simp add: hdr_matching_def)
  then have "hdr_get (e_pick (plain_env [])) (str ''upgrade'') [(str ''upgrade'', str ''h2c'')] = (str ''upgrade'', str ''h2c'')"
    using hdr_find_single[OF plain_env_ok] by (simp add: hdr_get_def)
  moreover have "length (str ''content-length'') = 14" "length (str ''transfer-encoding'') = 17" "length (str ''expect'') = 6"
    "length (str ''HTTP2-Settings'') = 14" by (simp_all add: str_def)
  moreover have "decode_base64_settings (plain_env []) [] = Inr settings_default"
    by (simp add: decode_base64_settings_def plain_env_def settings_from_buffer_def settings_loop.simps)
  ultimately show ?thesis
    by (simp add: upgrade_request_def received_def h get_content_length_def hdr_get_def hdr_find_def n no_header_def)
      (simp add: h2c_request_def field_ok_def str_def of_char_def CH_SP_def CH_LF_def CH_COLON_def is_lws_def CH_TAB_def)
qed

theorem h1_upgrade_witness:
  "h1_on_input (plain_env []) (h1_server (plain_env [])) (Active h1_new) (request_octets h2c_request @ CLIENT_PREFACE)
     = (upgrade_calls (plain_env []), Inl E_undefined)"
  using h1_upgrade[OF h2c_request_ok, of CLIENT_PREFACE] by (simp add: CLIENT_PREFACE_def)

end
