(* ===== verification/Connection.thy ===== *)
theory Connection
  imports Stream_Buf "HOL-Library.Sublist"
begin

text \<open>
  Output of a connection: \<open>src/Connection.cpp\<close>.

  The socket is the argument \<open>io\<close>: how the calls of \<open>::send\<close> will end, in order (\<open>Sent n\<close>: there is
  room for \<open>n\<close> octets, so the call takes these, or all it is asked for when that is less;
  \<open>Again\<close>: \<open>EAGAIN\<close> or \<open>EWOULDBLOCK\<close>; \<open>Failed\<close>: any other error; no more results means \<open>Again\<close>).
  The field \<open>wire\<close> collects the octets the socket has taken,
  \<open>wants_out\<close> is whether the descriptor is subscribed to \<open>EPOLLOUT\<close>, \<open>closed\<close> whether
  \<open>fd_\<close> is -1.  Reading octets behind the end of the caller's buffer is undefined: the result
  is \<open>None\<close>.  Only the first call of \<open>epoll_ctl\<close>, by the constructor, may fail.
\<close>

section \<open>The code\<close>

datatype io_result = Sent nat | Again | Failed

record conn =
  outgoing :: streambuf
  closed :: bool
  wants_out :: bool
  wire :: "byte list"

definition conn_new :: conn where
  "conn_new = \<lparr>outgoing = sb_empty, closed = False, wants_out = False, wire = []\<rparr>"

text \<open>The constructor: \<open>conn_new\<close> are its members, \<open>added\<close> is whether \<open>epoll_ctl\<close> takes the
  descriptor.\<close>

datatype connection_error = Bad_event_fd | Bad_connection_fd | Epoll_add_failed

definition subscribe_to_input :: "bool \<Rightarrow> conn \<Rightarrow> connection_error + conn" where
  "subscribe_to_input added c = (if added then Inr c else Inl Epoll_add_failed)"

definition connection :: "int \<Rightarrow> int \<Rightarrow> bool \<Rightarrow> connection_error + conn" where
  "connection epfd fd added =
     (let c = conn_new
      in if epfd < 0 then Inl Bad_event_fd
         else if fd < 0 then Inl Bad_connection_fd
         else subscribe_to_input added c)"

definition update_subscription :: "conn \<Rightarrow> conn" where
  "update_subscription c = c\<lparr>wants_out := \<not> sb_is_empty (outgoing c)\<rparr>"

definition conn_close :: "conn \<Rightarrow> conn" where
  "conn_close c = c\<lparr>closed := True, wants_out := False\<rparr>"

definition connection_delete :: "conn \<Rightarrow> conn" where
  "connection_delete c = conn_close c"

text \<open>One call of \<open>::send\<close> that asks for \<open>asked\<close> octets: a closed descriptor fails.\<close>

fun sys_send :: "conn \<Rightarrow> nat \<Rightarrow> io_result list \<Rightarrow> io_result \<times> io_result list" where
  "sys_send c asked io =
     (if closed c then (Failed, io)
      else case io of
        [] \<Rightarrow> (Again, [])
      | Sent n # io \<Rightarrow> (Sent (min n asked), io)
      | r # io \<Rightarrow> (r, io))"

lemma sys_send_shorter: "sys_send c asked io = (Sent n, io') \<Longrightarrow> length io' < length io"
  by (auto split: if_splits list.splits io_result.splits)

declare sys_send.simps [simp del]

text \<open>The loop of \<open>onPollOut\<close>: the last result beside the state.  It asks for what is queued, so
  \<open>advance\<close> never throws.\<close>

function poll_out_loop :: "io_result list \<Rightarrow> conn \<Rightarrow> io_result \<times> conn \<times> io_result list" where
  "poll_out_loop io c =
     (case sys_send c (sb_size (outgoing c)) io of
        (Sent n, io') \<Rightarrow>
          if n = 0 then (Sent n, c, io')
          else (case sb_advance n (outgoing c) of
                  None \<Rightarrow> (Sent n, c, io')
                | Some sb \<Rightarrow>
                    let c = c\<lparr>outgoing := sb, wire := wire c @ take n (content (outgoing c))\<rparr>
                    in if sb_is_empty (outgoing c) then (Sent n, c, io') else poll_out_loop io' c)
      | (r, io') \<Rightarrow> (r, c, io'))"
  by pat_completeness auto
termination
  by (relation "measure (\<lambda>(io, c). length io)") (auto dest: sys_send_shorter[OF sym])

declare poll_out_loop.simps [simp del]

definition on_poll_out :: "io_result list \<Rightarrow> conn \<Rightarrow> conn \<times> io_result list" where
  "on_poll_out io c =
     (if sb_is_empty (outgoing c) then (update_subscription c, io)
      else
        let (sent, c, io) = poll_out_loop io c
        in if sent = Failed then (conn_close c, io)
           else if sb_is_empty (outgoing c) then (update_subscription c, io)
           else (c, io))"

text \<open>
  The loop of \<open>send_immediate\<close>: each round asks for \<open>len + total_sent\<close> octets from
  \<open>data + total_sent\<close>.  When the socket takes more of them than are left of the data, memory behind
  the data is read: undefined.
\<close>

function send_loop ::
  "io_result list \<Rightarrow> byte list \<Rightarrow> nat \<Rightarrow> conn \<Rightarrow> (io_result \<times> nat \<times> conn \<times> io_result list) option" where
  "send_loop io data total_sent c =
     (case sys_send c (length data + total_sent) io of
        (Sent n, io') \<Rightarrow>
          if n = 0 then Some (Sent n, total_sent, c, io')
          else if length data < total_sent + n then None
          else
            let c = c\<lparr>wire := wire c @ take n (drop total_sent data)\<rparr>;
                total_sent = total_sent + n
            in if total_sent < length data then send_loop io' data total_sent c
               else Some (Sent n, total_sent, c, io')
      | (r, io') \<Rightarrow> Some (r, total_sent, c, io'))"
  by pat_completeness auto
termination
  by (relation "measure (\<lambda>(io, data, total_sent, c). length io)") (auto dest: sys_send_shorter[OF sym])

declare send_loop.simps [simp del]

definition send_immediate :: "io_result list \<Rightarrow> byte list \<Rightarrow> conn \<Rightarrow> (conn \<times> io_result list) option" where
  "send_immediate io data c =
     map_option (\<lambda>(sent, total_sent, c, io).
         if sent = Sent 0 \<or> sent = Failed then (conn_close c, io)
         else if total_sent < length data
         then (c\<lparr>outgoing := sb_write (drop total_sent data) (outgoing c)\<rparr>, io)
         else (c, io))
       (send_loop io data 0 c)"

definition queue_and_send :: "io_result list \<Rightarrow> byte list \<Rightarrow> conn \<Rightarrow> conn \<times> io_result list" where
  "queue_and_send io data c = on_poll_out io (c\<lparr>outgoing := sb_write data (outgoing c)\<rparr>)"

definition conn_send :: "io_result list \<Rightarrow> byte list \<Rightarrow> conn \<Rightarrow> (conn \<times> io_result list) option" where
  "conn_send io data c =
     (if sb_is_empty (outgoing c) then send_immediate io data c
      else Some (queue_and_send io data c))"

text \<open>
  \<open>getOutgoingPayload\<close>, writes to the payload and \<open>send(payload)\<close>, as all callers do it: what
  overflowed is in the outgoing buffer, what the payload still holds is sent.
\<close>

definition conn_send_pieces ::
  "io_result list \<Rightarrow> byte list \<Rightarrow> byte list list \<Rightarrow> conn \<Rightarrow> (conn \<times> io_result list) option" where
  "conn_send_pieces io garbage pieces c =
     (let p = fold pl_write pieces (payload_on garbage (outgoing c))
      in conn_send io (take (pl_len p) (pl_data p)) (c\<lparr>outgoing := target p\<rparr>))"


section \<open>No octet is lost or reordered\<close>

definition conn_ok :: "conn \<Rightarrow> bool" where
  "conn_ok c \<longleftrightarrow> sb_ok (outgoing c)"

text \<open>Everything accepted so far: what the socket took, then what is queued.\<close>

definition accepted :: "conn \<Rightarrow> byte list" where
  "accepted c = wire c @ content (outgoing c)"

lemma sb_is_empty_content: "sb_ok sb \<Longrightarrow> sb_is_empty sb \<longleftrightarrow> content sb = []"
  using length_content[of sb] by (auto simp: sb_is_empty_def)

lemma poll_out_loop_accepted:
  assumes "conn_ok c" "poll_out_loop io c = (r, c', io')"
  shows "conn_ok c' \<and> accepted c' = accepted c \<and> wants_out c' = wants_out c \<and> closed c' = closed c"
  using assms
proof (induction io c rule: poll_out_loop.induct)
  case (1 io c)
  show ?case
  proof (cases "\<exists>n io2 sb. sys_send c (sb_size (outgoing c)) io = (Sent n, io2) \<and> n \<noteq> 0
      \<and> sb_advance n (outgoing c) = Some sb")
    case False
    then have "c' = c"
      using "1.prems"(2) by (auto simp: poll_out_loop.simps[of io c] split: io_result.splits prod.splits if_splits option.splits)
    then show ?thesis using "1.prems"(1) by simp
  next
    case True
    then obtain n io2 sb where n: "sys_send c (sb_size (outgoing c)) io = (Sent n, io2)" "n \<noteq> 0"
      and sb: "sb_advance n (outgoing c) = Some sb" by blast
    let ?c = "c\<lparr>outgoing := sb, wire := wire c @ take n (content (outgoing c))\<rparr>"
    have "sb_ok sb \<and> content sb = drop n (content (outgoing c))"
      using sb_advance_content[of "outgoing c" n] "1.prems"(1) sb by (auto simp: conn_ok_def split: if_splits)
    then have c: "conn_ok ?c" "accepted ?c = accepted c" by (auto simp: conn_ok_def accepted_def)
    show ?thesis
    proof (cases "sb_is_empty sb")
      case True
      then have "c' = ?c" using "1.prems"(2) n sb by (simp add: poll_out_loop.simps[of io c] Let_def)
      then show ?thesis using c by simp
    next
      case False
      then have "poll_out_loop io2 ?c = (r, c', io')"
        using "1.prems"(2) n sb by (simp add: poll_out_loop.simps[of io c] Let_def)
      then show ?thesis using "1.IH"[OF n(1)[symmetric] refl n(2) sb refl _ c(1)] False c by simp
    qed
  qed
qed

lemma on_poll_out_accepted:
  assumes "conn_ok c" "on_poll_out io c = (c', io')"
  shows "conn_ok c' \<and> accepted c' = accepted c \<and> (\<not> wants_out c \<longrightarrow> \<not> wants_out c') \<and> (closed c \<longrightarrow> closed c')"
proof -
  obtain r c1 io1 where l: "poll_out_loop io c = (r, c1, io1)" by (cases "poll_out_loop io c")
  from poll_out_loop_accepted[OF assms(1) l] assms show ?thesis
    by (auto simp: on_poll_out_def l update_subscription_def conn_close_def conn_ok_def accepted_def split: if_splits)
qed

lemma send_loop_accepted:
  assumes "send_loop io data ts c = Some (r, ts', c', io')" "ts \<le> length data"
  shows "ts \<le> ts' \<and> ts' \<le> length data \<and> c' = c\<lparr>wire := wire c @ take (ts' - ts) (drop ts data)\<rparr>"
  using assms
proof (induction io data ts c rule: send_loop.induct)
  case (1 io data ts c)
  show ?case
  proof (cases "\<exists>n io2. sys_send c (length data + ts) io = (Sent n, io2) \<and> n \<noteq> 0")
    case False
    then have "c' = c \<and> ts' = ts"
      using "1.prems"(1) by (auto simp: send_loop.simps[of io data] split: io_result.splits prod.splits if_splits)
    then show ?thesis using "1.prems"(2) by simp
  next
    case True
    then obtain n io2 where n: "sys_send c (length data + ts) io = (Sent n, io2)" "n \<noteq> 0" by blast
    let ?c = "c\<lparr>wire := wire c @ take n (drop ts data)\<rparr>"
    have room: "\<not> length data < ts + n"
      using "1.prems"(1) n by (auto simp: send_loop.simps[of io data])
    show ?thesis
    proof (cases "ts + n < length data")
      case True
      then have "send_loop io2 data (ts + n) ?c = Some (r, ts', c', io')"
        using "1.prems"(1) n room by (simp add: send_loop.simps[of io data ts c] Let_def)
      then have IH: "ts + n \<le> ts' \<and> ts' \<le> length data
          \<and> c' = ?c\<lparr>wire := wire ?c @ take (ts' - (ts + n)) (drop (ts + n) data)\<rparr>"
        using "1.IH"[OF n(1)[symmetric] refl n(2) room refl refl True] True by simp
      have "take (ts' - ts) (drop ts data)
          = take n (drop ts data) @ take (ts' - (ts + n)) (drop (ts + n) data)"
        using IH take_add[of n "ts' - (ts + n)" "drop ts data"] by (simp add: add.commute)
      then show ?thesis using IH by simp
    next
      case False
      then have "c' = ?c \<and> ts' = ts + n"
        using "1.prems"(1) n room by (simp add: send_loop.simps[of io data ts c] Let_def)
      then show ?thesis using room by simp
    qed
  qed
qed

lemma conn_send_accepted:
  assumes ok: "conn_ok c" and s: "conn_send io data c = Some (c', io')"
  shows "conn_ok c' \<and> (closed c' \<or> accepted c' = accepted c @ data) \<and> (\<not> wants_out c \<longrightarrow> \<not> wants_out c')
    \<and> (closed c \<longrightarrow> closed c')"
proof (cases "sb_is_empty (outgoing c)")
  case True
  then have empty: "content (outgoing c) = []" using ok sb_is_empty_content by (simp add: conn_ok_def)
  obtain r ts c1 io1 where l: "send_loop io data 0 c = Some (r, ts, c1, io1)"
    using s True by (auto simp: conn_send_def send_immediate_def)
  from send_loop_accepted[OF l]
  have t: "ts \<le> length data" and c1: "c1 = c\<lparr>wire := wire c @ take ts data\<rparr>" by simp_all
  have c': "c' = (if r = Sent 0 \<or> r = Failed then conn_close c1
      else if ts < length data then c1\<lparr>outgoing := sb_write (drop ts data) (outgoing c1)\<rparr> else c1)"
    using s True l by (auto simp: conn_send_def send_immediate_def split: if_splits)
  show ?thesis
    using c' c1 t empty sb_write_content[of "outgoing c" "drop ts data"] ok
    by (auto simp: conn_ok_def accepted_def conn_close_def)
next
  case False
  then have q: "on_poll_out io (c\<lparr>outgoing := sb_write data (outgoing c)\<rparr>) = (c', io')"
    using s by (simp add: conn_send_def queue_and_send_def)
  have w: "sb_ok (sb_write data (outgoing c)) \<and> content (sb_write data (outgoing c)) = content (outgoing c) @ data"
    using sb_write_content ok by (simp add: conn_ok_def)
  have "conn_ok (c\<lparr>outgoing := sb_write data (outgoing c)\<rparr>)" using w by (simp add: conn_ok_def)
  from on_poll_out_accepted[OF this q] w show ?thesis by (simp add: accepted_def)
qed

lemma conn_send_pieces_accepted:
  assumes ok: "conn_ok c" and g: "length garbage = PAYLOAD_CAPACITY"
    and s: "conn_send_pieces io garbage pieces c = Some (c', io')"
  shows "conn_ok c' \<and> (closed c' \<or> accepted c' = accepted c @ concat pieces)
    \<and> (\<not> wants_out c \<longrightarrow> \<not> wants_out c') \<and> (closed c \<longrightarrow> closed c')"
proof -
  define p where "p = fold pl_write pieces (payload_on garbage (outgoing c))"
  have start: "pl_ok (payload_on garbage (outgoing c))"
    and none: "pending (payload_on garbage (outgoing c)) = content (outgoing c)"
    using ok g by (simp_all add: pl_ok_def payload_on_def conn_ok_def pending_def pl_content_def)
  have p: "pl_ok p" "pending p = content (outgoing c) @ concat pieces"
    using payload.puts_inv[OF start] payload.puts_append[OF start] by (simp_all add: p_def none)
  have "conn_ok (c\<lparr>outgoing := target p\<rparr>)" using p by (simp add: conn_ok_def pl_ok_def)
  moreover have "conn_send io (take (pl_len p) (pl_data p)) (c\<lparr>outgoing := target p\<rparr>) = Some (c', io')"
    using s by (simp add: conn_send_pieces_def Let_def flip: p_def)
  ultimately have "conn_ok c' \<and> (closed c' \<or> accepted c' = accepted (c\<lparr>outgoing := target p\<rparr>) @ take (pl_len p) (pl_data p))
      \<and> (\<not> wants_out c \<longrightarrow> \<not> wants_out c') \<and> (closed c \<longrightarrow> closed c')"
    using conn_send_accepted by fastforce
  then show ?thesis using p(2) by (simp add: accepted_def pending_def pl_content_def)
qed


section \<open>Sockets\<close>

text \<open>
  A socket blocks when it is full if a call that took less than a send of \<open>N\<close> octets asks for is
  followed by one that takes nothing: no other octets are read from the buffer in between.
  A sound socket moreover neither fails nor takes zero octets; a roomy one takes everything.
\<close>

fun blocks_when_full :: "nat \<Rightarrow> io_result list \<Rightarrow> bool" where
  "blocks_when_full N [] = True"
| "blocks_when_full N (r # io) =
     ((case r of Sent n \<Rightarrow> N \<le> n \<or> io = [] \<or> hd io = Again | _ \<Rightarrow> True) \<and> blocks_when_full N io)"

definition sound_socket :: "nat \<Rightarrow> io_result list \<Rightarrow> bool" where
  "sound_socket N io \<longleftrightarrow> blocks_when_full N io \<and> Failed \<notin> set io \<and> Sent 0 \<notin> set io"

definition roomy_socket :: "nat \<Rightarrow> io_result list \<Rightarrow> bool" where
  "roomy_socket N io \<longleftrightarrow> (\<forall>r\<in>set io. \<exists>n\<ge>N. r = Sent n)"

lemma blocks_when_full_suffix: "suffix io' io \<Longrightarrow> blocks_when_full N io \<Longrightarrow> blocks_when_full N io'"
proof (induction io)
  case (Cons r io)
  then show ?case by (cases "io' = r # io") (auto simp: suffix_Cons)
qed simp

lemma blocks_when_full_less: "blocks_when_full N io \<Longrightarrow> M \<le> N \<Longrightarrow> blocks_when_full M io"
  by (induction io) (auto split: io_result.splits)

lemma sound_socket_suffix: "suffix io' io \<Longrightarrow> sound_socket N io \<Longrightarrow> sound_socket N io'"
  using blocks_when_full_suffix[of io' io N] set_mono_suffix[of io' io] by (auto simp: sound_socket_def)

lemma sound_socket_less: "sound_socket N io \<Longrightarrow> M \<le> N \<Longrightarrow> sound_socket M io"
  by (auto simp: sound_socket_def intro: blocks_when_full_less)

lemma roomy_sound: "roomy_socket N io \<Longrightarrow> 0 < N \<Longrightarrow> sound_socket N io"
proof -
  have "roomy_socket N io \<Longrightarrow> blocks_when_full N io" by (induction io) (auto simp: roomy_socket_def)
  then show "roomy_socket N io \<Longrightarrow> 0 < N \<Longrightarrow> sound_socket N io" by (auto simp: sound_socket_def roomy_socket_def)
qed

lemma sys_send_result:
  assumes "sys_send c asked io = (r, io')"
  shows "suffix io' io" "r = Failed \<Longrightarrow> closed c \<or> Failed \<in> set io" "r = Sent 0 \<Longrightarrow> Sent 0 \<in> set io \<or> asked = 0"
    "closed c \<Longrightarrow> r = Failed" "r = Sent n \<Longrightarrow> n \<le> asked"
  using assms by (auto simp: sys_send.simps suffix_ConsI min_def split: if_splits list.splits io_result.splits)

lemma poll_out_loop_result:
  assumes "poll_out_loop io c = (r, c', io')"
  shows "suffix io' io \<and> (r = Failed \<longrightarrow> closed c \<or> Failed \<in> set io)"
  using assms
proof (induction io c rule: poll_out_loop.induct)
  case (1 io c)
  obtain r1 io1 where s: "sys_send c (sb_size (outgoing c)) io = (r1, io1)" by fastforce
  note f = sys_send_result[OF s]
  show ?case
  proof (cases "\<exists>n sb. r1 = Sent n \<and> n \<noteq> 0 \<and> sb_advance n (outgoing c) = Some sb \<and> \<not> sb_is_empty sb")
    case True
    then obtain n sb where n: "r1 = Sent n" "n \<noteq> 0" "sb_advance n (outgoing c) = Some sb" "\<not> sb_is_empty sb" by blast
    let ?c = "c\<lparr>outgoing := sb, wire := wire c @ take n (content (outgoing c))\<rparr>"
    have "poll_out_loop io1 ?c = (r, c', io')"
      using "1.prems" s n by (simp add: poll_out_loop.simps[of io c] Let_def)
    then have "suffix io' io1 \<and> (r = Failed \<longrightarrow> closed c \<or> Failed \<in> set io1)"
      using "1.IH"[OF s[symmetric] n(1) n(2) n(3) refl] n(4) by simp
    then show ?thesis using f(1) set_mono_suffix[OF f(1)] by (auto intro: suffix_order.trans)
  next
    case False
    then have "io' = io1 \<and> (r = Failed \<longrightarrow> r1 = Failed)"
      using "1.prems" s by (auto simp: poll_out_loop.simps[of io c] Let_def split: io_result.splits if_splits option.splits)
    then show ?thesis using f(1,2) by auto
  qed
qed

lemma on_poll_out_result:
  assumes "conn_ok c" "on_poll_out io c = (c', io')"
  shows "suffix io' io" "closed c' \<Longrightarrow> closed c \<or> Failed \<in> set io"
proof -
  obtain r c1 io1 where l: "poll_out_loop io c = (r, c1, io1)" by (cases "poll_out_loop io c")
  have "closed c1 = closed c" using poll_out_loop_accepted[OF assms(1) l] by simp
  with poll_out_loop_result[OF l] assms(2) show "suffix io' io" "closed c' \<Longrightarrow> closed c \<or> Failed \<in> set io"
    by (auto simp: on_poll_out_def l update_subscription_def conn_close_def split: if_splits)
qed

lemma send_loop_result:
  assumes "send_loop io data ts c = Some (r, ts', c', io')"
  shows "suffix io' io \<and> (r = Failed \<longrightarrow> closed c \<or> Failed \<in> set io)
    \<and> (r = Sent 0 \<longrightarrow> Sent 0 \<in> set io \<or> data = [])"
  using assms
proof (induction io data ts c rule: send_loop.induct)
  case (1 io data ts c)
  obtain r1 io1 where s: "sys_send c (length data + ts) io = (r1, io1)" by fastforce
  note f = sys_send_result[OF s]
  show ?case
  proof (cases "\<exists>n. r1 = Sent n \<and> n \<noteq> 0 \<and> ts + n < length data")
    case True
    then obtain n where n: "r1 = Sent n" "n \<noteq> 0" "ts + n < length data" by blast
    let ?c = "c\<lparr>wire := wire c @ take n (drop ts data)\<rparr>"
    have "send_loop io1 data (ts + n) ?c = Some (r, ts', c', io')"
      using "1.prems" s n by (simp add: send_loop.simps[of io data ts c] Let_def)
    then have "suffix io' io1 \<and> (r = Failed \<longrightarrow> closed c \<or> Failed \<in> set io1) \<and> (r = Sent 0 \<longrightarrow> Sent 0 \<in> set io1 \<or> data = [])"
      using "1.IH"[OF s[symmetric] n(1) n(2) _ refl refl] n(3) by simp
    then show ?thesis using f(1) set_mono_suffix[OF f(1)] by (auto intro: suffix_order.trans)
  next
    case False
    then have "io' = io1 \<and> r1 = r"
      using "1.prems" s by (auto simp: send_loop.simps[of io data ts c] Let_def split: io_result.splits if_splits)
    then show ?thesis using f(1-3) by auto
  qed
qed

text \<open>A first call never reads behind the data; a second one does not if the socket is full.\<close>

lemma send_loop_defined:
  assumes "blocks_when_full (length data) io"
  shows "send_loop io data 0 c \<noteq> None"
proof (cases "\<exists>n io1. io = Sent n # io1 \<and> \<not> closed c \<and> 0 < n \<and> n < length data")
  case True
  then obtain n io1 where n: "io = Sent n # io1" "\<not> closed c" "0 < n" "n < length data" by blast
  have "io1 = [] \<or> (\<exists>io2. io1 = Again # io2)" using assms n by (cases io1) auto
  then have "\<exists>r. send_loop io1 data n (c\<lparr>wire := wire c @ take n data\<rparr>) = Some r"
    by (subst send_loop.simps) (auto simp: sys_send.simps)
  then show ?thesis using n by (subst send_loop.simps) (auto simp: sys_send.simps min_def Let_def)
next
  case False
  then show ?thesis
    by (subst send_loop.simps) (auto simp: sys_send.simps Let_def min_def split: list.splits io_result.splits)
qed

lemma conn_send_result:
  assumes "conn_ok c" "conn_send io data c = Some (c', io')"
  shows "suffix io' io"
    "closed c' \<Longrightarrow> closed c \<or> Failed \<in> set io \<or> Sent 0 \<in> set io \<or> data = [] \<and> content (outgoing c) = []"
proof -
  have "suffix io' io \<and> (closed c' \<longrightarrow> closed c \<or> Failed \<in> set io \<or> Sent 0 \<in> set io \<or> data = [] \<and> content (outgoing c) = [])"
  proof (cases "sb_is_empty (outgoing c)")
    case True
    then have empty: "content (outgoing c) = []" using assms(1) sb_is_empty_content by (simp add: conn_ok_def)
    obtain r ts c1 where l: "send_loop io data 0 c = Some (r, ts, c1, io')"
      and c': "c' = (if r = Sent 0 \<or> r = Failed then conn_close c1
        else if ts < length data then c1\<lparr>outgoing := sb_write (drop ts data) (outgoing c1)\<rparr> else c1)"
      using assms(2) True by (auto simp: conn_send_def send_immediate_def split: if_splits)
    have "closed c1 = closed c" using send_loop_accepted[OF l] by simp
    then show ?thesis using send_loop_result[OF l] c' empty by (auto split: if_splits)
  next
    case False
    let ?c = "c\<lparr>outgoing := sb_write data (outgoing c)\<rparr>"
    have "conn_ok ?c" using assms(1) sb_write_content by (simp add: conn_ok_def)
    moreover have "on_poll_out io ?c = (c', io')" using assms(2) False by (simp add: conn_send_def queue_and_send_def)
    ultimately show ?thesis using on_poll_out_result[of ?c io c' io'] by auto
  qed
  then show "suffix io' io"
    "closed c' \<Longrightarrow> closed c \<or> Failed \<in> set io \<or> Sent 0 \<in> set io \<or> data = [] \<and> content (outgoing c) = []"
    by blast+
qed

lemma conn_send_defined: "blocks_when_full (length data) io \<Longrightarrow> \<exists>c' io'. conn_send io data c = Some (c', io')"
proof -
  assume "blocks_when_full (length data) io"
  then have "conn_send io data c \<noteq> None"
    using send_loop_defined[of data io c]
    by (simp only: conn_send_def send_immediate_def option.map_disc_iff split: if_split) simp
  then show ?thesis by auto
qed

text \<open>A socket with room takes what is queued and what is sent in one call.\<close>

lemma on_poll_out_roomy:
  assumes "conn_ok c" "\<not> closed c" "content (outgoing c) \<noteq> []" "length (content (outgoing c)) \<le> n"
  shows "\<exists>c'. on_poll_out (Sent n # io) c = (c', io) \<and> content (outgoing c') = []"
proof -
  have size: "sb_size (outgoing c) = length (content (outgoing c))" and ne: "\<not> sb_is_empty (outgoing c)"
    using assms(1,3) length_content[of "outgoing c"] sb_is_empty_content[of "outgoing c"] by (simp_all add: conn_ok_def)
  obtain sb where sb: "sb_advance (sb_size (outgoing c)) (outgoing c) = Some sb" "sb_ok sb" "content sb = []"
    using sb_advance_content[of "outgoing c" "sb_size (outgoing c)"] assms(1) size by (auto simp: conn_ok_def)
  have "sb_is_empty sb" using sb sb_is_empty_content by simp
  then show ?thesis
    using assms(2-4) ne sb(1,3) size
    by (simp add: on_poll_out_def poll_out_loop.simps[of _ c] sys_send.simps min_def Let_def update_subscription_def)
qed

lemma conn_send_roomy:
  assumes "conn_ok c" "\<not> closed c" "content (outgoing c) @ data \<noteq> []" "length (content (outgoing c) @ data) \<le> n"
  shows "\<exists>c'. conn_send (Sent n # io) data c = Some (c', io) \<and> content (outgoing c') = []"
proof (cases "sb_is_empty (outgoing c)")
  case True
  then have empty: "content (outgoing c) = []" using assms(1) sb_is_empty_content by (simp add: conn_ok_def)
  then show ?thesis
    using True assms(2-4)
    by (simp add: conn_send_def send_immediate_def send_loop.simps[of "_ # _"] sys_send.simps min_def Let_def)
next
  case False
  let ?c = "c\<lparr>outgoing := sb_write data (outgoing c)\<rparr>"
  have "sb_ok (outgoing c)" using assms(1) by (simp add: conn_ok_def)
  from sb_write_content[OF this, of data]
  have c: "conn_ok ?c" "content (outgoing ?c) = content (outgoing c) @ data" by (simp_all add: conn_ok_def)
  then show ?thesis
    using on_poll_out_roomy[OF c(1), of n io] False assms(2-4) unfolding c(2)
    by (auto simp: conn_send_def queue_and_send_def)
qed


text \<open>A payload that did not overflow sends everything itself.\<close>

lemma pl_write_target:
  assumes "pl_ok p"
  shows "length (content (target p)) \<le> length (content (target (pl_write xs p)))"
proof -
  define q where "q = (if PAYLOAD_CAPACITY < pl_len p + length xs then pl_flush p else p)"
  have flush: "content (target (pl_flush p)) = content (target p) @ pl_content p" and "pl_ok (pl_flush p)"
    using pl_flush_content[OF assms] by (auto simp: pending_def pl_content_def)
  then have q: "length (content (target p)) \<le> length (content (target q))" "sb_ok (target q)"
    using assms by (simp_all add: q_def pl_ok_def)
  have "target (pl_write xs p) = (if PAYLOAD_CAPACITY < length xs then sb_write xs (target q) else target q)"
    unfolding pl_write_def Let_def q_def[symmetric] by simp
  then show ?thesis using q(1) sb_write_content[OF q(2), of xs] by simp
qed

lemma pl_writes_target:
  "pl_ok p \<Longrightarrow> length (content (target p)) \<le> length (content (target (fold pl_write xss p)))"
proof (induction xss arbitrary: p)
  case (Cons xs xss)
  then show ?case using Cons.IH[of "pl_write xs p"] pl_write_target[OF Cons.prems, of xs] payload.put_inv[OF Cons.prems]
    by fastforce
qed simp

lemma conn_send_pieces_as_send:
  assumes "conn_ok c" "length garbage = PAYLOAD_CAPACITY"
  obtains sb data where "conn_send_pieces io garbage pieces c = conn_send io data (c\<lparr>outgoing := sb\<rparr>)"
    "sb_ok sb" "content sb @ data = content (outgoing c) @ concat pieces"
    "length (content (outgoing c)) \<le> length (content sb)"
proof -
  define p where "p = fold pl_write pieces (payload_on garbage (outgoing c))"
  have start: "pl_ok (payload_on garbage (outgoing c))"
    and none: "pending (payload_on garbage (outgoing c)) = content (outgoing c)"
    using assms by (simp_all add: pl_ok_def payload_on_def conn_ok_def pending_def pl_content_def)
  have p: "pl_ok p" "pending p = content (outgoing c) @ concat pieces"
    using payload.puts_inv[OF start] payload.puts_append[OF start] by (simp_all add: p_def none)
  show ?thesis
  proof (rule that)
    show "conn_send_pieces io garbage pieces c = conn_send io (take (pl_len p) (pl_data p)) (c\<lparr>outgoing := target p\<rparr>)"
      by (simp add: conn_send_pieces_def Let_def flip: p_def)
    show "length (content (outgoing c)) \<le> length (content (target p))"
      using pl_writes_target[OF start, of pieces] by (simp add: p_def payload_on_def)
  qed (use p in \<open>simp_all add: pl_ok_def pending_def pl_content_def\<close>)
qed

lemma conn_send_pieces_result:
  assumes "conn_ok c" "length garbage = PAYLOAD_CAPACITY" "conn_send_pieces io garbage pieces c = Some (c', io')"
  shows "suffix io' io"
    "closed c' \<Longrightarrow> closed c \<or> Failed \<in> set io \<or> Sent 0 \<in> set io \<or> concat pieces = [] \<and> content (outgoing c) = []"
proof -
  obtain sb data where s: "conn_send_pieces io garbage pieces c = conn_send io data (c\<lparr>outgoing := sb\<rparr>)"
    "sb_ok sb" "content sb @ data = content (outgoing c) @ concat pieces"
    using conn_send_pieces_as_send[OF assms(1,2)] by metis
  have "conn_ok (c\<lparr>outgoing := sb\<rparr>)" "conn_send io data (c\<lparr>outgoing := sb\<rparr>) = Some (c', io')"
    using s assms(3) by (simp_all add: conn_ok_def)
  from conn_send_result[OF this] s(3) show "suffix io' io"
    "closed c' \<Longrightarrow> closed c \<or> Failed \<in> set io \<or> Sent 0 \<in> set io \<or> concat pieces = [] \<and> content (outgoing c) = []"
    by auto
qed

lemma conn_send_pieces_defined:
  assumes "conn_ok c" "length garbage = PAYLOAD_CAPACITY" "blocks_when_full (length (concat pieces)) io"
  shows "\<exists>c' io'. conn_send_pieces io garbage pieces c = Some (c', io')"
proof -
  obtain sb data where s: "conn_send_pieces io garbage pieces c = conn_send io data (c\<lparr>outgoing := sb\<rparr>)"
    "content sb @ data = content (outgoing c) @ concat pieces" "length (content (outgoing c)) \<le> length (content sb)"
    using conn_send_pieces_as_send[OF assms(1,2)] by metis
  from arg_cong[OF s(2), of length] s(3) have "length data \<le> length (concat pieces)" by simp
  then show ?thesis
    unfolding s(1) by (rule conn_send_defined[OF blocks_when_full_less[OF assms(3)]])
qed

lemma conn_send_pieces_roomy:
  assumes "conn_ok c" "length garbage = PAYLOAD_CAPACITY" "\<not> closed c" "content (outgoing c) @ concat pieces \<noteq> []"
    "length (content (outgoing c) @ concat pieces) \<le> n"
  shows "\<exists>c'. conn_send_pieces (Sent n # io) garbage pieces c = Some (c', io) \<and> content (outgoing c') = []"
proof -
  obtain sb data where s: "conn_send_pieces (Sent n # io) garbage pieces c = conn_send (Sent n # io) data (c\<lparr>outgoing := sb\<rparr>)"
    "sb_ok sb" "content sb @ data = content (outgoing c) @ concat pieces"
    using conn_send_pieces_as_send[OF assms(1,2)] by metis
  show ?thesis
    unfolding s(1) using s(2,3) assms(3-5) by (intro conn_send_roomy) (simp_all add: conn_ok_def)
qed

section \<open>Every history of a connection\<close>

text \<open>What the server does with the output side of a connection, with any results of the socket.\<close>

datatype conn_op =
  Op_send (op_io: "io_result list") "byte list"
| Op_payload (op_io: "io_result list") "byte list" "byte list list"
| Op_poll_out (op_io: "io_result list")

fun op_octets :: "conn_op \<Rightarrow> byte list" where
  "op_octets (Op_send io data) = data"
| "op_octets (Op_payload io garbage pieces) = concat pieces"
| "op_octets (Op_poll_out io) = []"

fun op_ok :: "conn_op \<Rightarrow> bool" where
  "op_ok (Op_payload io garbage pieces) = (length garbage = PAYLOAD_CAPACITY)"
| "op_ok op = True"

fun conn_step :: "conn_op \<Rightarrow> conn \<Rightarrow> conn option" where
  "conn_step (Op_send io data) c = map_option fst (conn_send io data c)"
| "conn_step (Op_payload io garbage pieces) c = map_option fst (conn_send_pieces io garbage pieces c)"
| "conn_step (Op_poll_out io) c = Some (fst (on_poll_out io c))"

fun conn_run :: "conn_op list \<Rightarrow> conn \<Rightarrow> conn option" where
  "conn_run [] c = Some c"
| "conn_run (op # ops) c = (case conn_step op c of None \<Rightarrow> None | Some c \<Rightarrow> conn_run ops c)"

text \<open>The socket gave the connection a reason to close, or nothing was given to send.\<close>

definition op_refused :: "conn_op \<Rightarrow> bool" where
  "op_refused op \<longleftrightarrow> Failed \<in> set (op_io op) \<or> Sent 0 \<in> set (op_io op) \<or> \<not> is_Op_poll_out op \<and> op_octets op = []"

lemma conn_step_accepted:
  assumes "conn_ok c" "op_ok op" "conn_step op c = Some c'"
  shows "conn_ok c' \<and> (closed c' \<or> accepted c' = accepted c @ op_octets op) \<and> (\<not> wants_out c \<longrightarrow> \<not> wants_out c')
    \<and> (closed c \<longrightarrow> closed c') \<and> (closed c' \<longrightarrow> closed c \<or> op_refused op)"
proof (cases op)
  case (Op_send io data)
  then show ?thesis
    using assms conn_send_accepted[OF assms(1)] conn_send_result[OF assms(1)] by (fastforce simp: op_refused_def)
next
  case (Op_payload io garbage pieces)
  then show ?thesis
    using assms conn_send_pieces_accepted[OF assms(1)] conn_send_pieces_result[OF assms(1)]
    by (fastforce simp: op_refused_def)
next
  case (Op_poll_out io)
  then show ?thesis
    using assms on_poll_out_accepted[OF assms(1), of io] on_poll_out_result[OF assms(1), of io]
    by (cases "on_poll_out io c") (auto simp: op_refused_def)
qed

lemma conn_step_defined:
  assumes "conn_ok c" "op_ok op" "blocks_when_full (length (op_octets op)) (op_io op)"
  shows "conn_step op c \<noteq> None"
  using assms conn_send_defined conn_send_pieces_defined by (cases op) fastforce+

lemma conn_run_inv:
  assumes "conn_ok c" "\<forall>op\<in>set ops. op_ok op" "conn_run ops c = Some c'"
  shows "conn_ok c' \<and> (closed c' \<or> accepted c' = accepted c @ concat (map op_octets ops)) \<and> (\<not> wants_out c \<longrightarrow> \<not> wants_out c')
    \<and> (closed c' \<longrightarrow> closed c \<or> (\<exists>op\<in>set ops. op_refused op)) \<and> (closed c \<longrightarrow> closed c')"
  using assms
proof (induction ops arbitrary: c)
  case (Cons op ops)
  then obtain c1 where c1: "conn_step op c = Some c1" "conn_run ops c1 = Some c'" by (auto split: option.splits)
  have ok: "op_ok op" using Cons.prems(2) by simp
  note step = conn_step_accepted[OF Cons.prems(1) ok c1(1)]
  from step Cons.IH[OF _ _ c1(2)] Cons.prems(2) show ?case by auto
qed simp

lemma conn_run_defined:
  assumes "conn_ok c" "\<forall>op\<in>set ops. op_ok op" "\<forall>op\<in>set ops. blocks_when_full (length (op_octets op)) (op_io op)"
  shows "conn_run ops c \<noteq> None"
  using assms
proof (induction ops arbitrary: c)
  case (Cons op ops)
  obtain c1 where c1: "conn_step op c = Some c1" using conn_step_defined[OF Cons.prems(1), of op] Cons.prems(2,3) by auto
  then show ?case using Cons.IH[of c1] conn_step_accepted[OF Cons.prems(1) _ c1] Cons.prems by simp
qed simp

lemma conn_new_ok: "conn_ok conn_new" "accepted conn_new = []" "\<not> closed conn_new" "\<not> wants_out conn_new"
  by (simp_all add: conn_new_def conn_ok_def accepted_def)

lemma connection_starts: "connection epfd fd added = Inr c \<Longrightarrow> c = conn_new"
  by (auto simp: connection_def subscribe_to_input_def Let_def split: if_splits)

text \<open>C21: However sends, payloads and writability events interleave, and whatever the socket
  answers: the run is undefined only if in one of the sends the socket took a part of the octets
  and then, without blocking, was asked again (C40); the connection is closed only if the socket
  failed or took zero octets, or nothing was given to send; and otherwise the octets the socket
  has taken, followed by those that are queued, are exactly what was sent, in order.\<close>

theorem connection_keeps_order:
  assumes "connection epfd fd added = Inr c0" "\<forall>op\<in>set ops. op_ok op"
  shows "case conn_run ops c0 of
      None \<Rightarrow> \<exists>op\<in>set ops. \<not> blocks_when_full (length (op_octets op)) (op_io op)
    | Some c \<Rightarrow> if closed c then \<exists>op\<in>set ops. op_refused op
        else wire c @ content (outgoing c) = concat (map op_octets ops)"
proof (cases "conn_run ops c0")
  case None
  then show ?thesis
    using conn_run_defined[OF conn_new_ok(1) assms(2)] connection_starts[OF assms(1)] by auto
next
  case (Some c)
  then show ?thesis
    using conn_run_inv[OF conn_new_ok(1) assms(2)] conn_new_ok(2,3) connection_starts[OF assms(1)]
    by (auto simp: accepted_def)
qed

theorem connection_keeps_order_witness:
  "conn_run [Op_send [Sent 1] [1, 2, 3], Op_poll_out [Sent 1], Op_payload [] (replicate 1440 0) [[4], [5]]] conn_new \<noteq> None
    \<and> (case conn_run [Op_send [Sent 1] [1, 2, 3], Op_poll_out [Sent 1], Op_payload [] (replicate 1440 0) [[4], [5]]] conn_new of
        None \<Rightarrow> False
      | Some c \<Rightarrow> wire c @ content (outgoing c) = [1, 2, 3, 4, 5])"
proof -
  let ?ops = "[Op_send [Sent 1] [1, 2, 3], Op_poll_out [Sent 1], Op_payload [] (replicate 1440 0) [[4], [5]]]"
  have c: "connection 3 4 True = Inr conn_new" by (simp add: connection_def subscribe_to_input_def)
  have ok: "\<forall>op\<in>set ?ops. op_ok op" by (simp add: PAYLOAD_CAPACITY_def)
  have fine: "\<not> (\<exists>op\<in>set ?ops. op_refused op)" "\<not> (\<exists>op\<in>set ?ops. \<not> blocks_when_full (length (op_octets op)) (op_io op))"
    by (simp_all add: op_refused_def)
  have octets: "concat (map op_octets ?ops) = [1, 2, 3, 4, 5]" by simp
  obtain r where r: "conn_run ?ops conn_new = r" by blast
  note all = connection_keeps_order[OF c ok, unfolded r octets]
  show ?thesis
  proof (cases r)
    case None
    then show ?thesis using all fine(2) by (simp only: option.case)
  next
    case (Some a)
    then have "\<not> closed a \<and> wire a @ content (outgoing a) = [1, 2, 3, 4, 5]"
      using all fine(1) by (simp only: option.case simp_thms split: if_split_asm)
    then show ?thesis unfolding r Some by (simp only: option.case) simp
  qed
qed

text \<open>The connection never asks to be told when the socket becomes writable: the
  subscription to \<open>EPOLLOUT\<close> is only renewed when nothing is queued, so in no history is it
  ever on, and octets queued after a partial send wait until the server sends again.\<close>

lemma connection_never_polls_output:
  assumes "\<forall>op\<in>set ops. op_ok op" "conn_run ops conn_new = Some c"
  shows "\<not> wants_out c"
  using conn_run_inv[OF conn_new_ok(1) assms] conn_new_ok(4) by simp

text \<open>C40: After a partial send, \<open>send_immediate\<close> offers the socket octets from behind the end
  of the data: it asks for \<open>len + total_sent\<close> octets from \<open>data + total_sent\<close>, where \<open>len - total_sent\<close>
  are left.  Whenever the socket has taken a part of the data and, at the next call, has room for
  more than the rest, memory out of bounds is read; if it has only room for the rest, all is well.\<close>

theorem send_immediate_overreads:
  assumes "sb_is_empty (outgoing c)" "\<not> closed c" "0 < n" "n < length data" "length data - n \<le> k"
  shows "conn_send (Sent n # Sent k # io) data c =
    (if k = length data - n then Some (c\<lparr>wire := wire c @ data\<rparr>, io) else None)"
proof -
  let ?c = "c\<lparr>wire := wire c @ take n data\<rparr>"
  have first: "send_loop (Sent n # Sent k # io) data 0 c = send_loop (Sent k # io) data n ?c"
    using assms by (subst send_loop.simps) (simp add: sys_send.simps min_def Let_def)
  have asked: "sys_send ?c (length data + n) (Sent k # io) = (Sent (min k (length data + n)), io)"
    using assms(2) by (simp add: sys_send.simps)
  show ?thesis
  proof (cases "k = length data - n")
    case True
    then have "send_loop (Sent k # io) data n ?c = Some (Sent k, length data, c\<lparr>wire := wire c @ data\<rparr>, io)"
      using assms(4) asked by (subst send_loop.simps) (simp add: Let_def)
    then show ?thesis using True assms(1,4) first by (simp add: conn_send_def send_immediate_def)
  next
    case False
    then have "length data < n + min k (length data + n)" using assms(3-5) by linarith
    then have "send_loop (Sent k # io) data n ?c = None"
      using assms(4) asked by (subst send_loop.simps) simp
    then show ?thesis using False assms(1) first by (simp add: conn_send_def send_immediate_def)
  qed
qed

theorem send_immediate_overreads_witness:
  "conn_send [Sent 2, Sent 2] [1, 2, 3] conn_new = None
    \<and> conn_send [Sent 2, Sent 1] [1, 2, 3] conn_new = Some (conn_new\<lparr>wire := [1, 2, 3]\<rparr>, [])"
  using send_immediate_overreads[of conn_new 2 "[1, 2, 3]" 2 "[]"] send_immediate_overreads[of conn_new 2 "[1, 2, 3]" 1 "[]"]
  by (simp add: conn_new_def sb_is_empty_def sb_size_def sb_empty_def)

end
