(* ===== verification/Server_Core.thy ===== *)
theory Server_Core
  imports Http1_Upgrade Connection
begin

text \<open>
  The server: \<open>src/SwitchTransport.cpp\<close>, \<open>Connection::onPollIn\<close> of \<open>src/Connection.cpp\<close>
  and the event loop of \<open>src/Server.cpp\<close>.

  The kernel is the argument of the handlers: the results the calls of \<open>::read\<close> and \<open>::send\<close> will
  have, and what \<open>epoll_wait\<close> returns, batch of events by batch.  A read returns at most the room
  of the buffer, which \<open>grow\<close> has made positive.  An exception leaves \<open>Server::run\<close>, as in
  the code, where nothing catches it: it is the result \<open>Inl\<close> of the whole run.  The set-up of
  the sockets (\<open>setup\<close>, \<open>bind\<close>) is in \<open>Server_Setup\<close>.
\<close>

section \<open>The transports of a connection\<close>

datatype transport = Switch | Http1 h1 | Http2 h2

fun h1_transport :: "h2 h1_state \<Rightarrow> transport" where
  "h1_transport (Active s) = Http1 s"
| "h1_transport (Replaced t) = Http2 t"

definition http1_on_input :: "env \<Rightarrow> h1 \<Rightarrow> octets \<Rightarrow> (transport \<times> octets) run" where
  "http1_on_input e s buf =
     and_then (h1_on_input e (h1_server e) (Active s) buf) (\<lambda>(t, rest). return (h1_transport t, rest))"

definition http2_on_input :: "env \<Rightarrow> h2 \<Rightarrow> octets \<Rightarrow> (transport \<times> octets) run" where
  "http2_on_input e s buf = and_then (h2_on_input e s buf) (\<lambda>(s, rest). return (Http2 s, rest))"

text \<open>\<open>SwitchTransport::onInput\<close>: the connection's first octets tell the protocol.\<close>

definition switch_on_input :: "env \<Rightarrow> octets \<Rightarrow> (transport \<times> octets) run" where
  "switch_on_input e buf =
     (let short = length buf < length CLIENT_PREFACE;
          maybe_http2 = (take (length buf) CLIENT_PREFACE = buf);
          definitely_http2 = (\<not> short \<and> take (length CLIENT_PREFACE) buf = CLIENT_PREFACE)
      in if short \<and> maybe_http2 then return (Switch, buf)
         else if definitely_http2 then and_then (h2_new e None) (\<lambda>s. http2_on_input e s buf)
         else http1_on_input e h1_new buf)"

fun transport_on_input :: "env \<Rightarrow> transport \<Rightarrow> octets \<Rightarrow> (transport \<times> octets) run" where
  "transport_on_input e Switch buf = switch_on_input e buf"
| "transport_on_input e (Http1 s) buf = http1_on_input e s buf"
| "transport_on_input e (Http2 s) buf = http2_on_input e s buf"


text \<open>C12: The input loops of both transports end, whatever the peer sends and in whatever state the
  transport is: HTTP/1 after at most one round for every octet of the buffer and one more, HTTP/2
  after at most two rounds for every octet and two more.  What they compute is \<open>h1_on_input\<close>
  and \<open>receive_frames\<close>.\<close>

theorem input_loops_end:
  "rounds (Suc (length buf)) (process_input e c) t buf = Some (h1_on_input e c t buf)
    \<and> rounds (2 * length buf + 2) (receive_frame e) s buf = Some (receive_frames e s buf)"
  using h1_input.rounds_enough[of buf "Suc (length buf)" e c t] h2_input.rounds_enough[of s buf "2 * length buf + 2" e]
  by (simp add: h2_weight_def)


section \<open>A connection\<close>

text \<open>
  The calls of a transport, carried out; \<open>None\<close> where a send reads behind its data.  A server
  transport has no response handler.
\<close>

fun perform :: "octets \<Rightarrow> io_result list \<Rightarrow> action list \<Rightarrow> conn \<Rightarrow> (conn \<times> io_result list) option" where
  "perform garbage io [] c = Some (c, io)"
| "perform garbage io (Send_payload pieces # acts) c =
     (case conn_send_pieces io garbage pieces c of
        None \<Rightarrow> None | Some (c, io) \<Rightarrow> perform garbage io acts c)"
| "perform garbage io (Send_raw data # acts) c =
     (case conn_send io data c of None \<Rightarrow> None | Some (c, io) \<Rightarrow> perform garbage io acts c)"
| "perform garbage io (Close_connection # acts) c = perform garbage io acts (conn_close c)"
| "perform garbage io (Handle_response r # acts) c = None"

record client =
  cl_out :: conn
  cl_in :: octets
  cl_transport :: transport

definition client_new :: client where
  "client_new = \<lparr>cl_out = conn_new, cl_in = [], cl_transport = Switch\<rparr>"

datatype read_result = Read octets | Read_again | Read_failed

fun on_poll_in ::
  "env \<Rightarrow> octets \<Rightarrow> read_result list \<Rightarrow> io_result list \<Rightarrow> client \<Rightarrow> http_error + client \<times> io_result list" where
  "on_poll_in e garbage [] io cl = Inr (cl, io)"
| "on_poll_in e garbage (r # reads) io cl =
     (if closed (cl_out cl) then Inr (cl, io)
      else case r of
        Read_again \<Rightarrow> Inr (cl, io)
      | Read_failed \<Rightarrow> Inr (cl\<lparr>cl_out := conn_close (cl_out cl)\<rparr>, io)
      | Read xs \<Rightarrow>
          if xs = [] then Inr (cl\<lparr>cl_out := conn_close (cl_out cl)\<rparr>, io)
          else
            (case transport_on_input e (cl_transport cl) (cl_in cl @ xs) of
               (acts, result) \<Rightarrow>
                 (case perform garbage io acts (cl_out cl) of
                    None \<Rightarrow> Inl E_undefined
                  | Some (c, io) \<Rightarrow>
                      (case result of
                         Inl err \<Rightarrow> Inl err
                       | Inr (t, rest) \<Rightarrow>
                           let cl = cl\<lparr>cl_out := c, cl_in := rest, cl_transport := t\<rparr>
                           in if closed c then Inr (cl, io) else on_poll_in e garbage reads io cl))))"


section \<open>The event loop\<close>

record server =
  sv_clients :: "nat \<Rightarrow> client option"
  sv_remove :: "nat list"
  sv_running :: bool

definition server_new :: server where
  "server_new = \<lparr>sv_clients = Map.empty, sv_remove = [], sv_running = True\<rparr>"

text \<open>
  The events: a connection accepted on a descriptor, events on a client's descriptor (writable,
  readable, with the results of the calls they lead to), the signal to stop.
\<close>

datatype event =
  Accepted nat "read_result list" "io_result list"
| Client_ready nat bool bool "read_result list" "io_result list"
| Signalled

text \<open>\<open>close\<close> of a client's connection hands its descriptor to \<open>removeConnection\<close>, once.\<close>

definition put_client :: "nat \<Rightarrow> bool \<Rightarrow> client \<Rightarrow> server \<Rightarrow> server" where
  "put_client fd was_closed cl sv =
     sv\<lparr>sv_clients := (sv_clients sv)(fd \<mapsto> cl),
        sv_remove := sv_remove sv @ (if \<not> was_closed \<and> closed (cl_out cl) then [fd] else [])\<rparr>"

fun server_event :: "env \<Rightarrow> octets \<Rightarrow> event \<Rightarrow> server \<Rightarrow> http_error + server" where
  "server_event e garbage (Accepted fd reads io) sv =
     (if sv_clients sv fd \<noteq> None then Inl E_logic
      else (case on_poll_in e garbage reads io client_new of
              Inl err \<Rightarrow> Inl err
            | Inr (cl, io) \<Rightarrow> Inr (put_client fd False cl sv)))"
| "server_event e garbage (Client_ready fd writable readable reads io) sv =
     (case sv_clients sv fd of
        None \<Rightarrow> Inl E_undefined
      | Some cl \<Rightarrow>
          let (c, io) = (if writable then on_poll_out io (cl_out cl) else (cl_out cl, io));
              cl' = cl\<lparr>cl_out := c\<rparr>
          in (case (if readable then on_poll_in e garbage reads io cl' else Inr (cl', io)) of
                Inl err \<Rightarrow> Inl err
              | Inr (cl', io) \<Rightarrow> Inr (put_client fd (closed (cl_out cl)) cl' sv)))"
| "server_event e garbage Signalled sv = Inr (sv\<lparr>sv_running := False\<rparr>)"

fun server_events :: "env \<Rightarrow> octets \<Rightarrow> event list \<Rightarrow> server \<Rightarrow> http_error + server" where
  "server_events e garbage [] sv = Inr sv"
| "server_events e garbage (ev # evs) sv =
     (case server_event e garbage ev sv of Inl err \<Rightarrow> Inl err | Inr sv \<Rightarrow> server_events e garbage evs sv)"

fun remove_dead_clients :: "nat list \<Rightarrow> server \<Rightarrow> server" where
  "remove_dead_clients [] sv = sv\<lparr>sv_remove := []\<rparr>"
| "remove_dead_clients (fd # fds) sv = remove_dead_clients fds (sv\<lparr>sv_clients := (sv_clients sv)(fd := None)\<rparr>)"

definition server_batch :: "env \<Rightarrow> octets \<Rightarrow> event list \<Rightarrow> server \<Rightarrow> http_error + server" where
  "server_batch e garbage evs sv =
     map_sum id (\<lambda>sv. remove_dead_clients (sv_remove sv) sv) (server_events e garbage evs sv)"

text \<open>
  \<open>cleanup\<close>.  The connections that are destroyed still hand their descriptors to the queue, which is
  never read again and is not kept here; the descriptors are in \<open>Server_Life\<close>.
\<close>

definition cleanup :: "server \<Rightarrow> server" where
  "cleanup sv = sv\<lparr>sv_clients := Map.empty\<rparr>"

text \<open>
  What \<open>epoll_wait\<close> returns: events, -1 with \<open>EINTR\<close>, or -1 with any other error, which ends the
  loop with an exception.  When no more results are given, the call has not returned yet.
\<close>

datatype wait_result = Events "event list" | Interrupted | Wait_failed

fun server_loop :: "env \<Rightarrow> octets \<Rightarrow> wait_result list \<Rightarrow> server \<Rightarrow> http_error + server" where
  "server_loop e garbage waits sv =
     (if \<not> sv_running sv then Inr (cleanup sv)
      else (case waits of
              [] \<Rightarrow> Inr sv
            | Wait_failed # waits \<Rightarrow> Inl E_runtime
            | Interrupted # waits \<Rightarrow> server_loop e garbage waits (remove_dead_clients (sv_remove sv) sv)
            | Events evs # waits \<Rightarrow>
                (case server_batch e garbage evs sv of
                   Inl err \<Rightarrow> Inl err
                 | Inr sv \<Rightarrow> server_loop e garbage waits sv)))"

declare server_loop.simps [simp del]

lemma server_loop_simps [simp]:
  "\<not> sv_running sv \<Longrightarrow> server_loop e garbage waits sv = Inr (cleanup sv)"
  "sv_running sv \<Longrightarrow> server_loop e garbage [] sv = Inr sv"
  "sv_running sv \<Longrightarrow> server_loop e garbage (Wait_failed # waits) sv = Inl E_runtime"
  "sv_running sv \<Longrightarrow> server_loop e garbage (Interrupted # waits) sv
     = server_loop e garbage waits (remove_dead_clients (sv_remove sv) sv)"
  "sv_running sv \<Longrightarrow> server_loop e garbage (Events evs # waits) sv =
     (case server_batch e garbage evs sv of Inl err \<Rightarrow> Inl err | Inr sv \<Rightarrow> server_loop e garbage waits sv)"
  by (simp_all add: server_loop.simps)


section \<open>What a connection sends\<close>

fun action_octets :: "action \<Rightarrow> octets" where
  "action_octets (Send_payload pieces) = concat pieces"
| "action_octets (Send_raw data) = data"
| "action_octets Close_connection = []"
| "action_octets (Handle_response r) = []"

definition calls_octets :: "action list \<Rightarrow> octets" where
  "calls_octets acts = concat (map action_octets acts)"

lemma calls_octets_simps [simp]:
  "calls_octets [] = []" "calls_octets (a # acts) = action_octets a @ calls_octets acts"
  "calls_octets (acts @ acts') = calls_octets acts @ calls_octets acts'"
  by (simp_all add: calls_octets_def)

lemma conn_close_keeps [simp]:
  "conn_ok (conn_close c) = conn_ok c" "accepted (conn_close c) = accepted c" "closed (conn_close c)"
  by (simp_all add: conn_close_def conn_ok_def accepted_def)

text \<open>\<open>sends_to c c' xs\<close>: the connection is intact, and unless it was closed \<open>xs\<close> were accepted.\<close>

definition sends_to :: "conn \<Rightarrow> conn \<Rightarrow> octets \<Rightarrow> bool" where
  "sends_to c c' xs \<longleftrightarrow> conn_ok c' \<and> (closed c' \<or> accepted c' = accepted c @ xs) \<and> (closed c \<longrightarrow> closed c')"

lemma sends_to_refl: "conn_ok c \<Longrightarrow> sends_to c c []"
  by (simp add: sends_to_def)

lemma sends_to_trans: "sends_to c c' xs \<Longrightarrow> sends_to c' c'' ys \<Longrightarrow> sends_to c c'' (xs @ ys)"
  by (auto simp: sends_to_def)

lemma perform_sends:
  assumes "conn_ok c" "length garbage = PAYLOAD_CAPACITY" "perform garbage io acts c = Some (c', io')"
  shows "sends_to c c' (calls_octets acts)"
  using assms
proof (induction garbage io acts c rule: perform.induct)
  case (1 garbage io c)
  then show ?case by (simp add: sends_to_refl)
next
  case (2 garbage io pieces acts c)
  then obtain c1 io1 where p: "conn_send_pieces io garbage pieces c = Some (c1, io1)"
    "perform garbage io1 acts c1 = Some (c', io')"
    by (auto split: option.splits)
  then have "sends_to c c1 (concat pieces)"
    using conn_send_pieces_accepted[OF "2.prems"(1,2) p(1)] by (simp add: sends_to_def)
  moreover have "sends_to c1 c' (calls_octets acts)"
    using "2.IH"[OF p(1) refl _ "2.prems"(2) p(2)] calculation by (simp add: sends_to_def)
  ultimately show ?case using sends_to_trans by fastforce
next
  case (3 garbage io data acts c)
  then obtain c1 io1 where p: "conn_send io data c = Some (c1, io1)" "perform garbage io1 acts c1 = Some (c', io')"
    by (auto split: option.splits)
  then have "sends_to c c1 data" using conn_send_accepted[OF "3.prems"(1) p(1)] by (simp add: sends_to_def)
  moreover have "sends_to c1 c' (calls_octets acts)"
    using "3.IH"[OF p(1) refl _ "3.prems"(2) p(2)] calculation by (simp add: sends_to_def)
  ultimately show ?case using sends_to_trans by fastforce
next
  case (4 garbage io acts c)
  then have "sends_to (conn_close c) c' (calls_octets acts)" by simp
  then show ?case by (auto simp: sends_to_def)
qed simp

text \<open>The input of a connection, as the transport sees it.\<close>

primrec transport_feed :: "env \<Rightarrow> transport \<Rightarrow> octets \<Rightarrow> octets list \<Rightarrow> (transport \<times> octets) run" where
  "transport_feed e t rest [] = return (t, rest)"
| "transport_feed e t rest (chunk # chunks) =
     and_then (transport_on_input e t (rest @ chunk)) (\<lambda>(t', rest'). transport_feed e t' rest' chunks)"

lemma perform_append:
  "perform garbage io acts c = Some (c1, io1) \<Longrightarrow> perform garbage io (acts @ acts') c = perform garbage io1 acts' c1"
  by (induction garbage io acts c rule: perform.induct) (auto split: option.splits)

text \<open>Several bursts of input: each time the descriptor is readable, it is read until it would block.\<close>

fun read_bursts ::
  "env \<Rightarrow> octets \<Rightarrow> octets list list \<Rightarrow> io_result list \<Rightarrow> client \<Rightarrow> http_error + client \<times> io_result list" where
  "read_bursts e garbage [] io cl = Inr (cl, io)"
| "read_bursts e garbage (burst # bursts) io cl =
     (case on_poll_in e garbage (map Read burst @ [Read_again]) io cl of
        Inl err \<Rightarrow> Inl err
      | Inr (cl, io) \<Rightarrow> read_bursts e garbage bursts io cl)"

lemma on_poll_in_closed: "closed (cl_out cl) \<Longrightarrow> on_poll_in e garbage reads io cl = Inr (cl, io)"
  by (cases reads) simp_all

lemma on_poll_in_append:
  "on_poll_in e garbage (map Read xs @ reads) io cl =
    (case on_poll_in e garbage (map Read xs) io cl of
       Inl err \<Rightarrow> Inl err | Inr (cl, io) \<Rightarrow> on_poll_in e garbage reads io cl)"
proof (induction xs arbitrary: io cl)
  case (Cons x xs)
  show ?case
    using Cons.IH by (auto simp: on_poll_in_closed Let_def split: prod.split option.split sum.split)
qed simp

lemma read_bursts_concat:
  "read_bursts e garbage bursts io cl = on_poll_in e garbage (map Read (concat bursts)) io cl"
proof (induction bursts arbitrary: io cl)
  case (Cons burst bursts)
  then show ?case
    by (simp add: on_poll_in_append split: sum.split prod.split)
qed simp

text \<open>Calls that give the connection something to send, over a sound socket.\<close>

fun sends_something :: "action \<Rightarrow> bool" where
  "sends_something (Send_payload pieces) = (concat pieces \<noteq> [])"
| "sends_something (Send_raw data) = (data \<noteq> [])"
| "sends_something act = False"

lemma send_sound:
  assumes "conn_ok c" "length garbage = PAYLOAD_CAPACITY" "\<not> closed c" "sends_something act"
    "sound_socket N io" "length (action_octets act) \<le> N"
  shows "\<exists>c' io'. (\<forall>acts. perform garbage io (act # acts) c = perform garbage io' acts c') \<and> conn_ok c' \<and> \<not> closed c'
    \<and> accepted c' = accepted c @ action_octets act \<and> sound_socket N io'"
proof -
  have io: "blocks_when_full (length (action_octets act)) io" "Failed \<notin> set io" "Sent 0 \<notin> set io"
    using sound_socket_less[OF assms(5,6)] by (simp_all add: sound_socket_def)
  show ?thesis
  proof (cases act)
    case (Send_payload pieces)
    obtain c' io' where c': "conn_send_pieces io garbage pieces c = Some (c', io')"
      using conn_send_pieces_defined[OF assms(1,2)] io(1) Send_payload by fastforce
    have "\<not> closed c'" "suffix io' io"
      using conn_send_pieces_result[OF assms(1,2) c'] io assms(3,4) Send_payload by auto
    then show ?thesis
      using conn_send_pieces_accepted[OF assms(1,2) c'] c' sound_socket_suffix[OF _ assms(5)] Send_payload
      by (intro exI[of _ c'] exI[of _ io']) auto
  next
    case (Send_raw data)
    obtain c' io' where c': "conn_send io data c = Some (c', io')"
      using conn_send_defined io(1) Send_raw by fastforce
    have "\<not> closed c'" "suffix io' io" using conn_send_result[OF assms(1) c'] io assms(3,4) Send_raw by auto
    then show ?thesis
      using conn_send_accepted[OF assms(1) c'] c' sound_socket_suffix[OF _ assms(5)] Send_raw
      by (intro exI[of _ c'] exI[of _ io']) auto
  qed (use assms(4) in simp_all)
qed

lemma perform_sound:
  assumes "conn_ok c" "length garbage = PAYLOAD_CAPACITY" "\<not> closed c" "\<forall>a\<in>set acts. sends_something a"
    "sound_socket N io" "length (calls_octets acts) \<le> N"
  shows "\<exists>c' io'. perform garbage io acts c = Some (c', io') \<and> conn_ok c' \<and> \<not> closed c'
    \<and> accepted c' = accepted c @ calls_octets acts \<and> sound_socket N io'"
  using assms
proof (induction acts arbitrary: c io)
  case (Cons act acts)
  have "length (action_octets act) \<le> N" using Cons.prems(6) by simp
  then obtain c1 io1 where c1: "perform garbage io (act # acts) c = perform garbage io1 acts c1" "conn_ok c1" "\<not> closed c1"
    "accepted c1 = accepted c @ action_octets act" "sound_socket N io1"
    using send_sound[OF Cons.prems(1-3) _ Cons.prems(5)] Cons.prems(4) by (metis list.set_intros(1))
  then show ?case using Cons.IH[OF c1(2) Cons.prems(2) c1(3) _ c1(5)] Cons.prems(4,6) by auto
qed simp

lemma send_roomy:
  assumes "conn_ok c" "length garbage = PAYLOAD_CAPACITY" "\<not> closed c" "sends_something act"
    "roomy_socket N (Sent n # io)" "length (action_octets act) \<le> N" "content (outgoing c) = []"
  shows "\<exists>c'. (\<forall>acts. perform garbage (Sent n # io) (act # acts) c = perform garbage io acts c')
    \<and> conn_ok c' \<and> \<not> closed c' \<and> content (outgoing c') = []"
proof -
  have l: "0 < length (action_octets act)" using assms(4) by (cases act) auto
  with assms(6) have "0 < N" by linarith
  moreover have n: "length (action_octets act) \<le> n" using assms(5,6) by (auto simp: roomy_socket_def)
  ultimately have io: "Failed \<notin> set (Sent n # io)" "Sent 0 \<notin> set (Sent n # io)"
    using assms(5) by (auto simp: roomy_socket_def)
  show ?thesis
  proof (cases act)
    case (Send_payload pieces)
    obtain c' where c': "conn_send_pieces (Sent n # io) garbage pieces c = Some (c', io)" "content (outgoing c') = []"
      using conn_send_pieces_roomy[OF assms(1-3), of pieces n io] assms(4,7) n l Send_payload by auto
    then show ?thesis
      using conn_send_pieces_accepted[OF assms(1,2) c'(1)] conn_send_pieces_result[OF assms(1,2) c'(1)] io assms(3,4) Send_payload
      by (intro exI[of _ c']) auto
  next
    case (Send_raw data)
    obtain c' where c': "conn_send (Sent n # io) data c = Some (c', io)" "content (outgoing c') = []"
      using conn_send_roomy[OF assms(1,3), of data n io] assms(4,7) n l Send_raw by auto
    then show ?thesis
      using conn_send_accepted[OF assms(1) c'(1)] conn_send_result[OF assms(1) c'(1)] io assms(3,4) Send_raw
      by (intro exI[of _ c']) auto
  qed (use assms(4) in simp_all)
qed

lemma perform_roomy:
  assumes "conn_ok c" "length garbage = PAYLOAD_CAPACITY" "\<not> closed c" "\<forall>a\<in>set acts. sends_something a"
    "roomy_socket N io" "length (calls_octets acts) \<le> N" "length acts \<le> length io" "content (outgoing c) = []"
  shows "\<exists>c'. perform garbage io acts c = Some (c', drop (length acts) io) \<and> content (outgoing c') = []"
  using assms
proof (induction acts arbitrary: c io)
  case (Cons act acts)
  obtain n io1 where io: "io = Sent n # io1" "roomy_socket N io1"
    using Cons.prems(5,7) by (cases io) (auto simp: roomy_socket_def)
  have "sends_something act" "length (action_octets act) \<le> N" using Cons.prems(4,6) by simp_all
  then obtain c1 where c1: "perform garbage io (act # acts) c = perform garbage io1 acts c1"
    "conn_ok c1" "\<not> closed c1" "content (outgoing c1) = []"
    using send_roomy[OF Cons.prems(1-3), of act N n io1] Cons.prems(5,8) unfolding io(1) by blast
  then show ?case using Cons.IH[OF c1(2) Cons.prems(2) c1(3) _ io(2) _ _ c1(4)] Cons.prems(4,6,7) io(1) by simp
qed simp

lemma on_poll_in_feed:
  assumes "transport_feed e (cl_transport cl) (cl_in cl) chunks = (acts, Inr (t, rest))" "[] \<notin> set chunks"
    "conn_ok (cl_out cl)" "length garbage = PAYLOAD_CAPACITY" "\<not> closed (cl_out cl)"
    "\<forall>a\<in>set acts. sends_something a" "sound_socket N io" "length (calls_octets acts) \<le> N"
  shows "\<exists>c io'. on_poll_in e garbage (map Read chunks) io cl = Inr (cl\<lparr>cl_out := c, cl_in := rest, cl_transport := t\<rparr>, io')
    \<and> conn_ok c \<and> \<not> closed c \<and> accepted c = accepted (cl_out cl) @ calls_octets acts
    \<and> perform garbage io acts (cl_out cl) = Some (c, io')"
  using assms
proof (induction chunks arbitrary: cl acts io)
  case Nil
  then show ?case by (auto simp: return_def)
next
  case (Cons x xs)
  obtain a1 t1 r1 a2 where t1: "transport_on_input e (cl_transport cl) (cl_in cl @ x) = (a1, Inr (t1, r1))"
    and rest: "transport_feed e t1 r1 xs = (a2, Inr (t, rest))" and acts: "acts = a1 @ a2"
    using Cons.prems(1) by (auto simp: and_then_Inr)
  obtain c1 io1 where c1: "perform garbage io a1 (cl_out cl) = Some (c1, io1)" "conn_ok c1" "\<not> closed c1"
    "accepted c1 = accepted (cl_out cl) @ calls_octets a1" "sound_socket N io1"
    using perform_sound[OF Cons.prems(3-5) _ Cons.prems(7), of a1] Cons.prems(6,8) acts by auto
  let ?cl = "cl\<lparr>cl_out := c1, cl_in := r1, cl_transport := t1\<rparr>"
  have step: "on_poll_in e garbage (map Read (x # xs)) io cl = on_poll_in e garbage (map Read xs) io1 ?cl"
    using Cons.prems(2,5) t1 c1(1,3) by auto
  have split: "perform garbage io (a1 @ a2) (cl_out cl) = perform garbage io1 a2 c1"
    using c1(1) by (rule perform_append)
  from Cons.IH[of ?cl a2 io1] show ?case
    unfolding step acts split using rest Cons.prems(2,4,6,8) c1 acts by fastforce
qed


section \<open>From the first octet to the answers\<close>

lemma split_unique: "a @ x # b = a' @ x # b' \<Longrightarrow> x \<notin> set a \<Longrightarrow> x \<notin> set a' \<Longrightarrow> a = a' \<and> b = b'"
proof (induction a arbitrary: a')
  case Nil
  then show ?case by (cases a') auto
next
  case (Cons y a)
  then show ?case by (cases a') auto
qed

text \<open>No request of HTTP/1.1 begins like the preface of HTTP/2.\<close>

lemma request_not_preface:
  assumes "CH_SP \<notin> set (rq_method r)" "CH_SP \<notin> set (rq_path r)"
  shows "take 14 (request_octets r @ rest) \<noteq> take 14 CLIENT_PREFACE"
proof
  let ?T = "request_octets r @ rest"
  assume eq: "take 14 ?T = take 14 CLIENT_PREFACE"
  obtain tail where T: "?T = rq_method r @ CH_SP # rq_path r @ CH_SP # str ''HTTP/1.1'' @ tail"
    by (simp add: request_octets_def request_line_def str_HTTP11)
  have "?T = take 14 CLIENT_PREFACE @ drop 14 ?T" by (metis append_take_drop_id eq)
  then have P: "?T = [0x50, 0x52, 0x49] @ CH_SP # [0x2a] @ CH_SP # [0x48, 0x54, 0x54, 0x50, 0x2f, 0x32, 0x2e, 0x30] @ drop 14 ?T"
    by (simp add: CLIENT_PREFACE_def CH_SP_def)
  have "CH_SP \<notin> set [0x50, 0x52, 0x49 :: byte]" "CH_SP \<notin> set [0x2a :: byte]" by (simp_all add: CH_SP_def)
  then have "str ''HTTP/1.1'' @ tail = [0x48, 0x54, 0x54, 0x50, 0x2f, 0x32, 0x2e, 0x30] @ drop 14 ?T"
    using split_unique[OF trans[OF sym[OF T] P] assms(1)] split_unique[OF _ assms(2)] by metis
  then show False by (simp add: str_def of_char_def)
qed

lemma request_octets_length: "14 \<le> length (request_octets r)"
  by (simp add: request_octets_def request_line_def str_HTTP11 render_headers_def)
    (simp add: str_def)

lemma transport_feed_http1:
  "h1_feed e (h1_server e) (Active s) rest chunks = (acts, Inr (Active s', rest')) \<Longrightarrow>
   transport_feed e (Http1 s) rest chunks = (acts, Inr (Http1 s', rest'))"
proof (induction chunks arbitrary: s rest acts)
  case (Cons x xs)
  obtain a1 t1 r1 a2 where i: "h1_on_input e (h1_server e) (Active s) (rest @ x) = (a1, Inr (t1, r1))"
    and f: "h1_feed e (h1_server e) t1 r1 xs = (a2, Inr (Active s', rest'))" and a: "acts = a1 @ a2"
    using Cons.prems by (auto simp: and_then_Inr)
  obtain s1 where t1: "t1 = Active s1"
  proof (cases t1)
    case (Replaced t)
    then show ?thesis using f
      by (cases xs) (auto simp: return_def and_then_Inr h1_on_input.simps process_input_def raise_def)
  qed
  then show ?case using i a Cons.IH[of s1 r1 a2] f by (simp add: http1_on_input_def run_simps)
qed (simp add: return_def)

lemma take_14_24: "24 \<le> length b \<Longrightarrow> take 14 (b @ c) = take 14 (take 24 b)"
  by simp

lemma take_14_prefix: "14 \<le> length b \<Longrightarrow> take (length b) p = b \<Longrightarrow> take 14 b = take 14 p"
  by (metis min.absorb1 take_take)

lemma switch_then_http1:
  assumes "h1_on_input e (h1_server e) (Active h1_new) (r @ concat chunks) = (acts, Inr (Active s', rest'))"
    "\<not> h1_headers_complete s'" "chunks \<noteq> []" "[] \<notin> set chunks"
    "14 \<le> length (r @ concat chunks)" "take 14 (r @ concat chunks) \<noteq> take 14 CLIENT_PREFACE"
  shows "transport_feed e Switch r chunks = (acts, Inr (Http1 s', rest'))"
  using assms
proof (induction chunks arbitrary: r)
  case (Cons x xs)
  let ?b = "r @ x"
  have whole: "r @ concat (x # xs) = ?b @ concat xs" by simp
  have not_h2: "\<not> (24 \<le> length ?b \<and> take 24 ?b = CLIENT_PREFACE)"
  proof
    assume b: "24 \<le> length ?b \<and> take 24 ?b = CLIENT_PREFACE"
    then have "take 14 (?b @ concat xs) = take 14 CLIENT_PREFACE" using take_14_24[of ?b "concat xs"] by metis
    then show False using Cons.prems(6) whole by metis
  qed
  show ?case
  proof (cases "length ?b < 24 \<and> take (length ?b) CLIENT_PREFACE = ?b")
    case True
    then have wait: "switch_on_input e ?b = ([], Inr (Switch, ?b))"
      by (simp add: switch_on_input_def run_simps)
    have "xs \<noteq> []"
    proof
      assume "xs = []"
      then have "r @ concat (x # xs) = ?b" by simp
      then show False using take_14_prefix[of ?b CLIENT_PREFACE] True Cons.prems(5,6) by metis
    qed
    then have "transport_feed e Switch ?b xs = (acts, Inr (Http1 s', rest'))"
      using Cons.IH[of ?b] Cons.prems by simp
    then show ?thesis using wait by (simp add: run_simps)
  next
    case False
    then have go: "switch_on_input e ?b = http1_on_input e h1_new ?b"
      using not_h2 by (auto simp: switch_on_input_def Let_def)
    have "h1_feed e (h1_server e) (Active h1_new) r (x # xs) = (acts, Inr (Active s', rest'))"
      using Cons.prems(1-4) by (intro h1_feed_whole) (simp_all add: h1_live_def h1_new_def)
    from transport_feed_http1[OF this] go show ?thesis by simp
  qed
qed simp

lemma pipeline_feed:
  assumes "rs \<noteq> []" "\<forall>r\<in>set rs. simple_request e r \<and> answers e r = (acts r, Inr ())"
    "concat chunks = concat (map request_octets rs)" "[] \<notin> set chunks"
  shows "transport_feed e Switch [] chunks = (concat (map acts rs), Inr (Http1 h1_new, []))"
proof -
  obtain r rs' where rs: "rs = r # rs'" using assms(1) by (cases rs) auto
  have long: "14 \<le> length (concat chunks)" using request_octets_length[of r] by (simp add: assms(3) rs)
  have "take 14 (concat chunks) \<noteq> take 14 CLIENT_PREFACE"
    using request_not_preface[of r "concat (map request_octets rs')"] assms(2) by (simp add: assms(3) rs simple_request_def)
  moreover have "chunks \<noteq> []" using long by auto
  moreover have "h1_on_input e (h1_server e) (Active h1_new) (concat chunks) = (concat (map acts rs), Inr (Active h1_new, []))"
    unfolding assms(3) using assms(2) by (rule h1_pipeline_answered)
  ultimately show ?thesis
    using switch_then_http1[of e "[]" chunks] long assms(4) by (simp add: h1_new_def)
qed

text \<open>What a new client's connection has sent or queued when its transport has made its calls.\<close>

lemma client_answered:
  assumes "transport_feed e Switch [] (concat bursts) = (acts, Inr (t, rest))" "[] \<notin> set (concat bursts)"
    "length garbage = PAYLOAD_CAPACITY" "\<forall>a\<in>set acts. sends_something a" "sound_socket (length (calls_octets acts)) io"
  shows "\<exists>cl io'. read_bursts e garbage bursts io client_new = Inr (cl, io') \<and> \<not> closed (cl_out cl)
    \<and> wire (cl_out cl) @ content (outgoing (cl_out cl)) = calls_octets acts \<and> cl_transport cl = t \<and> cl_in cl = rest
    \<and> (roomy_socket (length (calls_octets acts)) io \<and> length acts \<le> length io \<longrightarrow> wire (cl_out cl) = calls_octets acts)"
proof -
  let ?N = "length (calls_octets acts)"
  have new: "conn_ok conn_new" "\<not> closed conn_new" "accepted conn_new = []" "content (outgoing conn_new) = []"
    using conn_new_ok by (simp_all add: conn_new_def)
  obtain c io' where c: "on_poll_in e garbage (map Read (concat bursts)) io client_new
      = Inr (client_new\<lparr>cl_out := c, cl_in := rest, cl_transport := t\<rparr>, io')" "\<not> closed c" "accepted c = calls_octets acts"
      "perform garbage io acts conn_new = Some (c, io')"
    using on_poll_in_feed[of e client_new "concat bursts" acts t rest garbage ?N io] assms new
    by (auto simp: client_new_def)
  have "content (outgoing c) = []" if "roomy_socket ?N io" "length acts \<le> length io"
    using perform_roomy[OF new(1) assms(3) new(2) assms(4) that(1) _ that(2) new(4)] c(4) by auto
  then show ?thesis
    using c by (auto simp: read_bursts_concat accepted_def)
qed

text \<open>Responses are never empty.\<close>

lemma answers_send: "answers e r = (acts, Inr ()) \<Longrightarrow> \<forall>a\<in>set acts. sends_something a"
proof -
  have "send_responses e rs = (acts, Inr ()) \<Longrightarrow> \<forall>a\<in>set acts. sends_something a" for rs
  proof (induction rs arbitrary: acts)
    case (Cons r rs)
    then show ?case
      by (auto simp: send_response_def send_message_def run_simps and_then_Inr lift_sum_def split: sum.splits)
  qed (simp add: return_def)
  then show "answers e r = (acts, Inr ()) \<Longrightarrow> \<forall>a\<in>set acts. sends_something a" by (simp add: answers_def)
qed

text \<open>C1: From the first octet to the answers: a client sends a sequence of requests without bodies, cut
  into segments and bursts in any way, and its socket neither fails nor closes nor has room again
  right after it was full.  Then the connection stays open, and the octets its socket has taken,
  followed by those that are queued because the socket was full, are the answers to the requests,
  in order, and nothing else; when the socket has room, all of them have been taken.  (Nothing
  makes the queue move before something else is sent, since \<open>EPOLLOUT\<close> is never asked for.)\<close>

theorem server_answers_pipeline:
  assumes "rs \<noteq> []" "\<forall>r\<in>set rs. simple_request e r \<and> answers e r = (acts r, Inr ())"
    "concat (concat bursts) = concat (map request_octets rs)" "[] \<notin> set (concat bursts)"
    "length garbage = PAYLOAD_CAPACITY" "sound_socket (length (calls_octets (concat (map acts rs)))) io"
  shows "\<exists>cl io'. read_bursts e garbage bursts io client_new = Inr (cl, io') \<and> \<not> closed (cl_out cl)
    \<and> wire (cl_out cl) @ content (outgoing (cl_out cl)) = calls_octets (concat (map acts rs))
    \<and> cl_transport cl = Http1 h1_new \<and> cl_in cl = []
    \<and> (roomy_socket (length (calls_octets (concat (map acts rs)))) io \<and> length (concat (map acts rs)) \<le> length io
        \<longrightarrow> wire (cl_out cl) = calls_octets (concat (map acts rs)))"
proof -
  have "\<forall>a\<in>set (concat (map acts rs)). sends_something a" using assms(2) answers_send by fastforce
  from client_answered[OF pipeline_feed[OF assms(1-4)] assms(4,5) this assms(6)] show ?thesis .
qed

theorem server_answers_pipeline_witness:
  "\<exists>cl io'. read_bursts (plain_env plain_routes) (replicate 1440 0) [[take 5 (request_octets plain_request)],
      [drop 5 (request_octets plain_request)]]
      (replicate (length (fst (answers (plain_env plain_routes) plain_request)))
        (Sent (Suc (length (calls_octets (fst (answers (plain_env plain_routes) plain_request))))))) client_new = Inr (cl, io')
    \<and> \<not> closed (cl_out cl) \<and> wire (cl_out cl) = calls_octets (fst (answers (plain_env plain_routes) plain_request))"
proof -
  let ?e = "plain_env plain_routes" and ?o = "request_octets plain_request"
  let ?acts = "fst (answers ?e plain_request)"
  let ?io = "replicate (length ?acts) (Sent (Suc (length (calls_octets ?acts))))"
  have len: "14 \<le> length ?o" by (rule request_octets_length)
  then have segments: "[] \<notin> set (concat [[take 5 ?o], [drop 5 ?o]])" by auto
  have answers: "\<forall>r\<in>set [plain_request]. simple_request ?e r \<and> answers ?e r = (?acts, Inr ())"
    using plain_request_simple plain_request_answered by (simp add: prod_eq_iff)
  have whole: "concat (concat [[take 5 ?o], [drop 5 ?o]]) = concat (map request_octets [plain_request])" by simp
  have acts: "concat (map (\<lambda>r. ?acts) [plain_request]) = ?acts" by simp
  have roomy: "roomy_socket (length (calls_octets ?acts)) ?io" by (simp add: roomy_socket_def)
  have "roomy_socket (Suc (length (calls_octets ?acts))) ?io" by (simp add: roomy_socket_def)
  then have "sound_socket (length (calls_octets ?acts)) ?io"
    using roomy_sound[THEN sound_socket_less] by simp
  moreover have "length (replicate 1440 0 :: octets) = PAYLOAD_CAPACITY" by (simp add: PAYLOAD_CAPACITY_def)
  ultimately show ?thesis
    using server_answers_pipeline[OF _ answers whole segments, of "replicate 1440 0" ?io] roomy
    unfolding acts by (auto simp del: read_bursts.simps on_poll_in.simps concat.simps)
qed


section \<open>The event loop\<close>

text \<open>What holds within a batch of events: the closed clients are those that wait for removal.\<close>

definition server_ok :: "server \<Rightarrow> bool" where
  "server_ok sv \<longleftrightarrow>
     (\<forall>fd cl. sv_clients sv fd = Some cl \<longrightarrow> conn_ok (cl_out cl)) \<and> distinct (sv_remove sv) \<and>
     (\<forall>fd. fd \<in> set (sv_remove sv) \<longleftrightarrow> (\<exists>cl. sv_clients sv fd = Some cl \<and> closed (cl_out cl)))"

text \<open>What holds between batches: every client is open, and none waits for removal.\<close>

definition server_quiet :: "server \<Rightarrow> bool" where
  "server_quiet sv \<longleftrightarrow>
     sv_remove sv = [] \<and> (\<forall>fd cl. sv_clients sv fd = Some cl \<longrightarrow> conn_ok (cl_out cl) \<and> \<not> closed (cl_out cl))"

lemma on_poll_in_keeps:
  assumes "on_poll_in e garbage reads io cl = Inr (cl', io')" "conn_ok (cl_out cl)" "length garbage = PAYLOAD_CAPACITY"
  shows "conn_ok (cl_out cl') \<and> (closed (cl_out cl) \<longrightarrow> closed (cl_out cl'))"
  using assms
proof (induction reads arbitrary: io cl)
  case (Cons r reads)
  show ?case
  proof (cases "closed (cl_out cl)")
    case True
    then show ?thesis using Cons.prems by simp
  next
    case False
    show ?thesis
    proof (cases r)
      case (Read xs)
      show ?thesis
      proof (cases "xs = []")
        case True
        then show ?thesis using Cons.prems False Read by auto
      next
        case data: False
        obtain acts t rest c io1 where t: "transport_on_input e (cl_transport cl) (cl_in cl @ xs) = (acts, Inr (t, rest))"
          and p: "perform garbage io acts (cl_out cl) = Some (c, io1)"
          using Cons.prems(1) False Read data by (auto split: prod.splits option.splits sum.splits)
        have "conn_ok c" using perform_sends[OF Cons.prems(2,3) p] by (simp add: sends_to_def)
        then show ?thesis
          using Cons.prems False Read data t p Cons.IH[of io1 "cl\<lparr>cl_out := c, cl_in := rest, cl_transport := t\<rparr>"]
          by (auto simp: Let_def split: if_splits)
      qed
    qed (use Cons.prems False in auto)
  qed
qed simp

lemma put_client_ok:
  assumes "server_ok sv" "conn_ok (cl_out cl)"
    "(\<exists>old. sv_clients sv fd = Some old \<and> closed (cl_out old)) \<longleftrightarrow> was_closed"
    "was_closed \<longrightarrow> closed (cl_out cl)"
  shows "server_ok (put_client fd was_closed cl sv)"
  using assms by (auto simp: server_ok_def put_client_def)

lemma server_event_ok:
  assumes "server_event e garbage ev sv = Inr sv'" "server_ok sv" "length garbage = PAYLOAD_CAPACITY"
  shows "server_ok sv'"
proof (cases ev)
  case (Accepted fd reads io)
  then obtain cl io1 where "sv_clients sv fd = None" "on_poll_in e garbage reads io client_new = Inr (cl, io1)"
    "sv' = put_client fd False cl sv"
    using assms(1) by (auto split: if_splits sum.splits prod.splits)
  moreover have "conn_ok (cl_out client_new)" by (simp add: client_new_def conn_new_def conn_ok_def)
  ultimately show ?thesis
    using on_poll_in_keeps[OF _ _ assms(3)] by (auto intro!: put_client_ok[OF assms(2)])
next
  case (Client_ready fd writable readable reads io)
  then obtain cl where cl: "sv_clients sv fd = Some cl" using assms(1) by (auto split: option.splits)
  obtain c io1 where c: "(if writable then on_poll_out io (cl_out cl) else (cl_out cl, io)) = (c, io1)"
    by (cases "if writable then on_poll_out io (cl_out cl) else (cl_out cl, io)")
  obtain cl' io2 where cl': "(if readable then on_poll_in e garbage reads io1 (cl\<lparr>cl_out := c\<rparr>) else Inr (cl\<lparr>cl_out := c\<rparr>, io1))
      = Inr (cl', io2)" and sv': "sv' = put_client fd (closed (cl_out cl)) cl' sv"
    using assms(1) Client_ready cl c by (auto simp: Let_def split: sum.splits)
  have ok: "conn_ok (cl_out cl)" using assms(2) cl by (simp add: server_ok_def)
  have c_ok: "conn_ok c \<and> (closed (cl_out cl) \<longrightarrow> closed c)"
    using c on_poll_out_accepted[OF ok, of io c io1] ok by (auto split: if_splits)
  have "conn_ok (cl_out cl') \<and> (closed (cl_out cl) \<longrightarrow> closed (cl_out cl'))"
  proof (cases readable)
    case True
    then show ?thesis
      using cl' c_ok on_poll_in_keeps[OF _ _ assms(3), of e reads io1 "cl\<lparr>cl_out := c\<rparr>" cl' io2] by simp
  qed (use cl' c_ok in auto)
  then show ?thesis unfolding sv' using cl by (intro put_client_ok[OF assms(2)]) auto
qed (use assms in \<open>auto simp: server_ok_def\<close>)

lemma server_events_ok:
  "server_events e garbage evs sv = Inr sv' \<Longrightarrow> server_ok sv \<Longrightarrow> length garbage = PAYLOAD_CAPACITY \<Longrightarrow> server_ok sv'"
  by (induction e garbage evs sv rule: server_events.induct) (auto split: sum.splits dest: server_event_ok)

lemma remove_dead_clients_eq:
  "remove_dead_clients fds sv = sv\<lparr>sv_clients := (\<lambda>fd. if fd \<in> set fds then None else sv_clients sv fd), sv_remove := []\<rparr>"
  by (induction fds arbitrary: sv) (auto simp: fun_eq_iff)

lemma server_quiet_ok: "server_quiet sv \<Longrightarrow> server_ok sv"
  by (auto simp: server_quiet_def server_ok_def)

lemma server_batch_quiet:
  assumes "server_batch e garbage evs sv = Inr sv'" "server_quiet sv" "length garbage = PAYLOAD_CAPACITY"
  shows "server_quiet sv'"
proof -
  obtain sv1 where sv1: "server_events e garbage evs sv = Inr sv1" "sv' = remove_dead_clients (sv_remove sv1) sv1"
    using assms(1) by (auto simp: server_batch_def map_sum_def split: sum.splits)
  have "server_ok sv1" by (rule server_events_ok[OF sv1(1) server_quiet_ok[OF assms(2)] assms(3)])
  then show ?thesis by (auto simp: sv1(2) remove_dead_clients_eq server_quiet_def server_ok_def split: if_splits)
qed

text \<open>C22: Between the batches of events, whatever happened in them, every connection the server holds
  is open and none waits for removal: a connection that was closed during a batch is queued
  once and destroyed at the end of it.\<close>

theorem server_clients_open:
  assumes "server_loop e garbage waits sv = Inr sv'" "server_quiet sv" "length garbage = PAYLOAD_CAPACITY"
  shows "server_quiet sv'"
  using assms
proof (induction waits arbitrary: sv)
  case Nil
  then show ?case by (cases "sv_running sv") (auto simp: cleanup_def server_quiet_def)
next
  case (Cons w waits)
  show ?case
  proof (cases "sv_running sv")
    case True
    have "remove_dead_clients (sv_remove sv) sv = sv" using Cons.prems(2) by (simp add: server_quiet_def)
    then show ?thesis
      using True Cons server_batch_quiet[OF _ Cons.prems(2,3)] by (cases w) (auto split: sum.splits)
  next
    case False
    then show ?thesis using Cons.prems by (auto simp: cleanup_def server_quiet_def)
  qed
qed

theorem server_clients_open_witness:
  "\<exists>sv. server_loop (plain_env []) (replicate 1440 0) [Events [Accepted 5 [Read []] []]] server_new = Inr sv \<and> server_quiet sv"
proof -
  let ?sv = "remove_dead_clients [5] (put_client 5 False (client_new\<lparr>cl_out := conn_close conn_new\<rparr>) server_new)"
  have "server_loop (plain_env []) (replicate 1440 0) [Events [Accepted 5 [Read []] []]] server_new = Inr ?sv"
    by (simp add: server_new_def server_batch_def client_new_def conn_new_def put_client_def conn_close_def)
  moreover have "server_quiet server_new" "length (replicate 1440 0 :: octets) = PAYLOAD_CAPACITY"
    by (simp_all add: server_quiet_def server_new_def PAYLOAD_CAPACITY_def)
  ultimately show ?thesis using server_clients_open by blast
qed

text \<open>C38: One malformed request line from one client ends the whole server: the exception leaves the
  event loop, whatever the other clients are doing.\<close>

theorem server_stopped_by_bad_request:
  fixes first hs rest
  defines "bad \<equiv> first @ CH_CR # CH_LF # render_headers hs @ rest"
  assumes "CH_LF \<notin> set first" "length (filter (\<lambda>c. c = CH_SP) first) < 2" "\<forall>f\<in>set hs. field_ok f"
    "get_content_length (e_pick e) (map received_field hs) = Inr 0"
    "hdr_get (e_pick e) (str ''expect'') (map received_field hs) = no_header"
    "take (length bad) CLIENT_PREFACE \<noteq> take 24 bad" "sv_running sv" "sv_clients sv fd = None"
  shows "server_loop e garbage (Events (Accepted fd (Read bad # reads) io # evs) # waits) sv = Inl E_protocol"
proof -
  have "h1_on_input e (h1_server e) (Active h1_new) bad = ([], Inl E_protocol)"
    unfolding bad_def by (rule h1_bad_request_line[OF assms(2-6)])
  then have "transport_on_input e Switch bad = ([], Inl E_protocol)"
    using assms(7) by (auto simp: switch_on_input_def Let_def http1_on_input_def run_simps)
  moreover have "bad \<noteq> []" by (simp add: bad_def)
  ultimately have "on_poll_in e garbage (Read bad # reads) io client_new = Inl E_protocol"
    by (simp add: client_new_def conn_new_def)
  then show ?thesis using assms(8,9) by (simp add: server_batch_def)
qed

theorem server_stopped_by_bad_request_witness:
  "server_loop (plain_env []) [] (Events (Accepted 5 (Read ([71, 69, 84] @ CH_CR # CH_LF # render_headers [] @ []) # []) [] # []) # [])
     server_new = Inl E_protocol"
  by (rule server_stopped_by_bad_request)
    (simp_all add: CH_LF_def CH_SP_def CH_CR_def get_content_length_def hdr_find_def hdr_get_def hdr_matching_def no_header_def
      render_headers_def CLIENT_PREFACE_def server_new_def)

end
