(* ===== verification/Http_Date.thy ===== *)
theory Http_Date
  imports Http_Message "HOL-Library.Signed_Division"
begin

text \<open>
  The Date header: \<open>src/Date.cpp\<close>.

  \<open>gmtime_r\<close> is the argument: the broken-down time it yields, or \<open>None\<close> where it fails.  Its fields
  are C \<open>int\<close>s; \<open>/\<close> and \<open>%\<close> truncate towards zero (\<open>sdiv\<close>, \<open>smod\<close>), and the conversion to \<open>char\<close> is
  modulo 256.  An index beyond one of the two arrays of names is undefined.

  The reference is \<open>read_date\<close>, which reads an IMF-fixdate (RFC 7231, 7.1.1.1).
\<close>

section \<open>The code\<close>

record tm =
  tm_sec :: int
  tm_min :: int
  tm_hour :: int
  tm_mday :: int
  tm_mon :: int
  tm_year :: int
  tm_wday :: int

definition days_of_week :: "octets list" where
  "days_of_week = map str [''Sun'', ''Mon'', ''Tue'', ''Wed'', ''Thu'', ''Fri'', ''Sat'']"

definition months :: "octets list" where
  "months = map str [''Jan'', ''Feb'', ''Mar'', ''Apr'', ''May'', ''Jun'',
     ''Jul'', ''Aug'', ''Sep'', ''Oct'', ''Nov'', ''Dec'']"

definition name_at :: "octets list \<Rightarrow> int \<Rightarrow> octets option" where
  "name_at names i = (if 0 \<le> i \<and> nat i < length names then Some (names ! nat i) else None)"

text \<open>\<open>'0' + n\<close>, stored in a \<open>char\<close>.\<close>

definition digit_char :: "int \<Rightarrow> byte" where
  "digit_char n = word_of_int (48 + n)"

definition date_now :: "tm option \<Rightarrow> http_error + octets" where
  "date_now gmtime =
     (case gmtime of
        None \<Rightarrow> Inl E_runtime
      | Some t \<Rightarrow>
          (case (name_at days_of_week (tm_wday t), name_at months (tm_mon t)) of
             (Some day_of_week, Some month) \<Rightarrow>
               let s = str ''Sun, 06 Nov 1994 08:49:37 GMT'';
                   s = memcpy_at s 0 (take 3 day_of_week);
                   s = s[5 := digit_char (tm_mday t sdiv 10), 6 := digit_char (tm_mday t smod 10)];
                   s = memcpy_at s 8 (take 3 month);
                   year = tm_year t + 1900;
                   s = s[12 := digit_char (year sdiv 1000), 13 := digit_char (year smod 1000 sdiv 100),
                         14 := digit_char (year smod 100 sdiv 10), 15 := digit_char (year smod 10)];
                   s = s[17 := digit_char (tm_hour t sdiv 10), 18 := digit_char (tm_hour t smod 10)];
                   s = s[20 := digit_char (tm_min t sdiv 10), 21 := digit_char (tm_min t smod 10)];
                   s = s[23 := digit_char (tm_sec t sdiv 10), 24 := digit_char (tm_sec t smod 10)]
               in Inr s
           | _ \<Rightarrow> Inl E_undefined))"


section \<open>Reading a date\<close>

definition digit_value :: "byte \<Rightarrow> int option" where
  "digit_value c = (if is_digit c then Some (int (unat c) - 48) else None)"

fun number_value :: "octets \<Rightarrow> int \<Rightarrow> int option" where
  "number_value [] n = Some n"
| "number_value (c # cs) n = (case digit_value c of None \<Rightarrow> None | Some d \<Rightarrow> number_value cs (10 * n + d))"

definition name_index :: "octets list \<Rightarrow> octets \<Rightarrow> int option" where
  "name_index names n = map_option int (find (\<lambda>i. names ! i = n) [0..<length names])"

definition read_date :: "octets \<Rightarrow> tm option" where
  "read_date s =
     (let part = (\<lambda>i n. take n (drop i s))
      in if length s = 29 \<and> part 3 2 = str '', '' \<and> part 7 1 = str '' '' \<and> part 11 1 = str '' '' \<and> part 16 1 = str '' ''
           \<and> part 19 1 = str '':'' \<and> part 22 1 = str '':'' \<and> part 25 4 = str '' GMT''
         then (case (name_index days_of_week (part 0 3), number_value (part 5 2) 0, name_index months (part 8 3),
                  number_value (part 12 4) 0, number_value (part 17 2) 0, number_value (part 20 2) 0, number_value (part 23 2) 0) of
                 (Some wday, Some mday, Some mon, Some year, Some hour, Some minute, Some sec) \<Rightarrow>
                   Some \<lparr>tm_sec = sec, tm_min = minute, tm_hour = hour, tm_mday = mday, tm_mon = mon,
                     tm_year = year - 1900, tm_wday = wday\<rparr>
               | _ \<Rightarrow> None)
         else None)"

text \<open>What the documentation of \<open>gmtime_r\<close> says of its fields, for years of four digits.\<close>

definition tm_ok :: "tm \<Rightarrow> bool" where
  "tm_ok t \<longleftrightarrow> 0 \<le> tm_sec t \<and> tm_sec t \<le> 60 \<and> 0 \<le> tm_min t \<and> tm_min t \<le> 59 \<and> 0 \<le> tm_hour t \<and> tm_hour t \<le> 23
     \<and> 1 \<le> tm_mday t \<and> tm_mday t \<le> 31 \<and> 0 \<le> tm_mon t \<and> tm_mon t \<le> 11
     \<and> - 1900 \<le> tm_year t \<and> tm_year t \<le> 8099 \<and> 0 \<le> tm_wday t \<and> tm_wday t \<le> 6"


section \<open>Round trip\<close>

text \<open>The octets, for names and digits given one by one.\<close>

definition date_octets :: "octets \<Rightarrow> byte list \<Rightarrow> octets \<Rightarrow> octets \<Rightarrow> octets \<Rightarrow> octets \<Rightarrow> octets \<Rightarrow> octets" where
  "date_octets wday mday mon year hour minute sec =
     wday @ str '', '' @ mday @ str '' '' @ mon @ str '' '' @ year @ str '' '' @ hour @ str '':'' @ minute
       @ str '':'' @ sec @ str '' GMT''"

lemma digit_char_unat: "0 \<le> d \<Longrightarrow> d \<le> 9 \<Longrightarrow> unat (digit_char d) = nat (48 + d)"
proof -
  assume d: "0 \<le> d" "d \<le> 9"
  then have "digit_char d = of_nat (48 + nat d)" by (simp add: digit_char_def)
  then show ?thesis using d unat_digit[of "nat d"] by (simp add: nat_add_distrib del: of_nat_add)
qed

lemma digit_char_is_digit: "0 \<le> d \<Longrightarrow> d \<le> 9 \<Longrightarrow> is_digit (digit_char d)"
  by (simp add: is_digit_def digit_char_unat nat_le_iff le_nat_iff)

lemma digit_value_char: "0 \<le> d \<Longrightarrow> d \<le> 9 \<Longrightarrow> digit_value (digit_char d) = Some d"
  by (simp add: digit_value_def digit_char_is_digit digit_char_unat)

lemma name_length:
  "name_at days_of_week i = Some n \<Longrightarrow> length n = 3" "name_at months i = Some n \<Longrightarrow> length n = 3"
  by (auto simp: name_at_def days_of_week_def months_def str_def nth_Cons split: if_splits nat.splits)

lemma length_3: "length n = 3 \<Longrightarrow> \<exists>a b c. n = [a, b, c]"
  by (auto simp: numeral_3_eq_3 length_Suc_conv)

lemma date_now_octets:
  assumes "name_at days_of_week (tm_wday t) = Some wday" "name_at months (tm_mon t) = Some mon"
  shows "date_now (Some t) = Inr (date_octets wday
    [digit_char (tm_mday t sdiv 10), digit_char (tm_mday t smod 10)] mon
    [digit_char ((tm_year t + 1900) sdiv 1000), digit_char ((tm_year t + 1900) smod 1000 sdiv 100),
     digit_char ((tm_year t + 1900) smod 100 sdiv 10), digit_char ((tm_year t + 1900) smod 10)]
    [digit_char (tm_hour t sdiv 10), digit_char (tm_hour t smod 10)]
    [digit_char (tm_min t sdiv 10), digit_char (tm_min t smod 10)]
    [digit_char (tm_sec t sdiv 10), digit_char (tm_sec t smod 10)])"
proof -
  obtain a b c d e f where "wday = [a, b, c]" "mon = [d, e, f]" using assms name_length length_3 by metis
  then show ?thesis using assms
    by (simp add: date_now_def Let_def date_octets_def str_def memcpy_at_def)
qed

lemma c_division:
  fixes n :: int
  assumes "0 \<le> n"
  shows "n sdiv numeral k = n div numeral k" "n smod numeral k = n mod numeral k"
  using assms by (simp_all add: signed_divide_int_def signed_modulo_int_def sgn_if minus_div_mult_eq_mod)

lemma number_value_digits:
  "0 \<le> a \<Longrightarrow> a \<le> 9 \<Longrightarrow> 0 \<le> b \<Longrightarrow> b \<le> 9 \<Longrightarrow> number_value [digit_char a, digit_char b] 0 = Some (10 * a + b)"
  "0 \<le> a \<Longrightarrow> a \<le> 9 \<Longrightarrow> 0 \<le> b \<Longrightarrow> b \<le> 9 \<Longrightarrow> 0 \<le> c \<Longrightarrow> c \<le> 9 \<Longrightarrow> 0 \<le> d \<Longrightarrow> d \<le> 9 \<Longrightarrow>
     number_value [digit_char a, digit_char b, digit_char c, digit_char d] 0 = Some (1000 * a + 100 * b + 10 * c + d)"
  by (simp_all add: digit_value_char)

lemma two_digits:
  assumes "0 \<le> n" "n \<le> 99"
  shows "number_value [digit_char (n sdiv 10), digit_char (n smod 10)] 0 = Some n"
proof -
  have "n div 10 \<le> 9" using assms(2) by simp
  then show ?thesis using number_value_digits(1)[of "n div 10" "n mod 10"] assms
    by (simp add: c_division pos_imp_zdiv_nonneg_iff del: number_value.simps)
qed

lemma four_digits:
  assumes "0 \<le> n" "n \<le> 9999"
  shows "number_value [digit_char (n sdiv 1000), digit_char (n smod 1000 sdiv 100), digit_char (n smod 100 sdiv 10),
      digit_char (n smod 10)] 0 = Some n"
proof -
  let ?a = "n div 1000" and ?b = "n mod 1000 div 100" and ?c = "n mod 100 div 10" and ?d = "n mod 10"
  have "n mod 1000 mod 100 = n mod 100" "n mod 100 mod 10 = n mod 10" by (simp_all add: mod_mod_cancel)
  then have whole: "1000 * ?a + 100 * ?b + 10 * ?c + ?d = n"
    using mult_div_mod_eq[of 1000 n] mult_div_mod_eq[of 100 "n mod 1000"] mult_div_mod_eq[of 10 "n mod 100"] by linarith
  have "0 \<le> ?a" "0 \<le> ?b" "0 \<le> ?c" "0 \<le> ?d" using assms(1) by (simp_all add: pos_imp_zdiv_nonneg_iff)
  moreover have "?a \<le> 9" "?b \<le> 9" "?c \<le> 9" "?d \<le> 9" using assms(2) by simp_all
  ultimately have "number_value [digit_char ?a, digit_char ?b, digit_char ?c, digit_char ?d] 0 = Some n"
    using number_value_digits(2)[of ?a ?b ?c ?d] unfolding whole by blast
  then show ?thesis using assms(1) by (simp only: c_division pos_mod_sign zero_less_numeral)
qed

lemma names_read_back:
  "name_at days_of_week i = Some n \<Longrightarrow> name_index days_of_week n = Some i"
  "name_at months i = Some n \<Longrightarrow> name_index months n = Some i"
proof -
  have "list_all (\<lambda>i. name_index days_of_week (days_of_week ! i) = Some (int i)) [0..<7]"
    "list_all (\<lambda>i. name_index months (months ! i) = Some (int i)) [0..<12]" by code_simp+
  then have d: "\<forall>i<7. name_index days_of_week (days_of_week ! i) = Some (int i)"
    and m: "\<forall>i<12. name_index months (months ! i) = Some (int i)" by (simp_all add: list_all_iff)
  have l: "length days_of_week = 7" "length months = 12" by (simp_all add: days_of_week_def months_def)
  show "name_at days_of_week i = Some n \<Longrightarrow> name_index days_of_week n = Some i"
    using d l by (auto simp: name_at_def split: if_splits)
  show "name_at months i = Some n \<Longrightarrow> name_index months n = Some i"
    using m l by (auto simp: name_at_def split: if_splits)
qed

lemma read_date_octets:
  assumes "length wday = 3" "length mday = 2" "length mon = 3" "length year = 4" "length hour = 2"
    "length minute = 2" "length sec = 2"
  shows "read_date (date_octets wday mday mon year hour minute sec) =
    (case (name_index days_of_week wday, number_value mday 0, name_index months mon, number_value year 0,
        number_value hour 0, number_value minute 0, number_value sec 0) of
       (Some wday, Some mday, Some mon, Some year, Some hour, Some minute, Some sec) \<Rightarrow>
         Some \<lparr>tm_sec = sec, tm_min = minute, tm_hour = hour, tm_mday = mday, tm_mon = mon,
           tm_year = year - 1900, tm_wday = wday\<rparr>
     | _ \<Rightarrow> None)"
  using assms by (simp add: read_date_def date_octets_def str_def)

lemma date_now_spec:
  assumes "tm_ok t"
  shows "\<exists>s. date_now (Some t) = Inr s \<and> length s = 29 \<and> read_date s = Some t"
proof -
  have "nat (tm_wday t) < 7" "nat (tm_mon t) < 12" using assms by (simp_all add: tm_ok_def nat_less_iff)
  then obtain wday mon where n: "name_at days_of_week (tm_wday t) = Some wday" "name_at months (tm_mon t) = Some mon"
    using assms by (simp add: name_at_def tm_ok_def days_of_week_def months_def)
  note len = name_length(1)[OF n(1)] name_length(2)[OF n(2)]
  show ?thesis
    unfolding date_now_octets[OF n] using assms
    by (simp add: read_date_octets len names_read_back(1)[OF n(1)] names_read_back(2)[OF n(2)] two_digits four_digits tm_ok_def
        del: number_value.simps)
      (simp add: date_octets_def len str_def)
qed

text \<open>The header the server adds: a value without line ends or surrounding blanks.\<close>

lemma number_value_only_digits: "number_value cs n = Some m \<Longrightarrow> CH_LF \<notin> set cs"
  by (induction cs n rule: number_value.induct) (auto simp: digit_value_def is_digit_def CH_LF_def split: option.splits if_splits)

lemma date_octets_value:
  assumes "CH_LF \<notin> set wday" "CH_LF \<notin> set mday" "CH_LF \<notin> set mon" "CH_LF \<notin> set year" "CH_LF \<notin> set hour"
    "CH_LF \<notin> set minute" "CH_LF \<notin> set sec" "wday \<noteq> []" "\<not> is_lws (hd wday)"
  defines "s \<equiv> date_octets wday mday mon year hour minute sec"
  shows "CH_LF \<notin> set s \<and> s \<noteq> [] \<and> \<not> is_lws (hd s) \<and> \<not> is_lws (last s)"
proof -
  have p: "CH_LF \<notin> set (str '', '')" "CH_LF \<notin> set (str '' '')" "CH_LF \<notin> set (str '':'')" "CH_LF \<notin> set (str '' GMT'')"
    "\<not> is_lws (last (str '' GMT''))" "str '' GMT'' \<noteq> []"
    by (simp_all add: str_def of_char_def CH_LF_def is_lws_def CH_SP_def CH_TAB_def)
  then show ?thesis using assms(1-9) by (simp add: s_def date_octets_def)
qed

lemma name_chars:
  "name_at days_of_week i = Some n \<Longrightarrow> CH_LF \<notin> set n \<and> \<not> is_lws (hd n)"
  "name_at months i = Some n \<Longrightarrow> CH_LF \<notin> set n"
proof -
  have "list_all (\<lambda>n. CH_LF \<notin> set n \<and> \<not> is_lws (hd n)) days_of_week" "list_all (\<lambda>n. CH_LF \<notin> set n) months"
    by code_simp+
  then show "name_at days_of_week i = Some n \<Longrightarrow> CH_LF \<notin> set n \<and> \<not> is_lws (hd n)"
    "name_at months i = Some n \<Longrightarrow> CH_LF \<notin> set n"
    by (auto simp: name_at_def list_all_iff split: if_splits)
qed

lemma date_now_value:
  assumes "tm_ok t" "date_now (Some t) = Inr s"
  shows "CH_LF \<notin> set s \<and> s \<noteq> [] \<and> \<not> is_lws (hd s) \<and> \<not> is_lws (last s)"
proof -
  have "nat (tm_wday t) < 7" "nat (tm_mon t) < 12" using assms(1) by (simp_all add: tm_ok_def nat_less_iff)
  then obtain wday mon where n: "name_at days_of_week (tm_wday t) = Some wday" "name_at months (tm_mon t) = Some mon"
    using assms(1) by (simp add: name_at_def tm_ok_def days_of_week_def months_def)
  have t: "0 \<le> tm_mday t" "tm_mday t \<le> 99" "0 \<le> tm_hour t" "tm_hour t \<le> 99" "0 \<le> tm_min t" "tm_min t \<le> 99"
    "0 \<le> tm_sec t" "tm_sec t \<le> 99" "0 \<le> tm_year t + 1900" "tm_year t + 1900 \<le> 9999"
    using assms(1) by (simp_all add: tm_ok_def)
  note digits = number_value_only_digits[OF two_digits[OF t(1,2)]] number_value_only_digits[OF two_digits[OF t(3,4)]]
    number_value_only_digits[OF two_digits[OF t(5,6)]] number_value_only_digits[OF two_digits[OF t(7,8)]]
    number_value_only_digits[OF four_digits[OF t(9,10)]]
  have "wday \<noteq> []" using name_length(1)[OF n(1)] by auto
  then show ?thesis
    using assms(2) date_octets_value[OF _ digits(1) _ digits(5) digits(2) digits(3) digits(4)] name_chars(1)[OF n(1)]
      name_chars(2)[OF n(2)]
    unfolding date_now_octets[OF n] by blast
qed

text \<open>C39: The date the server sends is an IMF-fixdate of 29 octets and names exactly the moment the
  clock has, for the years 0 to 9999.\<close>

theorem date_now_roundtrip:
  assumes "tm_ok t"
  shows "\<exists>s. date_now (Some t) = Inr s \<and> length s = 29 \<and> read_date s = Some t"
  using assms by (rule date_now_spec)

theorem date_now_roundtrip_witness:
  "\<exists>s. date_now (Some \<lparr>tm_sec = 37, tm_min = 49, tm_hour = 8, tm_mday = 6, tm_mon = 10, tm_year = 94, tm_wday = 0\<rparr>) = Inr s
     \<and> length s = 29
     \<and> read_date s = Some \<lparr>tm_sec = 37, tm_min = 49, tm_hour = 8, tm_mday = 6, tm_mon = 10, tm_year = 94, tm_wday = 0\<rparr>"
  by (rule date_now_roundtrip) (simp add: tm_ok_def)

text \<open>From the year 10000 on the first digit of the year is not a digit, and no reader takes the date.\<close>

lemma date_now_year_10000:
  assumes "tm_ok (t\<lparr>tm_year := 0\<rparr>)" "8100 \<le> tm_year t" "tm_year t < 10100"
  shows "\<exists>s. date_now (Some t) = Inr s \<and> read_date s = None"
proof -
  have "nat (tm_wday t) < 7" "nat (tm_mon t) < 12" using assms(1) by (simp_all add: tm_ok_def nat_less_iff)
  then obtain wday mon where n: "name_at days_of_week (tm_wday t) = Some wday" "name_at months (tm_mon t) = Some mon"
    using assms(1) by (simp add: name_at_def tm_ok_def days_of_week_def months_def)
  let ?d = "(tm_year t + 1900) sdiv 1000"
  have "10 \<le> ?d" "?d < 12" using assms(2,3) by (simp_all add: c_division)
  then have "?d = 10 \<or> ?d = 11" by arith
  then have "digit_value (digit_char ?d) = None" by (auto simp: digit_value_def is_digit_def digit_char_def)
  then show ?thesis
    unfolding date_now_octets[OF n]
    by (simp add: read_date_octets name_length(1)[OF n(1)] name_length(2)[OF n(2)] split: option.splits)
qed

end
