(* ===== verification/Client_Server.thy ===== *)
theory Client_Server
  imports Http1_Upgrade Http_Date
begin

text \<open>
  Both ends of HTTP/1: what \<open>ServerTransport::sendResponse\<close> prints is what \<open>ClientTransport\<close> hands to
  its response handler.  The two ends may have different environments.
\<close>

section \<open>The headers of a response on their way\<close>

lemma ci_equal_lower [simp]: "ci_equal n (ascii_lower k) = ci_equal n k"
proof -
  have "tolower (tolower c) = tolower c" for c
    by (auto simp: tolower_def word_le_nat_alt unat_word_ariths)
  then show ?thesis by (simp add: ci_equal_def ascii_lower_def list.rel_map)
qed

lemma hdr_matching_received: "hdr_matching n (map received_field hs) = map received_field (hdr_matching n hs)"
  by (simp add: hdr_matching_def filter_map received_field_def case_prod_beta' comp_def)

lemma hdr_get_absent: "hdr_matching n hs = [] \<Longrightarrow> hdr_get pick n hs = no_header"
  by (simp add: hdr_get_def hdr_find_def)

text \<open>The fields the server adds can be printed and read back.\<close>

lemma general_fields_ok:
  assumes "tm_ok t" "date_now (Some t) = Inr (e_now e)"
  shows "field_ok (str ''date'', e_now e)" "field_ok (str ''server'', PRODUCT)" "field_ok (length_field n)"
proof -
  show "field_ok (str ''date'', e_now e)"
    using date_now_value[OF assms]
    by (auto simp: field_ok_def) (auto simp: str_def of_char_def CH_COLON_def CH_LF_def is_lws_def CH_SP_def CH_TAB_def)
  show "field_ok (str ''server'', PRODUCT)"
    by (auto simp: field_ok_def PRODUCT_def str_def of_char_def CH_COLON_def CH_LF_def is_lws_def CH_SP_def CH_TAB_def)
qed (rule field_ok_length)

lemma outgoing_headers_ok:
  assumes "tm_ok t" "date_now (Some t) = Inr (e_now e)" "\<forall>f\<in>set (m_headers m). field_ok f"
  shows "\<forall>f\<in>set (outgoing_headers e m). field_ok f"
  using assms general_fields_ok[OF assms(1,2)]
  by (auto simp: outgoing_headers_def set_general_server_headers_def set_server_header_def set_date_header_def
      set_content_length_def hdr_add_def length_field_def)

lemma response_length:
  assumes "env_ok e" "env_ok e'" "hdr_matching (str ''content-length'') (m_headers m) = []" "length (m_body m) < 2 ^ 63"
  shows "get_content_length (e_pick e') (map received_field (e_order e (outgoing_headers e m))) = Inr (int (length (m_body m)))"
proof -
  let ?n = "str ''content-length''" and ?hs = "outgoing_headers e m"
  have "hdr_matching ?n ?hs = [(?n, to_decimal (length (m_body m)))]"
    using assms(3) hdrs.add_new matching_general_headers[of ?n e "m_headers m"]
    by (simp add: outgoing_headers_def set_content_length_def general_header_names)
  then have "hdr_matching ?n (e_order e ?hs) = [(?n, to_decimal (length (m_body m)))]"
    using hdr_matching_order[OF assms(1), of ?n ?hs] by simp
  then have "hdr_matching ?n (map received_field (e_order e ?hs)) = [(ascii_lower ?n, to_decimal (length (m_body m)))]"
    by (simp add: hdr_matching_received received_field_def)
  from get_content_length_single[OF assms(2) this assms(4)] show ?thesis .
qed

lemma response_no_connection:
  assumes "env_ok e" "hdr_matching (str ''connection'') (m_headers m) = []"
  shows "snd (hdr_get pick (str ''connection'') (map received_field (e_order e (outgoing_headers e m)))) \<noteq> str ''close''"
proof -
  let ?n = "str ''connection''"
  have n: "length ?n = 10" "\<not> ci_equal ?n (str ''content-length'')"
    using ci_equal_length[of ?n "str ''content-length''"] by (auto simp: str_def)
  then have "hdr_matching ?n (outgoing_headers e m) = []"
    using assms(2) matching_general_headers[of ?n e "m_headers m"] by (simp add: outgoing_headers_def set_content_length_def)
  then have "hdr_matching ?n (map received_field (e_order e (outgoing_headers e m))) = []"
    using hdr_matching_order[OF assms(1), of ?n "outgoing_headers e m"] by (simp add: hdr_matching_received)
  then show ?thesis by (simp add: hdr_get_absent no_header_def str_def)
qed


section \<open>A response and its reader\<close>

text \<open>A message of which head and body arrive in segments of their own, or which has no body.\<close>

definition segments :: "octets \<Rightarrow> octets \<Rightarrow> octets list" where
  "segments head body = (if body = [] then [head] else [head, body])"

lemma h1_message_handled:
  assumes "CH_LF \<notin> set first" "\<forall>f\<in>set hs. field_ok f"
    "get_content_length (e_pick e) (map received_field hs) = Inr (int (length body))"
    "hc_end_of_headers c (map received_field hs) = return ()"
    "hc_handle c \<lparr>im_first_line = first, im_message = \<lparr>m_body = body, m_headers = map received_field hs\<rparr>\<rparr> = (acts, Inr None)"
    "snd (hdr_get (e_pick e) (str ''connection'') (map received_field hs)) \<noteq> str ''close''"
  shows "h1_feed e c (Active h1_new) [] (segments (first @ CH_CR # CH_LF # render_headers hs) body) = (acts, Inr (Active h1_new, []))"
proof (cases "body = []")
  case True
  have "process_line e c [] (head_read first hs) = (acts, Inr (True, Active h1_new))"
    using assms True by (intro process_blank_line) simp_all
  then have "process_input e c (Active (head_read first hs)) [CH_CR, CH_LF] = (acts, Inr (True, Active h1_new, []))"
    using blank_line[of "[]"] by (simp add: process_input_head run_simps)
  then have "h1_on_input e c (Active h1_new) (first @ CH_CR # CH_LF # render_headers hs) = (acts, Inr (Active h1_new, []))"
    using h1_on_input_head[OF assms(1,2), of e c "[]"] by (simp add: h1_on_input.simps[of e c _ "[CH_CR, CH_LF]"])
  then show ?thesis using True by (simp add: segments_def run_simps)
next
  case False
  then show ?thesis using h1_body_handled[OF assms(1-3) False assms(4-6)] by (simp add: segments_def)
qed

lemma status_line_no_LF:
  assumes "100 \<le> code" "code \<le> 599" "status_line code = Inr line"
  shows "CH_LF \<notin> set line"
proof -
  have "code div 100 < 10" using assms(2) by simp
  note u = unat_digit[OF this] unat_digit[of "code div 10 mod 10"] unat_digit[of "code mod 10"]
  have "unat CH_LF = 10" by (simp add: CH_LF_def)
  then have "CH_LF \<notin> set [of_nat (48 + code div 100), of_nat (48 + code div 10 mod 10), of_nat (48 + code mod 10)]"
    using u by (auto simp del: of_nat_add)
  moreover have "CH_LF \<notin> set (str ''HTTP/1.1'')" "CH_LF \<notin> set [0xf0, 0x9f, 0x98, 0x8e]"
    by (simp_all add: str_def of_char_def CH_LF_def)
  ultimately show ?thesis using assms status_line_octets[OF assms(1,2)] by (auto simp del: of_nat_add)
qed

text \<open>What the server prints, and what the client makes of it.\<close>

definition response_head :: "env \<Rightarrow> response \<Rightarrow> octets \<Rightarrow> octets" where
  "response_head e r line = line @ CH_CR # CH_LF # render_headers (e_order e (outgoing_headers e (rs_message r)))"

definition received_response :: "env \<Rightarrow> response \<Rightarrow> response" where
  "received_response e r =
     \<lparr>rs_message = \<lparr>m_body = m_body (rs_message r),
        m_headers = map received_field (e_order e (outgoing_headers e (rs_message r)))\<rparr>,
      rs_status = rs_status r\<rparr>"

text \<open>Responses that fit the format and set neither their length nor the fate of the connection.\<close>

definition plain_response :: "response \<Rightarrow> bool" where
  "plain_response r \<longleftrightarrow>
     100 \<le> rs_status r \<and> rs_status r \<le> 599 \<and> length (m_body (rs_message r)) < 2 ^ 63 \<and>
     (\<forall>f\<in>set (m_headers (rs_message r)). field_ok f) \<and>
     hdr_matching (str ''content-length'') (m_headers (rs_message r)) = [] \<and>
     hdr_matching (str ''connection'') (m_headers (rs_message r)) = []"

definition clock_ok :: "env \<Rightarrow> bool" where
  "clock_ok e \<longleftrightarrow> (\<exists>t. tm_ok t \<and> date_now (Some t) = Inr (e_now e))"

lemma response_sent:
  assumes "status_line (rs_status r) = Inr line"
  shows "send_response e r = ([Send_payload [line, [CH_CR, CH_LF],
      render_headers (e_order e (outgoing_headers e (rs_message r))), m_body (rs_message r)]], Inr ())"
  using assms by (simp add: send_response_def send_message_def run_simps)

lemma response_printed:
  assumes "env_ok e" "env_ok e'" "clock_ok e" "plain_response r" "status_line (rs_status r) = Inr line"
  shows "CH_LF \<notin> set line" "\<forall>f\<in>set (e_order e (outgoing_headers e (rs_message r))). field_ok f"
    "get_content_length (e_pick e') (map received_field (e_order e (outgoing_headers e (rs_message r))))
      = Inr (int (length (m_body (rs_message r))))"
proof -
  let ?m = "rs_message r"
  obtain t where t: "tm_ok t" "date_now (Some t) = Inr (e_now e)" using assms(3) by (auto simp: clock_ok_def)
  have r: "length (m_body ?m) < 2 ^ 63" "\<forall>f\<in>set (m_headers ?m). field_ok f"
    "hdr_matching (str ''content-length'') (m_headers ?m) = []" "CH_LF \<notin> set line"
    using assms(4) status_line_no_LF[OF _ _ assms(5)] by (simp_all add: plain_response_def)
  have "set (e_order e (outgoing_headers e ?m)) = set (outgoing_headers e ?m)"
    using assms(1) by (metis env_ok_def set_mset_mset)
  then show "\<forall>f\<in>set (e_order e (outgoing_headers e ?m)). field_ok f"
    using outgoing_headers_ok[OF t r(2)] by simp
  show "CH_LF \<notin> set line" by (rule r(4))
  show "get_content_length (e_pick e') (map received_field (e_order e (outgoing_headers e ?m))) = Inr (int (length (m_body ?m)))"
    by (rule response_length[OF assms(1,2) r(3,1)])
qed

text \<open>The response as any reader with the client's parsers gets it: the library form, for an
  arbitrary handler of messages.\<close>

lemma response_handled:
  assumes "env_ok e" "env_ok e'" "clock_ok e" "plain_response r" "status_line (rs_status r) = Inr line"
    "hc_end_of_headers c (m_headers (rs_message (received_response e r))) = return ()"
    "hc_handle c \<lparr>im_first_line = line, im_message = rs_message (received_response e r)\<rparr> = (acts, Inr None)"
  shows "h1_feed e' c (Active h1_new) [] (segments (response_head e r line) (m_body (rs_message r)))
    = (acts, Inr (Active h1_new, []))"
proof -
  have "hdr_matching (str ''connection'') (m_headers (rs_message r)) = []" using assms(4) by (simp add: plain_response_def)
  from h1_message_handled[OF response_printed[OF assms(1-5)] _ _ response_no_connection[OF assms(1) this]]
  show ?thesis using assms(6,7) by (simp add: received_response_def response_head_def)
qed

lemma response_in_one_segment:
  assumes "env_ok e" "env_ok e'" "clock_ok e" "plain_response r" "status_line (rs_status r) = Inr line"
    "m_body (rs_message r) \<noteq> []" "hc_end_of_headers c (m_headers (rs_message (received_response e r))) = return ()"
  shows "[] \<notin> set chunks \<Longrightarrow>
      fst (h1_feed e' c (Active h1_new) [] ((response_head e r line @ m_body (rs_message r)) # chunks)) = []"
    "\<exists>t rest. h1_on_input e' c (Active h1_new) (response_head e r line @ m_body (rs_message r)) = ([], Inr (Active t, rest))"
  using body_with_head_stalls[OF response_printed[OF assms(1-5)] assms(6), of c chunks]
    h1_head_then_body[OF response_printed[OF assms(1-5)], of c "m_body (rs_message r)"] assms(6,7)
  by (simp_all add: received_response_def response_head_def)

text \<open>C3: A response travels from end to end, or it does not: the server prints head and body in one
  payload.  When the network delivers them in segments of their own, or there is no body, the
  client's handler is called once, with the status and the body that the server's handler gave,
  and with the headers that were printed, their names in lower case.  When a response with a body
  is delivered in one segment, as it was sent, the handler is never called, whatever follows.\<close>

theorem client_reads_response:
  assumes "env_ok e" "env_ok e'" "clock_ok e" "plain_response r"
    "client_send_requests e' (Some f) (f (received_response e r)) = (acts, Inr ())"
  shows "\<exists>line pieces. send_response e r = ([Send_payload pieces], Inr ())
    \<and> concat pieces = response_head e r line @ m_body (rs_message r)
    \<and> h1_feed e' (h1_client e' (Some f)) (Active h1_new) [] (segments (response_head e r line) (m_body (rs_message r)))
      = (acts, Inr (Active h1_new, []))
    \<and> (\<forall>later. m_body (rs_message r) \<noteq> [] \<and> [] \<notin> set later
        \<longrightarrow> fst (h1_feed e' (h1_client e' (Some f)) (Active h1_new) [] (concat pieces # later)) = [])"
proof -
  obtain line where l: "status_line (rs_status r) = Inr line"
    "parse_status_line line
      = Inr \<lparr>sl_code = rs_status r, sl_reason_phrase = [0xf0, 0x9f, 0x98, 0x8e], sl_version = str ''HTTP/1.1''\<rparr>"
    using status_line_roundtrip[of "rs_status r"] assms(4) by (auto simp: plain_response_def)
  have "hc_handle (h1_client e' (Some f)) \<lparr>im_first_line = line, im_message = rs_message (received_response e r)\<rparr> = (acts, Inr None)"
    using l(2) assms(5) by (simp add: h1_client_def client_handle_def run_simps received_response_def)
  then have "h1_feed e' (h1_client e' (Some f)) (Active h1_new) [] (segments (response_head e r line) (m_body (rs_message r)))
      = (acts, Inr (Active h1_new, []))"
    by (intro response_handled[OF assms(1-4) l(1)]) (simp_all add: h1_client_def)
  moreover have "fst (h1_feed e' (h1_client e' (Some f)) (Active h1_new) []
      ((response_head e r line @ m_body (rs_message r)) # later)) = []"
    if "m_body (rs_message r) \<noteq> []" "[] \<notin> set later" for later
    using that by (intro response_in_one_segment(1)[OF assms(1-4) l(1)]) (simp_all add: h1_client_def)
  ultimately show ?thesis
    using response_sent[OF l(1), of e] by (intro exI[of _ line]) (simp add: response_head_def del: h1_feed.simps)
qed

lemma plain_env_clock: "clock_ok (plain_env rs)"
proof -
  let ?t = "\<lparr>tm_sec = 0, tm_min = 0, tm_hour = 0, tm_mday = 1, tm_mon = 0, tm_year = 70, tm_wday = 4\<rparr>"
  have "date_now (Some ?t) = Inr (str ''Thu, 01 Jan 1970 00:00:00 GMT'')" by code_simp
  moreover have "tm_ok ?t" by (simp add: tm_ok_def)
  ultimately show ?thesis unfolding clock_ok_def by (intro exI[of _ ?t]) (simp add: plain_env_def)
qed

lemma plain_response_hi: "plain_response (response_new 200 (str ''hi''))"
  by (simp add: plain_response_def response_new_def hdr_matching_def str_def)

theorem client_reads_response_witness:
  "let e = plain_env []; r = response_new 200 (str ''hi''); f = (\<lambda>r. [plain_request])
   in \<exists>line pieces. send_response e r = ([Send_payload pieces], Inr ())
    \<and> concat pieces = response_head e r line @ m_body (rs_message r)
    \<and> h1_feed e (h1_client e (Some f)) (Active h1_new) [] (segments (response_head e r line) (m_body (rs_message r)))
      = (fst (send_message e (request_line (rq_method plain_request) (rq_path plain_request)) (rq_message plain_request)),
         Inr (Active h1_new, []))
    \<and> fst (h1_feed e (h1_client e (Some f)) (Active h1_new) [] [concat pieces, [1]]) = []"
proof -
  let ?e = "plain_env []" and ?r = "response_new 200 (str ''hi'')" and ?f = "\<lambda>r. [plain_request]"
  let ?acts = "fst (send_message ?e (request_line (rq_method plain_request) (rq_path plain_request)) (rq_message plain_request))"
  have sent: "client_send_requests ?e (Some ?f) (?f (received_response ?e ?r)) = (?acts, Inr ())"
    by (simp add: client_send_request_def send_message_def run_simps)
  have body: "m_body (rs_message ?r) \<noteq> []" "[] \<notin> set [[1 :: byte]]" by (simp_all add: response_new_def str_def)
  obtain line pieces where p: "send_response ?e ?r = ([Send_payload pieces], Inr ())"
    "concat pieces = response_head ?e ?r line @ m_body (rs_message ?r)"
    "h1_feed ?e (h1_client ?e (Some ?f)) (Active h1_new) [] (segments (response_head ?e ?r line) (m_body (rs_message ?r)))
      = (?acts, Inr (Active h1_new, []))"
    "\<forall>later. m_body (rs_message ?r) \<noteq> [] \<and> [] \<notin> set later
        \<longrightarrow> fst (h1_feed ?e (h1_client ?e (Some ?f)) (Active h1_new) [] (concat pieces # later)) = []"
    using client_reads_response[where f = ?f, OF plain_env_ok plain_env_ok plain_env_clock plain_response_hi sent] by blast
  from p(4) body have "fst (h1_feed ?e (h1_client ?e (Some ?f)) (Active h1_new) [] [concat pieces, [1]]) = []" by blast
  then show ?thesis
    unfolding Let_def using p(1-3) by blast
qed

end
