(* ===== verification/Client_Pool.thy ===== *)
theory Client_Pool
  imports Client_Server Connection
begin

text \<open>
  The pool of client connections: \<open>src/http1/ClientTransportSource.h\<close> and
  \<open>ClientTransportSource.cpp\<close>.

  A \<open>ClientTransport\<close> is named by its address, a number; its object, the \<open>Connection\<close> that owns it and
  its response handler are a \<open>backend\<close>.  Both containers of the pool own their connections, so
  they hold the objects themselves.  A response handler is a value of type \<open>'h\<close>: who waits for the
  response.

  The pool promises that a transport is held by one user at a time: the locale \<open>lending\<close>.
\<close>

section \<open>The code\<close>

record 'h backend =
  bk_out :: conn
  bk_in :: octets
  bk_h1 :: h1
  bk_handler :: "'h option"

definition backend_new :: "'h backend" where
  "backend_new = \<lparr>bk_out = conn_new, bk_in = [], bk_h1 = h1_new, bk_handler = None\<rparr>"

record 'h source =
  sp_spare :: "(nat \<times> 'h backend) list"
  sp_in_use :: "nat \<Rightarrow> 'h backend option"

definition source_new :: "'h source" where
  "source_new = \<lparr>sp_spare = [], sp_in_use = Map.empty\<rparr>"

text \<open>
  The calls of \<open>socket\<close> and \<open>connect\<close>: an error, or a descriptor on which the connection is established
  or in progress; then the address of the new transport.
\<close>

datatype connect_result = Socket_failed | Connect_failed | Connecting nat

text \<open>\<open>try_emplace\<close> keeps an existing entry.\<close>

definition emplace :: "nat \<Rightarrow> 'h backend \<Rightarrow> 'h source \<Rightarrow> 'h source" where
  "emplace p b src = (if sp_in_use src p = None then src\<lparr>sp_in_use := (sp_in_use src)(p \<mapsto> b)\<rparr> else src)"

definition new_transport :: "connect_result \<Rightarrow> 'h source \<Rightarrow> http_error + nat \<times> 'h source" where
  "new_transport r src =
     (case r of
        Socket_failed \<Rightarrow> Inl E_runtime
      | Connect_failed \<Rightarrow> Inl E_runtime
      | Connecting p \<Rightarrow> Inr (p, emplace p backend_new src))"

definition has_spare_transports :: "'h source \<Rightarrow> bool" where
  "has_spare_transports src \<longleftrightarrow> sp_spare src \<noteq> []"

definition spare_transport :: "'h source \<Rightarrow> http_error + nat \<times> 'h source" where
  "spare_transport src =
     (case sp_spare src of
        [] \<Rightarrow> Inl E_undefined
      | (p, b) # spare \<Rightarrow> Inr (p, emplace p b (src\<lparr>sp_spare := spare\<rparr>)))"

definition set_handler :: "nat \<Rightarrow> 'h option \<Rightarrow> 'h source \<Rightarrow> 'h source" where
  "set_handler p h src = src\<lparr>sp_in_use := (sp_in_use src)(p := map_option (\<lambda>b. b\<lparr>bk_handler := h\<rparr>) (sp_in_use src p))\<rparr>"

definition get_transport :: "'h \<Rightarrow> connect_result \<Rightarrow> 'h source \<Rightarrow> http_error + nat \<times> 'h source" where
  "get_transport h r src =
     map_sum id (\<lambda>(p, src). (p, set_handler p (Some h) src))
       (if has_spare_transports src then spare_transport src else new_transport r src)"

text \<open>\<open>putTransport\<close>: first \<open>resetHandler\<close>, which needs the object; then it has to be one in use.\<close>

definition put_transport :: "nat \<Rightarrow> 'h source \<Rightarrow> http_error + 'h source" where
  "put_transport p src =
     (case sp_in_use src p of
        Some b \<Rightarrow> Inr (src\<lparr>sp_spare := (p, b\<lparr>bk_handler := None\<rparr>) # sp_spare src, sp_in_use := (sp_in_use src)(p := None)\<rparr>)
      | None \<Rightarrow> Inl (if p \<in> set (map fst (sp_spare src)) then E_logic else E_undefined))"


section \<open>Where a transport is\<close>

definition find_backend :: "nat \<Rightarrow> 'h source \<Rightarrow> 'h backend option" where
  "find_backend p src =
     (case sp_in_use src p of Some b \<Rightarrow> Some b | None \<Rightarrow> map_of (sp_spare src) p)"

definition update_backend :: "nat \<Rightarrow> ('h backend \<Rightarrow> 'h backend) \<Rightarrow> 'h source \<Rightarrow> 'h source" where
  "update_backend p f src =
     src\<lparr>sp_in_use := (sp_in_use src)(p := map_option f (sp_in_use src p)),
         sp_spare := map (\<lambda>(q, b). (q, if q = p then f b else b)) (sp_spare src)\<rparr>"

text \<open>Every transport is in one of the containers, and has a handler just if it is in use.\<close>

definition pool_ok :: "'h source \<Rightarrow> bool" where
  "pool_ok src \<longleftrightarrow>
     distinct (map fst (sp_spare src)) \<and> set (map fst (sp_spare src)) \<inter> dom (sp_in_use src) = {} \<and>
     (\<forall>(p, b)\<in>set (sp_spare src). bk_handler b = None) \<and> (\<forall>p b. sp_in_use src p = Some b \<longrightarrow> bk_handler b \<noteq> None)"

definition live_transports :: "'h source \<Rightarrow> nat set" where
  "live_transports src = set (map fst (sp_spare src)) \<union> dom (sp_in_use src)"

text \<open>The allocator yields an address that no live object has.\<close>

definition fresh_result :: "connect_result \<Rightarrow> 'h source \<Rightarrow> bool" where
  "fresh_result r src \<longleftrightarrow> (\<forall>p. r = Connecting p \<longrightarrow> p \<notin> live_transports src)"

definition held :: "'h source \<Rightarrow> nat \<Rightarrow> 'h option" where
  "held src p = (case sp_in_use src p of None \<Rightarrow> None | Some b \<Rightarrow> bk_handler b)"



section \<open>Lending\<close>

text \<open>A history of loans, and who holds the transport \<open>p\<close> after it; \<open>None\<close> if it was ever lent twice
  or returned by another than its holder.\<close>

datatype 'h loan = Lent nat 'h | Returned nat 'h

fun loan_step :: "nat \<Rightarrow> 'h loan \<Rightarrow> 'h option \<Rightarrow> 'h option option" where
  "loan_step p (Lent q h) st = (if q = p then (if st = None then Some (Some h) else None) else Some st)"
| "loan_step p (Returned q h) st = (if q = p then (if st = Some h then Some None else None) else Some st)"

definition borrower :: "nat \<Rightarrow> 'h loan list \<Rightarrow> 'h option option" where
  "borrower p history = foldl (\<lambda>st l. Option.bind st (loan_step p l)) (Some None) history"

lemma borrower_simps [simp]:
  "borrower p [] = Some None"
  "borrower p (history @ [l]) = Option.bind (borrower p history) (loan_step p l)"
  by (simp_all add: borrower_def)

text \<open>
  What the users of a pool rely on: \<open>acquire\<close> lends what nobody holds, \<open>release\<close> takes back what is
  held and nothing else.
\<close>

locale lending =
  fixes acquire :: "'h \<Rightarrow> 'r \<Rightarrow> 's \<Rightarrow> 'e + nat \<times> 's"
    and release :: "nat \<Rightarrow> 's \<Rightarrow> 'e + 's"
    and holder :: "'s \<Rightarrow> nat \<Rightarrow> 'h option"
    and ok :: "'s \<Rightarrow> bool"
    and fresh :: "'r \<Rightarrow> 's \<Rightarrow> bool"
  assumes acquire_free: "ok s \<Longrightarrow> fresh r s \<Longrightarrow> acquire h r s = Inr (p, s') \<Longrightarrow>
      ok s' \<and> holder s p = None \<and> holder s' = (holder s)(p \<mapsto> h)"
    and release_held: "ok s \<Longrightarrow> holder s p = Some h \<Longrightarrow>
      \<exists>s'. release p s = Inr s' \<and> ok s' \<and> holder s' = (holder s)(p := None)"
    and release_free: "ok s \<Longrightarrow> holder s p = None \<Longrightarrow> \<exists>err. release p s = Inl err"
begin

definition tracks :: "'h loan list \<Rightarrow> 's \<Rightarrow> bool" where
  "tracks history s \<longleftrightarrow> ok s \<and> (\<forall>p. borrower p history = Some (holder s p))"

lemma tracks_acquire:
  assumes "tracks history s" "fresh r s" "acquire h r s = Inr (p, s')"
  shows "tracks (history @ [Lent p h]) s'"
  using assms acquire_free[of s r h p s'] by (simp add: tracks_def)

lemma tracks_release:
  assumes "tracks history s" "release p s = Inr s'"
  shows "\<exists>h. holder s p = Some h \<and> tracks (history @ [Returned p h]) s'"
proof -
  have "holder s p \<noteq> None" using release_free[of s p] assms by (auto simp: tracks_def)
  then show ?thesis using release_held[of s p] assms by (auto simp: tracks_def)
qed

lemma tracks_unchanged: "tracks history s \<Longrightarrow> ok s' \<Longrightarrow> holder s' = holder s \<Longrightarrow> tracks history s'"
  by (simp add: tracks_def)

lemma acquire_distinct:
  assumes "ok s" "fresh r s" "acquire h r s = Inr (p, s')" "fresh r' s'" "acquire h' r' s' = Inr (p', s'')"
  shows "p' \<noteq> p"
  using acquire_free[OF assms(1-3)] acquire_free[OF _ assms(4,5)] by auto

end

lemma pool_ok_new: "pool_ok source_new"
  by (simp add: pool_ok_def source_new_def)

lemma get_transport_held:
  assumes "pool_ok src" "fresh_result r src" "get_transport h r src = Inr (p, src')"
  shows "pool_ok src' \<and> held src p = None \<and> held src' = (held src)(p \<mapsto> h)"
proof (cases "sp_spare src")
  case Nil
  then have "r = Connecting p" "src' = set_handler p (Some h) (emplace p backend_new src)"
    using assms(3) by (auto simp: get_transport_def has_spare_transports_def new_transport_def split: connect_result.splits)
  moreover from this(1) have "sp_in_use src p = None"
    using assms(2) by (auto simp: fresh_result_def live_transports_def)
  ultimately show ?thesis
    using assms(1) Nil by (auto simp: emplace_def set_handler_def pool_ok_def held_def fun_eq_iff)
next
  case (Cons x spare)
  obtain q b where x: "x = (q, b)" by (cases x)
  then have "p = q" "src' = set_handler p (Some h) (emplace q b (src\<lparr>sp_spare := spare\<rparr>))"
    using assms(3) Cons by (auto simp: get_transport_def has_spare_transports_def spare_transport_def)
  moreover have "sp_in_use src q = None" using assms(1) Cons x by (auto simp: pool_ok_def)
  ultimately show ?thesis
    using assms(1) Cons x by (auto simp: emplace_def set_handler_def pool_ok_def held_def fun_eq_iff)
qed

lemma put_transport_held:
  assumes "pool_ok src" "held src p = Some h"
  shows "\<exists>src'. put_transport p src = Inr src' \<and> pool_ok src' \<and> held src' = (held src)(p := None)"
proof -
  obtain b where b: "sp_in_use src p = Some b" using assms(2) by (auto simp: held_def split: option.splits)
  then have "p \<notin> set (map fst (sp_spare src))" using assms(1) by (auto simp: pool_ok_def)
  then show ?thesis using assms(1) b by (auto simp: put_transport_def pool_ok_def held_def fun_eq_iff)
qed

lemma put_transport_free:
  assumes "pool_ok src" "held src p = None"
  shows "\<exists>err. put_transport p src = Inl err"
proof -
  have "sp_in_use src p = None" using assms by (fastforce simp: held_def pool_ok_def split: option.splits)
  then show ?thesis by (simp add: put_transport_def)
qed

interpretation pool: lending get_transport put_transport held pool_ok fresh_result
  by unfold_locales (erule get_transport_held put_transport_held put_transport_free, assumption+)+

text \<open>What happens on a connection does not change who holds it.\<close>

lemma update_backend_held:
  assumes "pool_ok src" "\<And>b. bk_handler (f b) = bk_handler b"
  shows "pool_ok (update_backend p f src) \<and> held (update_backend p f src) = held src"
proof -
  have "fst \<circ> (\<lambda>(q, b). (q, if q = p then f b else b)) = fst" by (simp add: fun_eq_iff)
  then have "map fst (map (\<lambda>(q, b). (q, if q = p then f b else b)) (sp_spare src)) = map fst (sp_spare src)" by simp
  moreover have "dom (sp_in_use (update_backend p f src)) = dom (sp_in_use src)"
    by (auto simp: update_backend_def split: if_splits)
  ultimately show ?thesis
    using assms by (auto simp: pool_ok_def held_def update_backend_def fun_eq_iff simp del: map_map split: option.splits if_splits)
qed

end
