(* ===== verification/Proxy.thy ===== *)
theory Proxy
  imports Server_Core Client_Pool
begin

text \<open>
  The proxy: \<open>src/ProxyHandler.cpp\<close>, on top of the pool of client connections and of the HTTP/1
  transports of both sides.

  A server stream is named by its address, a number, and represented by the connection it answers
  on; a stream that is not in \<open>px_streams\<close> has been destroyed, and using it is undefined.  A
  \<open>PerRequestProxyHandler\<close> lives from the request to its response; it is the response handler of
  the transport it has acquired, which is represented by the stream of its responder.  The calls
  of the backend's transport are carried out in order; the response handler is one of them.
\<close>

section \<open>The code\<close>

record proxy =
  px_source :: "nat source"
  px_streams :: "nat \<Rightarrow> conn option"

text \<open>The client transport of a proxied request: its handler is called with the response.\<close>

definition backend_handle :: "incoming \<Rightarrow> unit option run" where
  "backend_handle m =
     and_then (lift_sum (parse_status_line (im_first_line m))) (\<lambda>sl.
       and_then (call (Handle_response \<lparr>rs_message = im_message m, rs_status = sl_code sl\<rparr>)) (\<lambda>_. return None))"

definition h1_backend :: "unit h1_class" where
  "h1_backend = \<lparr>hc_handle = backend_handle, hc_end_of_headers = (\<lambda>hs. return ())\<rparr>"

definition respond :: "env \<Rightarrow> octets \<Rightarrow> io_result list \<Rightarrow> nat \<Rightarrow> response \<Rightarrow> proxy \<Rightarrow> http_error + proxy \<times> io_result list" where
  "respond e garbage io s r px =
     (case px_streams px s of
        None \<Rightarrow> Inl E_undefined
      | Some c \<Rightarrow>
          (case send_response e r of (acts, result) \<Rightarrow>
             (case perform garbage io acts c of
                None \<Rightarrow> Inl E_undefined
              | Some (c, io) \<Rightarrow>
                  (case result of
                     Inl err \<Rightarrow> Inl err
                   | Inr _ \<Rightarrow> Inr (px\<lparr>px_streams := (px_streams px)(s \<mapsto> c)\<rparr>, io)))))"

definition release_backend_transport :: "nat \<Rightarrow> proxy \<Rightarrow> http_error + proxy" where
  "release_backend_transport p px =
     map_sum id (\<lambda>src. px\<lparr>px_source := src\<rparr>) (put_transport p (set_handler p None (px_source px)))"

definition on_backend_response ::
  "env \<Rightarrow> octets \<Rightarrow> io_result list \<Rightarrow> nat \<Rightarrow> nat \<Rightarrow> response \<Rightarrow> proxy \<Rightarrow> http_error + proxy \<times> io_result list" where
  "on_backend_response e garbage io p s r px =
     (case release_backend_transport p px of Inl err \<Rightarrow> Inl err | Inr px \<Rightarrow> respond e garbage io s r px)"

text \<open>The history: a request of a stream was sent on a transport; a stream was answered from a transport.\<close>

datatype proxied = Asked nat nat | Answered nat nat response

text \<open>A request that a handler made by \<open>MakeProxyHandler\<close> is called with.\<close>

definition proxy_request ::
  "env \<Rightarrow> octets \<Rightarrow> nat \<Rightarrow> request \<Rightarrow> connect_result \<Rightarrow> io_result list \<Rightarrow> proxy \<Rightarrow> http_error + proxied list \<times> proxy" where
  "proxy_request e garbage s req r io px =
     (case get_transport s r (px_source px) of
        Inl err \<Rightarrow> Inl err
      | Inr (p, src) \<Rightarrow>
          (case find_backend p src of
             None \<Rightarrow> Inl E_undefined
           | Some b \<Rightarrow>
               (case client_send_request e (map_option (\<lambda>_ _. []) (bk_handler b)) req of (acts, result) \<Rightarrow>
                  (case perform garbage io acts (bk_out b) of
                     None \<Rightarrow> Inl E_undefined
                   | Some (c, io) \<Rightarrow>
                       (case result of
                          Inl err \<Rightarrow> Inl err
                        | Inr _ \<Rightarrow>
                            Inr ([Asked s p], px\<lparr>px_source := update_backend p (\<lambda>b. b\<lparr>bk_out := c\<rparr>) src\<rparr>))))))"

definition update_transport :: "nat \<Rightarrow> (nat backend \<Rightarrow> nat backend) \<Rightarrow> proxy \<Rightarrow> proxy" where
  "update_transport p f px = px\<lparr>px_source := update_backend p f (px_source px)\<rparr>"

text \<open>The calls a transport makes while it reads: on its connection, and of its response handler.\<close>

fun backend_calls ::
  "env \<Rightarrow> octets \<Rightarrow> nat \<Rightarrow> io_result list \<Rightarrow> action list \<Rightarrow> proxy \<Rightarrow> http_error + proxied list \<times> proxy \<times> io_result list" where
  "backend_calls e garbage p io [] px = Inr ([], px, io)"
| "backend_calls e garbage p io (a # acts) px =
     (case find_backend p (px_source px) of
        None \<Rightarrow> Inl E_undefined
      | Some b \<Rightarrow>
          (case a of
             Handle_response r \<Rightarrow>
               (case bk_handler b of
                  None \<Rightarrow> Inl E_bad_function_call
                | Some s \<Rightarrow>
                    (case on_backend_response e garbage io p s r px of
                       Inl err \<Rightarrow> Inl err
                     | Inr (px, io) \<Rightarrow>
                         map_sum id (\<lambda>(log, rest). (Answered s p r # log, rest)) (backend_calls e garbage p io acts px)))
           | _ \<Rightarrow>
               (case perform garbage io [a] (bk_out b) of
                  None \<Rightarrow> Inl E_undefined
                | Some (c, io) \<Rightarrow> backend_calls e garbage p io acts (update_transport p (\<lambda>b. b\<lparr>bk_out := c\<rparr>) px))))"

text \<open>\<open>Connection::onPollIn\<close> of a connection of the pool; it has no manager, and \<open>close\<close> closes its socket.\<close>

fun backend_poll_in ::
  "env \<Rightarrow> octets \<Rightarrow> nat \<Rightarrow> read_result list \<Rightarrow> io_result list \<Rightarrow> proxy \<Rightarrow> http_error + proxied list \<times> proxy \<times> io_result list" where
  "backend_poll_in e garbage p [] io px = Inr ([], px, io)"
| "backend_poll_in e garbage p (r # reads) io px =
     (case find_backend p (px_source px) of
        None \<Rightarrow> Inl E_undefined
      | Some b \<Rightarrow>
          let closing = update_transport p (\<lambda>b. b\<lparr>bk_out := conn_close (bk_out b)\<rparr>) px
          in if closed (bk_out b) then Inr ([], px, io)
             else case r of
               Read_again \<Rightarrow> Inr ([], px, io)
             | Read_failed \<Rightarrow> Inr ([], closing, io)
             | Read xs \<Rightarrow>
                 if xs = [] then Inr ([], closing, io)
                 else
                   (case h1_on_input e h1_backend (Active (bk_h1 b)) (bk_in b @ xs) of
                      (acts, result) \<Rightarrow>
                        (case backend_calls e garbage p io acts px of
                           Inl err \<Rightarrow> Inl err
                         | Inr (log, px, io) \<Rightarrow>
                             (case result of
                                Inl err \<Rightarrow> Inl err
                              | Inr (Replaced _, rest) \<Rightarrow> Inl E_undefined
                              | Inr (Active t, rest) \<Rightarrow>
                                  map_sum id (\<lambda>(log', px'). (log @ log', px'))
                                    (backend_poll_in e garbage p reads io
                                       (update_transport p (\<lambda>b. b\<lparr>bk_h1 := t, bk_in := rest\<rparr>) px))))))"

text \<open>
  What happens to a proxy: a stream appears or is destroyed with its connection, a stream's
  request is dispatched to the proxy, a connection of the pool is readable.
\<close>

datatype proxy_input =
  Stream_opened nat conn
| Stream_gone nat
| Proxied nat request connect_result "io_result list"
| Backend_ready nat "read_result list" "io_result list"

fun proxy_event :: "env \<Rightarrow> octets \<Rightarrow> proxy_input \<Rightarrow> proxy \<Rightarrow> http_error + proxied list \<times> proxy" where
  "proxy_event e garbage (Stream_opened s c) px = Inr ([], px\<lparr>px_streams := (px_streams px)(s \<mapsto> c)\<rparr>)"
| "proxy_event e garbage (Stream_gone s) px = Inr ([], px\<lparr>px_streams := (px_streams px)(s := None)\<rparr>)"
| "proxy_event e garbage (Proxied s req r io) px = proxy_request e garbage s req r io px"
| "proxy_event e garbage (Backend_ready p reads io) px =
     map_sum id (\<lambda>(log, px, io). (log, px)) (backend_poll_in e garbage p reads io px)"

definition proxy_new :: proxy where
  "proxy_new = \<lparr>px_source = source_new, px_streams = Map.empty\<rparr>"

text \<open>The allocator gives no address twice while the object lives.\<close>

fun event_fresh :: "proxy_input \<Rightarrow> proxy \<Rightarrow> bool" where
  "event_fresh (Proxied s req r io) px = fresh_result r (px_source px)"
| "event_fresh _ px = True"

inductive proxy_run :: "env \<Rightarrow> octets \<Rightarrow> proxied list \<Rightarrow> proxy \<Rightarrow> bool" for e garbage where
  run_start: "proxy_run e garbage [] proxy_new"
| run_event: "proxy_run e garbage history px \<Longrightarrow> event_fresh ev px \<Longrightarrow>
    proxy_event e garbage ev px = Inr (log, px') \<Longrightarrow> proxy_run e garbage (history @ log) px'"


section \<open>Each response goes to the stream that asked\<close>

fun loan_of :: "proxied \<Rightarrow> nat loan" where
  "loan_of (Asked s p) = Lent p s"
| "loan_of (Answered s p r) = Returned p s"

definition proxy_ok :: "proxied list \<Rightarrow> proxy \<Rightarrow> bool" where
  "proxy_ok history px \<longleftrightarrow> pool.tracks (map loan_of history) (px_source px)"

lemma proxy_ok_update:
  assumes "proxy_ok history px" "\<And>b. bk_handler (f b) = bk_handler b"
  shows "proxy_ok history (update_transport p f px)"
  using assms update_backend_held[of "px_source px" f p] pool.tracks_unchanged
  by (fastforce simp: proxy_ok_def update_transport_def pool.tracks_def)

lemma put_transport_reset: "put_transport p (set_handler p None src) = put_transport p src"
  by (auto simp: put_transport_def set_handler_def split: option.splits)

lemma on_backend_response_ok:
  assumes "proxy_ok history px" "find_backend p (px_source px) = Some b" "bk_handler b = Some s"
    "on_backend_response e garbage io p s r px = Inr (px', io')"
  shows "proxy_ok (history @ [Answered s p r]) px'"
proof -
  obtain src where src: "put_transport p (px_source px) = Inr src" "px_source px' = src"
    using assms(4) by (cases "put_transport p (px_source px)")
      (auto simp: on_backend_response_def release_backend_transport_def put_transport_reset respond_def
        split: sum.splits option.splits prod.splits)
  have "bk_handler b \<noteq> None \<Longrightarrow> sp_in_use (px_source px) p = Some b"
    using assms(1,2) by (auto simp: find_backend_def proxy_ok_def pool.tracks_def pool_ok_def dest!: map_of_SomeD split: option.splits)
  then have "held (px_source px) p = Some s" using assms(3) by (simp add: held_def)
  then show ?thesis
    using pool.tracks_release[OF _ src(1)] assms(1) src(2) by (fastforce simp: proxy_ok_def)
qed

lemma backend_calls_ok:
  assumes "proxy_ok history px" "backend_calls e garbage p io acts px = Inr (log, px', io')"
  shows "proxy_ok (history @ log) px'"
  using assms
proof (induction acts arbitrary: history px io log)
  case (Cons a acts)
  obtain b where b: "find_backend p (px_source px) = Some b" using Cons.prems(2) by (auto split: option.splits)
  show ?case
  proof (cases "\<exists>r. a = Handle_response r")
    case True
    then obtain r where a: "a = Handle_response r" by blast
    then obtain s px1 io1 log1 where r: "bk_handler b = Some s" "on_backend_response e garbage io p s r px = Inr (px1, io1)"
      "backend_calls e garbage p io1 acts px1 = Inr (log1, px', io')" "log = Answered s p r # log1"
      using Cons.prems(2) b by (auto simp: map_sum_def split: option.splits sum.splits prod.splits)
    show ?thesis
      using Cons.IH[OF on_backend_response_ok[OF Cons.prems(1) b r(1,2)] r(3)] r(4) by simp
  next
    case False
    then obtain c io1 where c: "backend_calls e garbage p io1 acts (update_transport p (\<lambda>b. b\<lparr>bk_out := c\<rparr>) px) = Inr (log, px', io')"
      using Cons.prems(2) b by (cases a) (auto split: option.splits prod.splits)
    have "proxy_ok history (update_transport p (\<lambda>b. b\<lparr>bk_out := c\<rparr>) px)"
      by (rule proxy_ok_update[OF Cons.prems(1)]) simp
    then show ?thesis using Cons.IH c by blast
  qed
qed simp

lemma backend_poll_in_ok:
  assumes "proxy_ok history px" "backend_poll_in e garbage p reads io px = Inr (log, px', io')"
  shows "proxy_ok (history @ log) px'"
  using assms
proof (induction reads arbitrary: history px io log)
  case (Cons r reads)
  obtain b where b: "find_backend p (px_source px) = Some b" using Cons.prems(2) by (auto split: option.splits)
  show ?case
  proof (cases "\<not> closed (bk_out b) \<and> (\<exists>xs. r = Read xs \<and> xs \<noteq> [])")
    case True
    then obtain xs where r: "r = Read xs" "xs \<noteq> []" "\<not> closed (bk_out b)" by blast
    obtain acts result where h: "h1_on_input e h1_backend (Active (bk_h1 b)) (bk_in b @ xs) = (acts, result)"
      by (cases "h1_on_input e h1_backend (Active (bk_h1 b)) (bk_in b @ xs)")
    obtain log1 px1 io1 t rest log2 where c: "backend_calls e garbage p io acts px = Inr (log1, px1, io1)"
      "result = Inr (Active t, rest)"
      "backend_poll_in e garbage p reads io1 (update_transport p (\<lambda>b. b\<lparr>bk_h1 := t, bk_in := rest\<rparr>) px1) = Inr (log2, px', io')"
      "log = log1 @ log2"
      using Cons.prems(2) b r h
      by (auto simp: Let_def map_sum_def split: sum.splits prod.splits h1_state.splits)
    have "proxy_ok (history @ log1) (update_transport p (\<lambda>b. b\<lparr>bk_h1 := t, bk_in := rest\<rparr>) px1)"
      using backend_calls_ok[OF Cons.prems(1) c(1)] by (rule proxy_ok_update) simp
    from Cons.IH[OF this c(3)] show ?thesis by (simp add: c(4))
  next
    case False
    then have "log = [] \<and> (px' = px \<or> px' = update_transport p (\<lambda>b. b\<lparr>bk_out := conn_close (bk_out b)\<rparr>) px)"
      using Cons.prems(2) b by (cases r) (auto simp: Let_def split: if_splits)
    then show ?thesis using Cons.prems(1) proxy_ok_update[OF Cons.prems(1)] by auto
  qed
qed simp

lemma proxy_request_ok:
  assumes "proxy_ok history px" "fresh_result r (px_source px)" "proxy_request e garbage s req r io px = Inr (log, px')"
  shows "proxy_ok (history @ log) px'"
proof -
  obtain p src c where g: "get_transport s r (px_source px) = Inr (p, src)" "log = [Asked s p]"
    "px' = update_transport p (\<lambda>b. b\<lparr>bk_out := c\<rparr>) (px\<lparr>px_source := src\<rparr>)"
    using assms(3) by (auto simp: proxy_request_def update_transport_def split: sum.splits option.splits prod.splits)
  have "proxy_ok (history @ log) (px\<lparr>px_source := src\<rparr>)"
    using pool.tracks_acquire[OF _ assms(2) g(1)] assms(1) by (simp add: proxy_ok_def g(2))
  then show ?thesis unfolding g(3) by (rule proxy_ok_update) simp
qed

lemma proxy_event_ok:
  assumes "proxy_ok history px" "event_fresh ev px" "proxy_event e garbage ev px = Inr (log, px')"
  shows "proxy_ok (history @ log) px'"
proof (cases ev)
  case (Proxied s req r io)
  then show ?thesis using assms proxy_request_ok by simp
next
  case (Backend_ready p reads io)
  then show ?thesis
    using assms(3) backend_poll_in_ok[OF assms(1)] by (cases "backend_poll_in e garbage p reads io px") auto
qed (use assms in \<open>auto simp: proxy_ok_def\<close>)

lemma proxy_run_ok: "proxy_run e garbage history px \<Longrightarrow> proxy_ok history px"
proof (induction rule: proxy_run.induct)
  case run_start
  then show ?case by (simp add: proxy_ok_def pool.tracks_def proxy_new_def pool_ok_new) (simp add: held_def source_new_def)
next
  case (run_event history px ev log px')
  then show ?case using proxy_event_ok by blast
qed

text \<open>Who holds a transport was the last to get it.\<close>

fun loan_transport :: "'h loan \<Rightarrow> nat" where
  "loan_transport (Lent p h) = p"
| "loan_transport (Returned p h) = p"

lemma borrower_lent:
  "borrower p history = Some (Some h) \<Longrightarrow>
     \<exists>earlier between. history = earlier @ Lent p h # between \<and> (\<forall>l\<in>set between. loan_transport l \<noteq> p)"
proof (induction history rule: rev_induct)
  case (snoc l history)
  obtain st where st: "borrower p history = Some st" "loan_step p l st = Some (Some h)"
    using snoc.prems by (auto simp: bind_eq_Some_conv)
  show ?case
  proof (cases "loan_transport l = p")
    case True
    then have "l = Lent p h" using st(2) by (cases l) (auto split: if_splits)
    then show ?thesis by (intro exI[of _ history] exI[of _ "[]"]) simp
  next
    case False
    then have "st = Some h" using st(2) by (cases l) auto
    then obtain earlier between where "history = earlier @ Lent p h # between" "\<forall>l\<in>set between. loan_transport l \<noteq> p"
      using snoc.IH st(1) by blast
    then show ?thesis using False by (intro exI[of _ earlier] exI[of _ "between @ [l]"]) simp
  qed
qed simp

lemma borrower_prefix: "borrower p (history @ later) = Some x \<Longrightarrow> borrower p history \<noteq> None"
proof (induction later arbitrary: x rule: rev_induct)
  case (snoc l later)
  then show ?case by (auto simp: bind_eq_Some_conv simp flip: append_assoc)
qed simp

fun proxied_transport :: "proxied \<Rightarrow> nat" where
  "proxied_transport (Asked s p) = p"
| "proxied_transport (Answered s p r) = p"

lemma loan_transport_of [simp]: "loan_transport (loan_of x) = proxied_transport x"
  by (cases x) simp_all

lemma map_split:
  assumes "map f xs = es @ y # bs"
  shows "\<exists>earlier x between. xs = earlier @ x # between \<and> f x = y \<and> map f between = bs"
proof -
  obtain earlier later where l: "xs = earlier @ later" "map f later = y # bs"
    using assms by (auto simp: map_eq_append_conv)
  then show ?thesis by (cases later) auto
qed

lemma answer_after_question:
  assumes "proxy_ok (before @ Answered s p r # after) px"
  shows "\<exists>earlier between. before = earlier @ Asked s p # between \<and> (\<forall>x\<in>set between. proxied_transport x \<noteq> p)"
proof -
  have "borrower p (map loan_of (before @ [Answered s p r]) @ map loan_of after) = Some (held (px_source px) p)"
    using assms by (simp add: proxy_ok_def pool.tracks_def)
  then have "borrower p (map loan_of (before @ [Answered s p r])) \<noteq> None" by (rule borrower_prefix)
  then have "Option.bind (borrower p (map loan_of before)) (loan_step p (Returned p s)) \<noteq> None" by simp
  then have "borrower p (map loan_of before) = Some (Some s)"
    by (cases "borrower p (map loan_of before)") (simp_all split: if_splits)
  from borrower_lent[OF this] obtain es bs
    where h: "map loan_of before = es @ Lent p s # bs" "\<forall>l\<in>set bs. loan_transport l \<noteq> p" by (elim exE conjE)
  from map_split[OF h(1)] obtain earlier x between
    where b: "before = earlier @ x # between" "loan_of x = Lent p s" "map loan_of between = bs" by (elim exE conjE)
  have "x = Asked s p" using b(2) by (cases x) simp_all
  moreover have "\<forall>x\<in>set between. proxied_transport x \<noteq> p" using h(2) unfolding b(3)[symmetric] by simp
  ultimately show ?thesis using b(1) by blast
qed

end
