(* ===== verification/Proxy_Relay.thy ===== *)
theory Proxy_Relay
  imports Proxy
begin

text \<open>
  What a proxy does for its clients (\<open>src/ProxyHandler.cpp\<close>, \<open>src/http1/ClientTransportSource.cpp\<close>): a
  request goes to a transport that nobody holds, and the response that arrives on it goes back to
  the stream of the request; and what goes wrong when the backend or the client do not keep to
  this exchange.
\<close>

section \<open>Following one transport\<close>

definition bk_at :: "nat \<Rightarrow> nat backend \<Rightarrow> proxy \<Rightarrow> bool" where
  "bk_at p b px \<longleftrightarrow> pool_ok (px_source px) \<and> find_backend p (px_source px) = Some b"

lemma find_update:
  "find_backend q (update_backend p f src) = (if q = p then map_option f (find_backend p src) else find_backend q src)"
proof -
  have "map_of (map (\<lambda>(q, b). (q, if q = p then f b else b)) xs) q
      = (if q = p then map_option f (map_of xs p) else map_of xs q)" for xs
    by (induction xs) auto
  then show ?thesis by (auto simp: find_backend_def update_backend_def split: option.splits)
qed

lemma bk_at_update:
  assumes "bk_at p b px" "\<And>b. bk_handler (f b) = bk_handler b"
  shows "bk_at p (f b) (update_transport p f px)" "px_streams (update_transport p f px) = px_streams px"
    "q \<noteq> p \<Longrightarrow> find_backend q (px_source (update_transport p f px)) = find_backend q (px_source px)"
  using assms update_backend_held[of "px_source px" f p]
  by (simp_all add: bk_at_def update_transport_def find_update)

lemma held_in_use:
  assumes "bk_at p b px" "bk_handler b = Some s"
  shows "sp_in_use (px_source px) p = Some b"
  using assms by (auto simp: bk_at_def find_backend_def pool_ok_def dest!: map_of_SomeD split: option.splits)

lemma on_backend_response_found:
  assumes "bk_at p b px" "bk_handler b = Some s" "px_streams px s = Some c"
    "send_response e r = (acts, Inr ())" "perform garbage io acts c = Some (c', io')"
  shows "\<exists>px'. on_backend_response e garbage io p s r px = Inr (px', io') \<and> bk_at p (b\<lparr>bk_handler := None\<rparr>) px'
    \<and> px_streams px' = (px_streams px)(s \<mapsto> c')
    \<and> (\<forall>q. q \<noteq> p \<longrightarrow> find_backend q (px_source px') = find_backend q (px_source px))"
proof -
  have b: "sp_in_use (px_source px) p = Some b" by (rule held_in_use[OF assms(1,2)])
  then have "held (px_source px) p = Some s" using assms(2) by (simp add: held_def)
  then obtain src where src: "put_transport p (px_source px) = Inr src" "pool_ok src"
    using put_transport_held[of "px_source px" p s] assms(1) by (auto simp: bk_at_def)
  then have "find_backend p src = Some (b\<lparr>bk_handler := None\<rparr>)"
    "\<forall>q. q \<noteq> p \<longrightarrow> find_backend q src = find_backend q (px_source px)"
    using b by (auto simp: put_transport_def find_backend_def split: option.splits)
  then show ?thesis
    using src assms(3-5)
    by (simp add: on_backend_response_def release_backend_transport_def put_transport_reset respond_def bk_at_def)
qed

text \<open>What a run of the transport over its segments means for the proxy: no call, or one response.\<close>

lemma h1_feed_replaced: "h1_feed e c (Replaced t') r xs \<noteq> (acts, Inr (Active t, rest))"
proof (cases xs)
  case (Cons x xs)
  have "h1_on_input e c (Replaced t') (r @ x) = ([], Inl E_undefined)"
    by (subst h1_on_input.simps) (simp add: process_input_def raise_def)
  then show ?thesis using Cons by (simp add: run_simps)
qed (simp add: run_simps)

lemma backend_silent:
  assumes "h1_feed e h1_backend (Active (bk_h1 b)) (bk_in b) chunks = ([], Inr (Active t, rest))"
    "bk_at p b px" "\<not> closed (bk_out b)" "[] \<notin> set chunks"
  shows "\<exists>px'. backend_poll_in e garbage p (map Read chunks) io px = Inr ([], px', io)
    \<and> bk_at p (b\<lparr>bk_h1 := t, bk_in := rest\<rparr>) px' \<and> px_streams px' = px_streams px
    \<and> (\<forall>q. q \<noteq> p \<longrightarrow> find_backend q (px_source px') = find_backend q (px_source px))"
  using assms
proof (induction chunks arbitrary: b px)
  case Nil
  then have "b\<lparr>bk_h1 := t, bk_in := rest\<rparr> = b" by (cases b) (simp add: run_simps)
  then show ?case using Nil.prems by simp
next
  case (Cons x xs)
  obtain st r1 where h: "h1_on_input e h1_backend (Active (bk_h1 b)) (bk_in b @ x) = ([], Inr (st, r1))"
    and rest: "h1_feed e h1_backend st r1 xs = ([], Inr (Active t, rest))"
    using Cons.prems(1) by (auto simp: and_then_Inr)
  show ?case
  proof (cases st)
    case (Active t1)
    let ?f = "\<lambda>b. b\<lparr>bk_h1 := t1, bk_in := r1\<rparr>"
    have u: "bk_at p (?f b) (update_transport p ?f px)" "px_streams (update_transport p ?f px) = px_streams px"
      "\<forall>q. q \<noteq> p \<longrightarrow> find_backend q (px_source (update_transport p ?f px)) = find_backend q (px_source px)"
      using bk_at_update[OF Cons.prems(2), of ?f] by simp_all
    have "backend_poll_in e garbage p (map Read (x # xs)) io px
        = map_sum id (\<lambda>(log', px'). (log', px')) (backend_poll_in e garbage p (map Read xs) io (update_transport p ?f px))"
      using Cons.prems(2-4) h Active by (auto simp: bk_at_def)
    moreover have "\<exists>px'. backend_poll_in e garbage p (map Read xs) io (update_transport p ?f px) = Inr ([], px', io)
        \<and> bk_at p (b\<lparr>bk_h1 := t, bk_in := rest\<rparr>) px' \<and> px_streams px' = px_streams px
        \<and> (\<forall>q. q \<noteq> p \<longrightarrow> find_backend q (px_source px') = find_backend q (px_source px))"
      using Cons.IH[OF _ u(1)] Cons.prems(3,4) rest Active u(2,3) by simp
    ultimately show ?thesis by auto
  next
    case (Replaced t')
    then show ?thesis using rest by (simp add: h1_feed_replaced)
  qed
qed

lemma backend_answers:
  assumes "h1_feed e h1_backend (Active (bk_h1 b)) (bk_in b) chunks = ([Handle_response r], Inr (Active t, rest))"
    "bk_at p b px" "\<not> closed (bk_out b)" "[] \<notin> set chunks" "bk_handler b = Some s" "px_streams px s = Some c"
    "send_response e r = (acts, Inr ())" "perform garbage io acts c = Some (c', io')"
  shows "\<exists>px'. backend_poll_in e garbage p (map Read chunks) io px = Inr ([Answered s p r], px', io')
    \<and> bk_at p (b\<lparr>bk_handler := None, bk_h1 := t, bk_in := rest\<rparr>) px' \<and> px_streams px' = (px_streams px)(s \<mapsto> c')
    \<and> (\<forall>q. q \<noteq> p \<longrightarrow> find_backend q (px_source px') = find_backend q (px_source px))"
  using assms(1-6)
proof (induction chunks arbitrary: b px)
  case (Cons x xs)
  obtain a1 a2 st r1 where h: "h1_on_input e h1_backend (Active (bk_h1 b)) (bk_in b @ x) = (a1, Inr (st, r1))"
    and rest: "h1_feed e h1_backend st r1 xs = (a2, Inr (Active t, rest))" and a: "a1 @ a2 = [Handle_response r]"
    using Cons.prems(1) by (auto simp: and_then_Inr)
  show ?case
  proof (cases st)
    case (Replaced t')
    then show ?thesis using rest by (simp add: h1_feed_replaced)
  next
    case (Active t1)
    let ?f = "\<lambda>b. b\<lparr>bk_h1 := t1, bk_in := r1\<rparr>"
    have found: "find_backend p (px_source px) = Some b" using Cons.prems(2) by (simp add: bk_at_def)
    from a consider "a1 = []" "a2 = [Handle_response r]" | "a1 = [Handle_response r]" "a2 = []"
      by (auto simp: append_eq_Cons_conv)
    then show ?thesis
    proof cases
      case 1
      have u: "bk_at p (?f b) (update_transport p ?f px)" "px_streams (update_transport p ?f px) = px_streams px"
        "\<forall>q. q \<noteq> p \<longrightarrow> find_backend q (px_source (update_transport p ?f px)) = find_backend q (px_source px)"
        using bk_at_update[OF Cons.prems(2), of ?f] by simp_all
      have "backend_poll_in e garbage p (map Read (x # xs)) io px
          = map_sum id (\<lambda>(log', px'). (log', px')) (backend_poll_in e garbage p (map Read xs) io (update_transport p ?f px))"
        using Cons.prems(3,4) found h Active 1 by auto
      moreover have "\<exists>px'. backend_poll_in e garbage p (map Read xs) io (update_transport p ?f px) = Inr ([Answered s p r], px', io')
          \<and> bk_at p (b\<lparr>bk_handler := None, bk_h1 := t, bk_in := rest\<rparr>) px' \<and> px_streams px' = (px_streams px)(s \<mapsto> c')
          \<and> (\<forall>q. q \<noteq> p \<longrightarrow> find_backend q (px_source px') = find_backend q (px_source px))"
        using Cons.IH[OF _ u(1)] Cons.prems(3-6) rest Active u(2,3) 1 by (simp add: fun_upd_def)
      ultimately show ?thesis by auto
    next
      case 2
      obtain px1 where d: "on_backend_response e garbage io p s r px = Inr (px1, io')" "bk_at p (b\<lparr>bk_handler := None\<rparr>) px1"
        "px_streams px1 = (px_streams px)(s \<mapsto> c')" "\<forall>q. q \<noteq> p \<longrightarrow> find_backend q (px_source px1) = find_backend q (px_source px)"
        using on_backend_response_found[OF Cons.prems(2,5,6) assms(7,8)] by blast
      have u: "bk_at p (?f (b\<lparr>bk_handler := None\<rparr>)) (update_transport p ?f px1)" "px_streams (update_transport p ?f px1) = px_streams px1"
        "\<forall>q. q \<noteq> p \<longrightarrow> find_backend q (px_source (update_transport p ?f px1)) = find_backend q (px_source px)"
        using bk_at_update[OF d(2), of ?f] d(4) by simp_all
      have "backend_poll_in e garbage p (map Read (x # xs)) io px
          = map_sum id (\<lambda>(log', px'). (Answered s p r # log', px'))
              (backend_poll_in e garbage p (map Read xs) io' (update_transport p ?f px1))"
        using Cons.prems(3-5) found h Active 2 d(1) by (auto simp: sum.map_comp comp_def case_prod_beta')
      moreover have "\<exists>px'. backend_poll_in e garbage p (map Read xs) io' (update_transport p ?f px1) = Inr ([], px', io')
          \<and> bk_at p (b\<lparr>bk_handler := None, bk_h1 := t, bk_in := rest\<rparr>) px' \<and> px_streams px' = (px_streams px)(s \<mapsto> c')
          \<and> (\<forall>q. q \<noteq> p \<longrightarrow> find_backend q (px_source px') = find_backend q (px_source px))"
        using backend_silent[OF _ u(1), of e xs t rest garbage io'] Cons.prems(3,4) rest Active 2 u(2,3) d(3) by simp
      ultimately show ?thesis by auto
    qed
  qed
qed (simp add: run_simps)



section \<open>Requests and responses\<close>

text \<open>The transport that \<open>getTransport\<close> will lend: the spare one put back last, or a new one.\<close>

definition available :: "nat \<Rightarrow> nat backend \<Rightarrow> connect_result \<Rightarrow> nat source \<Rightarrow> bool" where
  "available p b r src \<longleftrightarrow>
     (case sp_spare src of
        [] \<Rightarrow> r = Connecting p \<and> p \<notin> live_transports src \<and> b = backend_new
      | x # spare \<Rightarrow> x = (p, b))"

lemma get_transport_available:
  assumes "pool_ok src" "available p b r src"
  shows "\<exists>src'. get_transport s r src = Inr (p, src') \<and> pool_ok src' \<and> find_backend p src' = Some (b\<lparr>bk_handler := Some s\<rparr>)
    \<and> (\<forall>q. q \<noteq> p \<longrightarrow> find_backend q src' = find_backend q src) \<and> sp_spare src' = tl (sp_spare src)
    \<and> live_transports src' = insert p (live_transports src)"
proof -
  have same: "sp_spare src = [] \<Longrightarrow> src\<lparr>sp_spare := []\<rparr> = src" by (cases src) simp
  have free: "sp_in_use src p = None"
    using assms by (auto simp: available_def live_transports_def pool_ok_def split: list.splits)
  define src' where "src' = set_handler p (Some s) (emplace p b (src\<lparr>sp_spare := tl (sp_spare src)\<rparr>))"
  have "get_transport s r src = Inr (p, src')"
    using assms(2) by (cases "sp_spare src") (auto simp: same available_def src'_def get_transport_def has_spare_transports_def spare_transport_def
        new_transport_def split: list.splits)
  moreover have "sp_in_use src' = (sp_in_use src)(p \<mapsto> b\<lparr>bk_handler := Some s\<rparr>)" "sp_spare src' = tl (sp_spare src)"
    using free by (simp_all add: src'_def set_handler_def emplace_def)
  moreover from this have "pool_ok src'" "find_backend p src' = Some (b\<lparr>bk_handler := Some s\<rparr>)"
    "\<forall>q. q \<noteq> p \<longrightarrow> find_backend q src' = find_backend q src" "live_transports src' = insert p (live_transports src)"
    using assms free by (cases "sp_spare src"; auto simp: pool_ok_def available_def find_backend_def live_transports_def
        split: option.splits)+
  ultimately show ?thesis by blast
qed

lemma request_asked:
  assumes "pool_ok (px_source px)" "available p b r (px_source px)"
    "send_message e (request_line (rq_method req) (rq_path req)) (rq_message req) = (acts, Inr ())"
    "perform garbage io acts (bk_out b) = Some (cb, io')"
  shows "\<exists>px'. proxy_event e garbage (Proxied s req r io) px = Inr ([Asked s p], px')
    \<and> bk_at p (b\<lparr>bk_handler := Some s, bk_out := cb\<rparr>) px' \<and> px_streams px' = px_streams px
    \<and> (\<forall>q. q \<noteq> p \<longrightarrow> find_backend q (px_source px') = find_backend q (px_source px))
    \<and> (sp_spare (px_source px) = [] \<longrightarrow> sp_spare (px_source px') = [])
    \<and> live_transports (px_source px') = insert p (live_transports (px_source px))"
proof -
  obtain src where g: "get_transport s r (px_source px) = Inr (p, src)" "pool_ok src"
    "find_backend p src = Some (b\<lparr>bk_handler := Some s\<rparr>)"
    "\<forall>q. q \<noteq> p \<longrightarrow> find_backend q src = find_backend q (px_source px)" "sp_spare src = tl (sp_spare (px_source px))"
    "live_transports src = insert p (live_transports (px_source px))"
    using get_transport_available[OF assms(1,2)] by blast
  let ?f = "\<lambda>b. b\<lparr>bk_out := cb\<rparr>"
  have "live_transports (update_backend p ?f src) = live_transports src"
    by (force simp: live_transports_def update_backend_def image_iff split: if_splits)
  moreover have "proxy_event e garbage (Proxied s req r io) px = Inr ([Asked s p], px\<lparr>px_source := update_backend p ?f src\<rparr>)"
    using g(1,3) assms(3,4) by (simp add: proxy_request_def client_send_request_def)
  moreover have "pool_ok (update_backend p ?f src)" using update_backend_held[OF g(2), of ?f p] by simp
  ultimately show ?thesis
    using g by (simp add: bk_at_def find_update) (simp add: update_backend_def)
qed

text \<open>The response of a backend, as the client transport of the proxy reads it.\<close>

lemma backend_reads_response:
  assumes "env_ok eb" "env_ok e" "clock_ok eb" "plain_response r" "status_line (rs_status r) = Inr line"
  shows "h1_feed e h1_backend (Active h1_new) [] (segments (response_head eb r line) (m_body (rs_message r)))
    = ([Handle_response (received_response eb r)], Inr (Active h1_new, []))"
proof (rule response_handled[OF assms])
  have "parse_status_line line
      = Inr \<lparr>sl_code = rs_status r, sl_reason_phrase = [0xf0, 0x9f, 0x98, 0x8e], sl_version = str ''HTTP/1.1''\<rparr>"
    using status_line_roundtrip[of "rs_status r"] assms(4,5) by (auto simp: plain_response_def)
  then show "hc_handle h1_backend \<lparr>im_first_line = line, im_message = rs_message (received_response eb r)\<rparr>
      = ([Handle_response (received_response eb r)], Inr None)"
    by (simp add: h1_backend_def backend_handle_def run_simps received_response_def)
qed (simp add: h1_backend_def)

lemma segments_not_empty: "head \<noteq> [] \<Longrightarrow> [] \<notin> set (segments head body)"
  by (simp add: segments_def)

lemma response_head_not_empty [simp]: "response_head e r line \<noteq> []"
  by (simp add: response_head_def)

lemma response_answered:
  assumes "env_ok eb" "env_ok e" "clock_ok eb" "plain_response r" "status_line (rs_status r) = Inr line"
    "bk_at p b px" "bk_h1 b = h1_new" "bk_in b = []" "\<not> closed (bk_out b)" "bk_handler b = Some s" "px_streams px s = Some c"
    "send_response e (received_response eb r) = (acts, Inr ())" "perform garbage io acts c = Some (c', io')"
  shows "\<exists>px'. proxy_event e garbage (Backend_ready p (map Read (segments (response_head eb r line) (m_body (rs_message r)))) io) px
      = Inr ([Answered s p (received_response eb r)], px')
    \<and> bk_at p (b\<lparr>bk_handler := None\<rparr>) px' \<and> px_streams px' = (px_streams px)(s \<mapsto> c')
    \<and> (\<forall>q. q \<noteq> p \<longrightarrow> find_backend q (px_source px') = find_backend q (px_source px))"
proof -
  let ?chunks = "segments (response_head eb r line) (m_body (rs_message r))"
  have feed: "h1_feed e h1_backend (Active (bk_h1 b)) (bk_in b) ?chunks
      = ([Handle_response (received_response eb r)], Inr (Active h1_new, []))"
    using backend_reads_response[OF assms(1-5)] assms(7,8) by simp
  have chunks: "[] \<notin> set ?chunks" by (rule segments_not_empty) simp
  have same: "b\<lparr>bk_handler := None, bk_h1 := h1_new, bk_in := []\<rparr> = b\<lparr>bk_handler := None\<rparr>"
    using assms(7,8) by (cases b) simp
  from backend_answers[OF feed assms(6,9) chunks assms(10-13)] show ?thesis
    unfolding same by (elim exE conjE) (simp add: fun_upd_def)
qed

text \<open>Read in one segment, a response with a body is not handed to anybody.\<close>

lemma response_stalls:
  assumes "env_ok eb" "env_ok e" "clock_ok eb" "plain_response r" "status_line (rs_status r) = Inr line"
    "m_body (rs_message r) \<noteq> []" "bk_at p b px" "bk_h1 b = h1_new" "bk_in b = []" "\<not> closed (bk_out b)"
  shows "\<exists>px'. proxy_event e garbage (Backend_ready p [Read (response_head eb r line @ m_body (rs_message r))] io) px = Inr ([], px')
    \<and> px_streams px' = px_streams px"
proof -
  obtain t rest where "h1_on_input e h1_backend (Active h1_new) (response_head eb r line @ m_body (rs_message r))
      = ([], Inr (Active t, rest))"
    using response_in_one_segment(2)[OF assms(1-6), of h1_backend] by (auto simp: h1_backend_def)
  then show ?thesis
    using assms(7-10) by (simp add: bk_at_def update_transport_def)
qed



section \<open>The exchange\<close>

fun proxy_events :: "env \<Rightarrow> octets \<Rightarrow> proxy_input list \<Rightarrow> proxy \<Rightarrow> http_error + proxied list \<times> proxy" where
  "proxy_events e garbage [] px = Inr ([], px)"
| "proxy_events e garbage (ev # evs) px =
     (case proxy_event e garbage ev px of
        Inl err \<Rightarrow> Inl err
      | Inr (log, px) \<Rightarrow> map_sum id (\<lambda>(log', px). (log @ log', px)) (proxy_events e garbage evs px))"

text \<open>A backend that answers with \<open>r\<close>, printed by a server in the environment \<open>eb\<close>: the segments
  its connection reads.\<close>

definition answer_segments :: "env \<Rightarrow> response \<Rightarrow> octets list" where
  "answer_segments eb r =
     (case status_line (rs_status r) of
        Inl err \<Rightarrow> []
      | Inr line \<Rightarrow> segments (response_head eb r line) (m_body (rs_message r)))"

lemma plain_status_line:
  assumes "plain_response r"
  obtains line where "status_line (rs_status r) = Inr line"
    "answer_segments eb r = segments (response_head eb r line) (m_body (rs_message r))"
  using assms status_line_octets[of "rs_status r"] by (auto simp: plain_response_def answer_segments_def)

definition request_calls :: "env \<Rightarrow> request \<Rightarrow> action list" where
  "request_calls e req = fst (send_message e (request_line (rq_method req) (rq_path req)) (rq_message req))"

definition response_calls :: "env \<Rightarrow> response \<Rightarrow> action list" where
  "response_calls e r = fst (send_response e r)"

lemma request_calls_run:
  "send_message e (request_line (rq_method req) (rq_path req)) (rq_message req) = (request_calls e req, Inr ())"
  by (simp add: request_calls_def send_message_def call_def)

lemma request_calls_send: "\<forall>a\<in>set (request_calls e req). sends_something a"
  by (simp add: request_calls_def send_message_def call_def)

lemma response_calls_send: "\<forall>a\<in>set (response_calls e r). sends_something a"
  by (auto simp: response_calls_def send_response_def send_message_def run_simps and_then_def lift_sum_def split: sum.splits)

text \<open>What is sent over a sound socket, and over one that has room.\<close>

lemma sent_sound:
  assumes "conn_ok c" "length garbage = PAYLOAD_CAPACITY" "\<not> closed c" "\<forall>a\<in>set acts. sends_something a"
    "sound_socket (length (calls_octets acts)) io"
  obtains c' io' where "perform garbage io acts c = Some (c', io')" "\<not> closed c'" "accepted c' = accepted c @ calls_octets acts"
    "roomy_socket (length (calls_octets acts)) io \<and> length acts \<le> length io \<and> content (outgoing c) = []
      \<longrightarrow> content (outgoing c') = []"
proof -
  obtain c' io' where c': "perform garbage io acts c = Some (c', io')" "\<not> closed c'" "accepted c' = accepted c @ calls_octets acts"
    using perform_sound[OF assms(1-5)] by auto
  moreover have "content (outgoing c') = []"
    if "roomy_socket (length (calls_octets acts)) io \<and> length acts \<le> length io \<and> content (outgoing c) = []"
    using perform_roomy[OF assms(1-4), of "length (calls_octets acts)" io] that c'(1) by auto
  ultimately show ?thesis using that by blast
qed

lemma response_calls_run:
  assumes "plain_response r"
  shows "send_response e (received_response eb r) = (response_calls e (received_response eb r), Inr ())"
proof -
  obtain line where "status_line (rs_status (received_response eb r)) = Inr line"
    using plain_status_line[OF assms] by (auto simp: received_response_def)
  from response_sent[OF this] show ?thesis by (simp add: response_calls_def)
qed

text \<open>C5: In every history of a proxy, an answer that a backend gives on a transport goes to the stream
  whose request was the last one sent on that transport, and to nobody else: between the two,
  the transport carried nothing for any stream.\<close>

theorem proxy_responses_routed:
  assumes "proxy_run e garbage (before @ Answered s p r # after) px"
  shows "\<exists>earlier between. before = earlier @ Asked s p # between \<and> (\<forall>x\<in>set between. proxied_transport x \<noteq> p)"
  using proxy_run_ok[OF assms] by (rule answer_after_question)

text \<open>C6: A request is relayed: over sockets that neither fail nor close nor have room again right after
  they were full, the request goes, with its method, path, headers and body, to the transport put
  back last or a new one.  When the backend's response reaches the proxy with head and body in
  segments of their own (\<open>answer_segments\<close>), it goes, as it was received, to the connection of the
  stream, and the transport is back in the pool, without a handler.  What a full socket does not
  take is queued; a socket that has room takes all.  When head and body reach the proxy in one
  segment, nothing is sent to anybody.\<close>

theorem proxy_relays:
  assumes "env_ok eb" "env_ok e" "clock_ok eb" "plain_response r" "length garbage = PAYLOAD_CAPACITY"
    "pool_ok (px_source px)" "available p b cr (px_source px)" "bk_h1 b = h1_new" "bk_in b = []" "conn_ok (bk_out b)"
    "\<not> closed (bk_out b)" "sound_socket (length (calls_octets (request_calls e req))) io"
    "px_streams px s = Some c" "conn_ok c" "\<not> closed c"
    "sound_socket (length (calls_octets (response_calls e (received_response eb r)))) io2"
  shows "(\<exists>px' cb c'. proxy_events e garbage [Proxied s req cr io, Backend_ready p (map Read (answer_segments eb r)) io2] px
      = Inr ([Asked s p, Answered s p (received_response eb r)], px')
    \<and> \<not> closed cb \<and> accepted cb = accepted (bk_out b) @ calls_octets (request_calls e req)
    \<and> (roomy_socket (length (calls_octets (request_calls e req))) io \<and> io \<noteq> [] \<and> content (outgoing (bk_out b)) = []
        \<longrightarrow> content (outgoing cb) = [])
    \<and> px_streams px' = (px_streams px)(s \<mapsto> c')
    \<and> \<not> closed c' \<and> accepted c' = accepted c @ calls_octets (response_calls e (received_response eb r))
    \<and> (roomy_socket (length (calls_octets (response_calls e (received_response eb r)))) io2 \<and> io2 \<noteq> [] \<and> content (outgoing c) = []
        \<longrightarrow> content (outgoing c') = [])
    \<and> held (px_source px') p = None \<and> find_backend p (px_source px') = Some (b\<lparr>bk_out := cb, bk_handler := None\<rparr>))
    \<and> (m_body (rs_message r) \<noteq> [] \<longrightarrow> (\<exists>px'. proxy_events e garbage
        [Proxied s req cr io, Backend_ready p [Read (concat (answer_segments eb r))] io2] px = Inr ([Asked s p], px')
      \<and> px_streams px' = px_streams px))"
proof -
  obtain line where l: "status_line (rs_status r) = Inr line"
    "answer_segments eb r = segments (response_head eb r line) (m_body (rs_message r))"
    using plain_status_line[OF assms(4)] .
  obtain cb io' where cb: "perform garbage io (request_calls e req) (bk_out b) = Some (cb, io')" "\<not> closed cb"
    "accepted cb = accepted (bk_out b) @ calls_octets (request_calls e req)"
    "roomy_socket (length (calls_octets (request_calls e req))) io \<and> length (request_calls e req) \<le> length io
      \<and> content (outgoing (bk_out b)) = [] \<longrightarrow> content (outgoing cb) = []"
    using sent_sound[OF assms(10,5,11) request_calls_send assms(12)] .
  obtain c' io2' where c': "perform garbage io2 (response_calls e (received_response eb r)) c = Some (c', io2')" "\<not> closed c'"
    "accepted c' = accepted c @ calls_octets (response_calls e (received_response eb r))"
    "roomy_socket (length (calls_octets (response_calls e (received_response eb r)))) io2
      \<and> length (response_calls e (received_response eb r)) \<le> length io2 \<and> content (outgoing c) = [] \<longrightarrow> content (outgoing c') = []"
    using sent_sound[OF assms(14,5,15) response_calls_send assms(16)] .
  obtain px1 where px1: "proxy_event e garbage (Proxied s req cr io) px = Inr ([Asked s p], px1)"
    "bk_at p (b\<lparr>bk_handler := Some s, bk_out := cb\<rparr>) px1" "px_streams px1 = px_streams px"
    using request_asked[OF assms(6,7) request_calls_run cb(1)] by blast
  obtain px2 where px2: "proxy_event e garbage (Backend_ready p (map Read (answer_segments eb r)) io2) px1
      = Inr ([Answered s p (received_response eb r)], px2)"
    "bk_at p (b\<lparr>bk_out := cb, bk_handler := None\<rparr>) px2" "px_streams px2 = (px_streams px1)(s \<mapsto> c')"
    using response_answered[OF assms(1-4) l(1) px1(2) _ _ _ _ _ response_calls_run[OF assms(4)] c'(1)] assms(8,9,13) cb(2)
    by (auto simp: l(2) px1(3))
  have "held (px_source px2) p = None"
    using px2(2) by (auto simp: bk_at_def held_def find_backend_def split: option.splits)
  moreover have "length (request_calls e req) = 1" by (simp add: request_calls_def send_message_def call_def)
  moreover obtain rline where "status_line (rs_status (received_response eb r)) = Inr rline"
    using plain_status_line[OF assms(4)] by (auto simp: received_response_def)
  then have "length (response_calls e (received_response eb r)) = 1" by (simp only: response_calls_def response_sent) simp
  ultimately have relayed: "\<exists>px' cb c'. proxy_events e garbage [Proxied s req cr io, Backend_ready p (map Read (answer_segments eb r)) io2] px
      = Inr ([Asked s p, Answered s p (received_response eb r)], px')
    \<and> \<not> closed cb \<and> accepted cb = accepted (bk_out b) @ calls_octets (request_calls e req)
    \<and> (roomy_socket (length (calls_octets (request_calls e req))) io \<and> io \<noteq> [] \<and> content (outgoing (bk_out b)) = []
        \<longrightarrow> content (outgoing cb) = [])
    \<and> px_streams px' = (px_streams px)(s \<mapsto> c')
    \<and> \<not> closed c' \<and> accepted c' = accepted c @ calls_octets (response_calls e (received_response eb r))
    \<and> (roomy_socket (length (calls_octets (response_calls e (received_response eb r)))) io2 \<and> io2 \<noteq> [] \<and> content (outgoing c) = []
        \<longrightarrow> content (outgoing c') = [])
    \<and> held (px_source px') p = None \<and> find_backend p (px_source px') = Some (b\<lparr>bk_out := cb, bk_handler := None\<rparr>)"
    using px1 px2 cb c' by (intro exI[of _ px2] exI[of _ cb] exI[of _ c']) (auto simp: bk_at_def Suc_le_eq simp del: proxy_event.simps)
  have "\<exists>px'. proxy_events e garbage
        [Proxied s req cr io, Backend_ready p [Read (concat (answer_segments eb r))] io2] px = Inr ([Asked s p], px')
      \<and> px_streams px' = px_streams px" if "m_body (rs_message r) \<noteq> []"
  proof -
    have "concat (answer_segments eb r) = response_head eb r line @ m_body (rs_message r)"
      using that by (simp add: l(2) segments_def)
    then show ?thesis
      using response_stalls[OF assms(1-4) l(1) that px1(2), of garbage io2] assms(8,9) cb(2) px1(1,3)
      by (auto simp del: proxy_event.simps)
  qed
  with relayed show ?thesis by blast
qed

text \<open>Requests that a client pipelines on one connection are relayed on different transports, and
  answered in the order in which the backends respond: when the second backend is faster, the
  client gets the second response first.\<close>

lemma proxy_reorders_pipeline:
  assumes "env_ok eb" "env_ok e" "clock_ok eb" "plain_response r1" "plain_response r2" "length garbage = PAYLOAD_CAPACITY"
    "pool_ok (px_source px)" "sp_spare (px_source px) = []" "p1 \<notin> live_transports (px_source px)"
    "p2 \<notin> live_transports (px_source px)" "p1 \<noteq> p2"
    "perform garbage io1 (request_calls e req1) conn_new = Some (cb1, io1')" "\<not> closed cb1"
    "perform garbage io2 (request_calls e req2) conn_new = Some (cb2, io2')" "\<not> closed cb2"
    "px_streams px s = Some c" "conn_ok c"
    "perform garbage io3 (response_calls e (received_response eb r2)) c = Some (c', io3')"
    "perform garbage io4 (response_calls e (received_response eb r1)) c' = Some (c'', io4')"
  shows "\<exists>px'. proxy_events e garbage
      [Proxied s req1 (Connecting p1) io1, Proxied s req2 (Connecting p2) io2,
       Backend_ready p2 (map Read (answer_segments eb r2)) io3, Backend_ready p1 (map Read (answer_segments eb r1)) io4] px
      = Inr ([Asked s p1, Asked s p2, Answered s p2 (received_response eb r2), Answered s p1 (received_response eb r1)], px')
    \<and> px_streams px' s = Some c''
    \<and> (closed c'' \<or> accepted c'' = accepted c @ calls_octets (response_calls e (received_response eb r2))
          @ calls_octets (response_calls e (received_response eb r1)))"
proof -
  obtain l1 where l1: "status_line (rs_status r1) = Inr l1"
    "answer_segments eb r1 = segments (response_head eb r1 l1) (m_body (rs_message r1))" using plain_status_line[OF assms(4)] .
  obtain l2 where l2: "status_line (rs_status r2) = Inr l2"
    "answer_segments eb r2 = segments (response_head eb r2 l2) (m_body (rs_message r2))" using plain_status_line[OF assms(5)] .
  let ?b1 = "backend_new\<lparr>bk_handler := Some s, bk_out := cb1\<rparr>" and ?b2 = "backend_new\<lparr>bk_handler := Some s, bk_out := cb2\<rparr>"
  have new: "bk_out backend_new = conn_new" "bk_h1 backend_new = h1_new" "bk_in backend_new = []"
    by (simp_all add: backend_new_def)
  have a1: "available p1 backend_new (Connecting p1) (px_source px)" using assms(8,9) by (simp add: available_def)
  obtain px1 where px1: "proxy_event e garbage (Proxied s req1 (Connecting p1) io1) px = Inr ([Asked s p1], px1)"
    "bk_at p1 ?b1 px1" "px_streams px1 = px_streams px" "sp_spare (px_source px1) = []"
    "live_transports (px_source px1) = insert p1 (live_transports (px_source px))"
    using request_asked[OF assms(7) a1 request_calls_run[of e req1], where garbage = garbage and io = io1 and cb = cb1 and io' = io1' and s = s] assms(8,12) by (auto simp: new)
  have a2: "available p2 backend_new (Connecting p2) (px_source px1)" using px1(4,5) assms(10,11) by (simp add: available_def)
  have "pool_ok (px_source px1)" using px1(2) by (simp add: bk_at_def)
  from request_asked[OF this a2 request_calls_run[of e req2], where garbage = garbage and io = io2 and cb = cb2 and io' = io2' and s = s] assms(14)
  obtain px2 where px2: "proxy_event e garbage (Proxied s req2 (Connecting p2) io2) px1 = Inr ([Asked s p2], px2)"
    "bk_at p2 ?b2 px2" "px_streams px2 = px_streams px" "find_backend p1 (px_source px2) = Some ?b1"
    using px1(2,3) assms(11) by (auto simp: new bk_at_def)
  obtain px3 where px3: "proxy_event e garbage (Backend_ready p2 (map Read (answer_segments eb r2)) io3) px2
      = Inr ([Answered s p2 (received_response eb r2)], px3)"
    "bk_at p2 (?b2\<lparr>bk_handler := None\<rparr>) px3" "px_streams px3 = (px_streams px2)(s \<mapsto> c')" "find_backend p1 (px_source px3) = Some ?b1"
    using response_answered[OF assms(1-3,5) l2(1) px2(2) _ _ _ _ _ response_calls_run[OF assms(5)] assms(18)]
      assms(11,15,16) px2(3,4) by (auto simp: l2(2) new)
  have b1: "bk_at p1 ?b1 px3" using px3(2,4) by (simp add: bk_at_def)
  obtain px4 where px4: "proxy_event e garbage (Backend_ready p1 (map Read (answer_segments eb r1)) io4) px3
      = Inr ([Answered s p1 (received_response eb r1)], px4)" "px_streams px4 = (px_streams px3)(s \<mapsto> c'')"
    using response_answered[OF assms(1-4) l1(1) b1 _ _ _ _ _ response_calls_run[OF assms(4)] assms(19)]
      assms(13) px3(3) by (auto simp: l1(2) new)
  have first: "sends_to c c' (calls_octets (response_calls e (received_response eb r2)))" by (rule perform_sends[OF assms(17,6,18)])
  have "sends_to c' c'' (calls_octets (response_calls e (received_response eb r1)))"
    using first by (intro perform_sends[OF _ assms(6,19)]) (simp add: sends_to_def)
  from sends_to_trans[OF first this] show ?thesis
    using px1(1) px2(1) px3(1) px4 by (auto simp: sends_to_def simp del: proxy_event.simps)
qed




section \<open>Connections the backend has closed\<close>

text \<open>Sending on a closed connection reaches nobody, and is not noticed.\<close>

lemma conn_send_closed:
  assumes "closed c"
  shows "\<exists>c'. conn_send io data c = Some (c', io) \<and> closed c' \<and> wire c' = wire c"
proof -
  have "sys_send c' asked io = (Failed, io)" if "closed c'" for c' asked using that by (simp add: sys_send.simps)
  then have loops: "send_loop io data 0 c = Some (Failed, 0, c, io)"
    "\<And>c'. closed c' \<Longrightarrow> poll_out_loop io c' = (Failed, c', io)"
    using assms by (simp_all add: send_loop.simps[of io data] poll_out_loop.simps[of io])
  show ?thesis
    using assms by (simp add: conn_send_def send_immediate_def queue_and_send_def on_poll_out_def loops
        conn_close_def update_subscription_def)
qed

lemma conn_send_pieces_closed:
  assumes "closed c"
  shows "\<exists>c'. conn_send_pieces io garbage pieces c = Some (c', io) \<and> closed c' \<and> wire c' = wire c"
proof -
  define p where "p = fold pl_write pieces (payload_on garbage (outgoing c))"
  have "closed (c\<lparr>outgoing := target p\<rparr>)" using assms by simp
  from conn_send_closed[OF this, of io "take (pl_len p) (pl_data p)"] show ?thesis
    by (simp add: conn_send_pieces_def Let_def flip: p_def)
qed

lemma request_to_closed:
  assumes "closed c"
  shows "\<exists>c'. perform garbage io (request_calls e req) c = Some (c', io) \<and> closed c' \<and> wire c' = wire c"
proof -
  have "\<exists>c'. perform garbage io [Send_payload pieces] c = Some (c', io) \<and> closed c' \<and> wire c' = wire c" for pieces
    using conn_send_pieces_closed[OF assms, of io garbage pieces] by auto
  then show ?thesis unfolding request_calls_def send_message_def call_def fst_conv .
qed

text \<open>C36: The pool does not notice that a backend has closed an idle connection: the next request gets
  that connection, its octets go nowhere, no exception is raised and no event will ever come, so
  the client waits for ever and the transport is never returned.\<close>

theorem proxy_stale_backend:
  assumes "pool_ok (px_source px)" "sp_spare (px_source px) = (p, b) # spare"
  shows "\<exists>px'. proxy_events e garbage [Backend_ready p [Read []] io1, Proxied s req r io2] px = Inr ([Asked s p], px')
    \<and> px_streams px' = px_streams px \<and> held (px_source px') p = Some s
    \<and> (\<exists>b'. find_backend p (px_source px') = Some b' \<and> wire (bk_out b') = wire (bk_out b))
    \<and> (\<forall>reads io. proxy_event e garbage (Backend_ready p reads io) px' = Inr ([], px'))"
proof -
  have "sp_in_use (px_source px) p = None" using assms by (auto simp: pool_ok_def)
  then have b: "bk_at p b px" using assms by (simp add: bk_at_def find_backend_def)
  let ?close = "\<lambda>b. b\<lparr>bk_out := conn_close (bk_out b)\<rparr>"
  obtain b1 px1 where e1: "proxy_event e garbage (Backend_ready p [Read []] io1) px = Inr ([], px1)"
    and b1: "bk_at p b1 px1" "closed (bk_out b1)" "wire (bk_out b1) = wire (bk_out b)"
    and s1: "px_streams px1 = px_streams px" "\<exists>spare. sp_spare (px_source px1) = (p, b1) # spare"
  proof (cases "closed (bk_out b)")
    case True
    then show ?thesis using that[of px b] b assms(2) by (simp add: bk_at_def)
  next
    case False
    have "sp_spare (px_source (update_transport p ?close px)) = (p, ?close b) # map (\<lambda>(q, b). (q, if q = p then ?close b else b)) spare"
      using assms(2) by (simp add: update_transport_def update_backend_def)
    then show ?thesis
      using that[of "update_transport p ?close px" "?close b"] b bk_at_update(1,2)[OF b, of ?close] False
      by (simp add: bk_at_def conn_close_def)
  qed
  then have "available p b1 r (px_source px1)" "pool_ok (px_source px1)" by (auto simp: available_def bk_at_def)
  moreover obtain c where c: "perform garbage io2 (request_calls e req) (bk_out b1) = Some (c, io2)" "closed c" "wire c = wire (bk_out b)"
    using request_to_closed[OF b1(2)] b1(3) by metis
  ultimately obtain px2 where px2: "proxy_event e garbage (Proxied s req r io2) px1 = Inr ([Asked s p], px2)"
    "bk_at p (b1\<lparr>bk_handler := Some s, bk_out := c\<rparr>) px2" "px_streams px2 = px_streams px1"
    using request_asked[OF _ _ request_calls_run[of e req]] by blast
  have "held (px_source px2) p = Some s" using held_in_use[OF px2(2)] by (simp add: held_def)
  moreover have "proxy_event e garbage (Backend_ready p reads io) px2 = Inr ([], px2)" for reads io
    using px2(2) c(2) by (cases reads) (simp_all add: bk_at_def)
  ultimately show ?thesis
    using e1 px2 s1(1) c(3) by (simp add: bk_at_def del: proxy_event.simps)
qed


section \<open>A proxy at work\<close>

text \<open>A socket that is not writable yet: everything is queued.\<close>

lemma conn_send_waiting:
  assumes "\<not> closed c"
  shows "\<exists>c'. conn_send [] data c = Some (c', []) \<and> \<not> closed c'"
  using assms by (auto simp: conn_send_def send_immediate_def send_loop.simps[of "[]"] queue_and_send_def on_poll_out_def
      poll_out_loop.simps[of "[]"] sys_send.simps update_subscription_def)

lemma payload_waiting:
  assumes "\<not> closed c"
  shows "\<exists>c'. perform garbage [] [Send_payload pieces] c = Some (c', []) \<and> \<not> closed c'"
proof -
  define p where "p = fold pl_write pieces (payload_on garbage (outgoing c))"
  have "\<not> closed (c\<lparr>outgoing := target p\<rparr>)" using assms by simp
  from conn_send_waiting[OF this, of "take (pl_len p) (pl_data p)"] show ?thesis
    by (auto simp: conn_send_pieces_def Let_def simp flip: p_def)
qed

lemma request_waiting: "\<not> closed c \<Longrightarrow> \<exists>c'. perform garbage [] (request_calls e req) c = Some (c', []) \<and> \<not> closed c'"
  unfolding request_calls_def send_message_def call_def fst_conv by (rule payload_waiting)

lemma response_waiting:
  assumes "\<not> closed c" "plain_response r"
  shows "\<exists>c'. perform garbage [] (response_calls e (received_response eb r)) c = Some (c', []) \<and> \<not> closed c'"
proof -
  obtain line where "status_line (rs_status (received_response eb r)) = Inr line"
    using plain_status_line[OF assms(2)] by (auto simp: received_response_def)
  then show ?thesis using payload_waiting[OF assms(1)] by (simp only: response_calls_def response_sent fst_conv)
qed

definition one_stream :: proxy where
  "one_stream = proxy_new\<lparr>px_streams := [3 \<mapsto> conn_new]\<rparr>"

definition hi :: response where
  "hi = response_new 200 (str ''hi'')"

lemma new_simps [simp]:
  "sp_spare source_new = []" "sp_in_use source_new = Map.empty" "\<not> closed conn_new" "conn_ok conn_new"
  "bk_out backend_new = conn_new" "bk_h1 backend_new = h1_new" "bk_in backend_new = []"
  by (simp_all add: source_new_def backend_new_def conn_ok_def) (simp_all add: conn_new_def)

lemma one_stream_simps [simp]:
  "px_source one_stream = source_new" "px_streams one_stream 3 = Some conn_new" "live_transports source_new = {}"
  "available p b (Connecting p) source_new \<longleftrightarrow> b = backend_new"
  by (simp_all add: one_stream_def proxy_new_def available_def live_transports_def)

lemma example_facts [simp]: "plain_response hi"
  by (simp add: hi_def plain_response_hi)

lemma request_queued:
  obtains cb where "perform garbage [] (request_calls e req) conn_new = Some (cb, [])" "\<not> closed cb"
  using request_waiting[of conn_new garbage e req] by auto

lemma response_queued:
  assumes "\<not> closed c"
  obtains c' where "perform garbage [] (response_calls e (received_response eb hi)) c = Some (c', [])" "\<not> closed c'"
  using response_waiting[OF assms, of hi garbage e eb] by auto

lemma example_exchange:
  fixes e garbage
  defines "e \<equiv> plain_env []" and "garbage \<equiv> replicate PAYLOAD_CAPACITY 0"
  shows "\<exists>px1 px2. proxy_event e garbage (Proxied 3 plain_request (Connecting 7) []) one_stream = Inr ([Asked 3 7], px1)
    \<and> proxy_event e garbage (Backend_ready 7 (map Read (answer_segments e hi)) []) px1 = Inr ([Answered 3 7 (received_response e hi)], px2)"
proof -
  obtain cb where cb: "perform garbage [] (request_calls e plain_request) (bk_out (backend_new :: nat backend)) = Some (cb, [])" "\<not> closed cb"
    unfolding new_simps by (rule request_queued)
  obtain c' where c': "perform garbage [] (response_calls e (received_response e hi)) conn_new = Some (c', [])"
    by (rule response_queued[of conn_new]) simp
  obtain line where l: "status_line (rs_status hi) = Inr line"
    "answer_segments e hi = segments (response_head e hi line) (m_body (rs_message hi))"
    using plain_status_line[of hi] by auto
  obtain px1 where px1: "proxy_event e garbage (Proxied 3 plain_request (Connecting 7) []) one_stream = Inr ([Asked 3 7], px1)"
    "bk_at 7 (backend_new\<lparr>bk_handler := Some 3, bk_out := cb\<rparr>) px1" "px_streams px1 = px_streams one_stream"
    using request_asked[OF _ _ request_calls_run cb(1), of one_stream 7 "Connecting 7" 3] pool_ok_new by auto
  have e: "env_ok e" "clock_ok e" by (simp_all add: e_def plain_env_ok plain_env_clock)
  show ?thesis
    using response_answered[OF e(1,1,2) _ l(1) px1(2) _ _ _ _ _ response_calls_run c'] px1(1,3) cb(2) by (auto simp: l(2))
qed

theorem proxy_responses_routed_witness:
  "\<exists>px. proxy_run (plain_env []) (replicate PAYLOAD_CAPACITY 0) ([Asked 3 7] @ Answered 3 7 (received_response (plain_env []) hi) # []) px
    \<and> (\<exists>earlier between. [Asked 3 7] = earlier @ Asked 3 7 # between \<and> (\<forall>x\<in>set between. proxied_transport x \<noteq> 7))"
proof -
  let ?e = "plain_env []" and ?g = "replicate PAYLOAD_CAPACITY 0 :: octets"
  obtain px1 px2 where px: "proxy_event ?e ?g (Proxied 3 plain_request (Connecting 7) []) one_stream = Inr ([Asked 3 7], px1)"
    "proxy_event ?e ?g (Backend_ready 7 (map Read (answer_segments ?e hi)) []) px1
      = Inr ([Answered 3 7 (received_response ?e hi)], px2)"
    using example_exchange by blast
  have opened: "proxy_run ?e ?g [] one_stream"
    using run_event[OF run_start, of "Stream_opened 3 conn_new"] by (simp add: one_stream_def proxy_new_def)
  have asked: "proxy_run ?e ?g [Asked 3 7] px1"
    using run_event[OF opened _ px(1)] by (simp add: fresh_result_def)
  have "proxy_run ?e ?g ([Asked 3 7] @ Answered 3 7 (received_response ?e hi) # []) px2"
    using run_event[OF asked _ px(2)] by simp
  with proxy_responses_routed[OF this] show ?thesis by blast
qed

theorem proxy_relays_witness:
  "\<exists>px' c' px''. proxy_events (plain_env []) (replicate PAYLOAD_CAPACITY 0) [Proxied 3 plain_request (Connecting 7) [],
      Backend_ready 7 (map Read (answer_segments (plain_env []) hi))
        [Sent (Suc (length (calls_octets (response_calls (plain_env []) (received_response (plain_env []) hi)))))]] one_stream
    = Inr ([Asked 3 7, Answered 3 7 (received_response (plain_env []) hi)], px')
    \<and> px_streams px' 3 = Some c' \<and> wire c' = calls_octets (response_calls (plain_env []) (received_response (plain_env []) hi))
    \<and> proxy_events (plain_env []) (replicate PAYLOAD_CAPACITY 0) [Proxied 3 plain_request (Connecting 7) [],
        Backend_ready 7 [Read (concat (answer_segments (plain_env []) hi))]
        [Sent (Suc (length (calls_octets (response_calls (plain_env []) (received_response (plain_env []) hi)))))]] one_stream
      = Inr ([Asked 3 7], px'')"
proof -
  let ?e = "plain_env []" and ?g = "replicate PAYLOAD_CAPACITY 0 :: octets"
  let ?N = "length (calls_octets (response_calls ?e (received_response ?e hi)))"
  have sound: "sound_socket M []" "sound_socket ?N [Sent (Suc ?N)]" for M by (simp_all add: sound_socket_def)
  have roomy: "roomy_socket ?N [Sent (Suc ?N)]" by (simp add: roomy_socket_def)
  have new: "accepted conn_new = []" "content (outgoing conn_new) = []" by (simp_all add: accepted_def conn_new_def)
  have body: "m_body (rs_message hi) \<noteq> []" by (simp add: hi_def response_new_def str_def)
  have start: "length ?g = PAYLOAD_CAPACITY" "pool_ok (px_source one_stream)"
    "available 7 backend_new (Connecting 7) (px_source one_stream)" "bk_h1 (backend_new :: nat backend) = h1_new"
    "bk_in (backend_new :: nat backend) = []" "conn_ok (bk_out (backend_new :: nat backend))" "\<not> closed (bk_out (backend_new :: nat backend))"
    "px_streams one_stream 3 = Some conn_new" "conn_ok conn_new" "\<not> closed conn_new"
    using pool_ok_new by simp_all
  note relays = proxy_relays[where eb = ?e and e = ?e and req = plain_request, OF plain_env_ok plain_env_ok plain_env_clock
      example_facts start(1-7) sound(1) start(8-10) sound(2)]
  obtain px' cb c' where "proxy_events ?e ?g [Proxied 3 plain_request (Connecting 7) [],
      Backend_ready 7 (map Read (answer_segments ?e hi)) [Sent (Suc ?N)]] one_stream
      = Inr ([Asked 3 7, Answered 3 7 (received_response ?e hi)], px')"
    "px_streams px' = (px_streams one_stream)(3 \<mapsto> c')"
    "accepted c' = accepted conn_new @ calls_octets (response_calls ?e (received_response ?e hi))"
    "roomy_socket ?N [Sent (Suc ?N)] \<and> [Sent (Suc ?N)] \<noteq> [] \<and> content (outgoing conn_new) = [] \<longrightarrow> content (outgoing c') = []"
    using relays by blast
  then have "\<exists>px' c'. proxy_events ?e ?g [Proxied 3 plain_request (Connecting 7) [],
      Backend_ready 7 (map Read (answer_segments ?e hi)) [Sent (Suc ?N)]] one_stream
      = Inr ([Asked 3 7, Answered 3 7 (received_response ?e hi)], px')
    \<and> px_streams px' 3 = Some c' \<and> wire c' = calls_octets (response_calls ?e (received_response ?e hi))"
    using roomy new by (intro exI[of _ px'] exI[of _ c']) (simp add: accepted_def del: proxy_events.simps)
  moreover note conjunct2[OF relays, rule_format, OF body]
  ultimately show ?thesis by blast
qed

lemma proxy_reorders_pipeline_witness:
  "\<exists>px' c. proxy_events (plain_env []) (replicate PAYLOAD_CAPACITY 0) [Proxied 3 plain_request (Connecting 7) [], Proxied 3 plain_request (Connecting 8) [],
      Backend_ready 8 (map Read (answer_segments (plain_env []) hi)) [], Backend_ready 7 (map Read (answer_segments (plain_env []) hi)) []] one_stream
    = Inr ([Asked 3 7, Asked 3 8, Answered 3 8 (received_response (plain_env []) hi), Answered 3 7 (received_response (plain_env []) hi)], px')
    \<and> px_streams px' 3 = Some c"
proof -
  let ?e = "plain_env []" and ?g = "replicate PAYLOAD_CAPACITY 0 :: octets"
  obtain cb where cb: "perform ?g [] (request_calls ?e plain_request) conn_new = Some (cb, [])" "\<not> closed cb"
    by (rule request_queued)
  obtain c' where c': "perform ?g [] (response_calls ?e (received_response ?e hi)) conn_new = Some (c', [])" "\<not> closed c'"
    by (rule response_queued[of conn_new]) simp
  obtain c'' where c'': "perform ?g [] (response_calls ?e (received_response ?e hi)) c' = Some (c'', [])"
    by (rule response_queued[OF c'(2)])
  show ?thesis
    using proxy_reorders_pipeline[of ?e ?e hi hi ?g one_stream 7 8 "[]" plain_request cb "[]" "[]" plain_request cb "[]" 3 conn_new
        "[]" c' "[]" "[]" c'' "[]"]
      plain_env_ok plain_env_clock pool_ok_new cb c' c''
    by (auto simp del: proxy_events.simps)
qed


definition one_spare :: proxy where
  "one_spare = one_stream\<lparr>px_source := \<lparr>sp_spare = [(7, backend_new)], sp_in_use = Map.empty\<rparr>\<rparr>"

lemma one_spare_ok: "pool_ok (px_source one_spare)" "sp_spare (px_source one_spare) = [(7, backend_new)]"
  "find_backend 7 (px_source one_spare) = Some backend_new"
  by (simp_all add: one_spare_def pool_ok_def find_backend_def) (simp add: backend_new_def)


theorem proxy_stale_backend_witness:
  "\<exists>px'. proxy_events (plain_env []) [] [Backend_ready 7 [Read []] [], Proxied 3 plain_request Socket_failed [Sent 10]] one_spare
    = Inr ([Asked 3 7], px') \<and> held (px_source px') 7 = Some 3"
  using proxy_stale_backend[OF one_spare_ok(1,2)] by blast

end
