(* ===== verification/Server_Setup.thy ===== *)
theory Server_Setup
  imports Server_Core
begin

text \<open>
  The life of a server around its event loop: \<open>src/ServerConfig.h\<close>, \<open>src/SignalSource.cpp\<close>,
  \<open>src/SignalReceiver.cpp\<close>, and the construction, set-up and destruction of \<open>src/Server.cpp\<close>.

  The state of the process is the record \<open>process\<close>: its open descriptors, the static \<open>write_fd\<close>, the
  dispositions of signals and the octets in pipes.  It survives exceptions, so an operation is a
  \<open>'a proc\<close>: the exception or result beside the new state.  The kernel's answers are the record \<open>os\<close>.
  Descriptors are C \<open>int\<close>s.  An exception in a constructor destroys the members that are complete,
  and not the object itself.
\<close>

section \<open>Configuration\<close>

record server_config =
  bind_ports :: "u16 list"

definition default_ports :: "u16 list" where
  "default_ports = [80, 8080]"

definition server_config_new :: server_config where
  "server_config_new = \<lparr>bind_ports = default_ports\<rparr>"

definition set_bind_port :: "u16 \<Rightarrow> server_config \<Rightarrow> server_config" where
  "set_bind_port port c = c\<lparr>bind_ports := [] @ [port]\<rparr>"

definition set_bind_ports :: "u16 list \<Rightarrow> server_config \<Rightarrow> server_config" where
  "set_bind_ports ports c = c\<lparr>bind_ports := ports\<rparr>"

definition view_bind_ports :: "server_config \<Rightarrow> u16 list" where
  "view_bind_ports c = bind_ports c"


section \<open>The process\<close>

datatype disposition = Not_ours nat | Write_to_pipe

record process =
  pr_open :: "int set"
  pr_write_fd :: int
  pr_disposition :: "u32 \<Rightarrow> disposition"
  pr_pipe :: "int \<Rightarrow> octets"
  pr_peer :: "int \<Rightarrow> int option"

record os =
  os_pipe :: "(int \<times> int) option"
  os_signal :: bool
  os_epoll_create :: "int option"
  os_epoll_add :: "int \<Rightarrow> bool"
  os_socket :: "int option"
  os_bind :: "u16 \<Rightarrow> bool"
  os_listen :: bool

type_synonym 'a proc = "process \<Rightarrow> (http_error + 'a) \<times> process"

definition ok :: "'a \<Rightarrow> 'a proc" where
  "ok x pr = (Inr x, pr)"

definition fail :: "http_error \<Rightarrow> 'a proc" where
  "fail err pr = (Inl err, pr)"

definition proc_then :: "'a proc \<Rightarrow> ('a \<Rightarrow> 'b proc) \<Rightarrow> 'b proc" where
  "proc_then m f pr = (case m pr of (Inl err, pr) \<Rightarrow> (Inl err, pr) | (Inr x, pr) \<Rightarrow> f x pr)"

text \<open>What a complete member's destructor does when the rest of a constructor throws.\<close>

definition proc_guard :: "unit proc \<Rightarrow> 'a proc \<Rightarrow> 'a proc" where
  "proc_guard destroy m pr = (case m pr of (Inl err, pr) \<Rightarrow> (Inl err, snd (destroy pr)) | (Inr x, pr) \<Rightarrow> (Inr x, pr))"

definition change :: "(process \<Rightarrow> process) \<Rightarrow> unit proc" where
  "change f pr = (Inr (), f pr)"

lemmas proc_defs = ok_def fail_def proc_then_def proc_guard_def change_def

definition open_fd :: "int \<Rightarrow> process \<Rightarrow> process" where
  "open_fd fd pr = pr\<lparr>pr_open := insert fd (pr_open pr)\<rparr>"

definition close_fd :: "int \<Rightarrow> process \<Rightarrow> process" where
  "close_fd fd pr = pr\<lparr>pr_open := pr_open pr - {fd}\<rparr>"


section \<open>Signals\<close>

definition set_fd :: "int \<Rightarrow> unit proc" where
  "set_fd fd pr = (if pr_write_fd pr \<noteq> - 1 \<and> fd \<noteq> - 1 then fail E_runtime pr else change (\<lambda>pr. pr\<lparr>pr_write_fd := fd\<rparr>) pr)"

definition clear_fd :: "unit proc" where
  "clear_fd = change (\<lambda>pr. pr\<lparr>pr_write_fd := - 1\<rparr>)"

record signal_source =
  ss_signum :: u32
  ss_prev_handler :: disposition
  ss_read_pipe :: int
  ss_write_pipe :: int

definition setup_pipe :: "os \<Rightarrow> signal_source \<Rightarrow> signal_source proc" where
  "setup_pipe os ss =
     (case os_pipe os of
        None \<Rightarrow> fail E_runtime
      | Some (r, w) \<Rightarrow>
          proc_then (change (\<lambda>pr. (open_fd w (open_fd r pr))\<lparr>pr_pipe := (pr_pipe pr)(r := []), pr_peer := (pr_peer pr)(w \<mapsto> r)\<rparr>)) (\<lambda>_.
            proc_then (set_fd w) (\<lambda>_. ok (ss\<lparr>ss_read_pipe := r, ss_write_pipe := w\<rparr>))))"

definition setup_signal_handler :: "os \<Rightarrow> signal_source \<Rightarrow> signal_source proc" where
  "setup_signal_handler os ss pr =
     (if os_signal os
      then (Inr (ss\<lparr>ss_prev_handler := pr_disposition pr (ss_signum ss)\<rparr>),
            pr\<lparr>pr_disposition := (pr_disposition pr)(ss_signum ss := Write_to_pipe)\<rparr>)
      else fail E_runtime pr)"

definition signal_source_new :: "os \<Rightarrow> u32 \<Rightarrow> signal_source proc" where
  "signal_source_new os signum =
     proc_then (setup_pipe os \<lparr>ss_signum = signum, ss_prev_handler = Not_ours 0, ss_read_pipe = - 1, ss_write_pipe = - 1\<rparr>)
       (setup_signal_handler os)"

definition remove_signal_handler :: "signal_source \<Rightarrow> unit proc" where
  "remove_signal_handler ss =
     change (\<lambda>pr. pr\<lparr>pr_disposition := (pr_disposition pr)(ss_signum ss := ss_prev_handler ss)\<rparr>)"

definition close_pipe :: "signal_source \<Rightarrow> unit proc" where
  "close_pipe ss = proc_then clear_fd (\<lambda>_. change (close_fd (ss_read_pipe ss) \<circ> close_fd (ss_write_pipe ss)))"

definition signal_source_delete :: "signal_source \<Rightarrow> unit proc" where
  "signal_source_delete ss = proc_then (remove_signal_handler ss) (\<lambda>_. close_pipe ss)"

text \<open>The octets of an \<open>int\<close>, in the order of a little-endian machine.\<close>

definition int_octets :: "u32 \<Rightarrow> octets" where
  "int_octets n = map (\<lambda>i. ucast (drop_bit (8 * i) n)) [0..<4]"

definition octets_int :: "octets \<Rightarrow> u32" where
  "octets_int bs = foldr (\<lambda>b n. push_bit 8 n OR ucast b) bs 0"

text \<open>The handler of the signal: a write that fails aborts the process (\<open>None\<close>).\<close>

definition handle_signal :: "u32 \<Rightarrow> process \<Rightarrow> process option" where
  "handle_signal sig pr =
     (if pr_write_fd pr \<in> pr_open pr
      then map_option (\<lambda>r. pr\<lparr>pr_pipe := (pr_pipe pr)(r := pr_pipe pr r @ int_octets sig)\<rparr>) (pr_peer pr (pr_write_fd pr))
      else None)"

text \<open>\<open>SignalReceiver::onPollIn\<close> on a readable pipe: the number of the signal, which goes to the action.\<close>

definition signal_on_poll_in :: "signal_source \<Rightarrow> u32 proc" where
  "signal_on_poll_in ss pr =
     (let r = ss_read_pipe ss;
          bs = take 4 (pr_pipe pr r);
          pr = pr\<lparr>pr_pipe := (pr_pipe pr)(r := drop 4 (pr_pipe pr r))\<rparr>
      in if length bs \<noteq> 4 then fail E_runtime pr else ok (octets_int bs) pr)"


section \<open>The server object\<close>

definition SIGINT :: u32 where "SIGINT = 2"

record server_impl =
  im_epfd :: int
  im_listenfd :: int
  im_loop :: server
  im_signal :: signal_source

definition add_event_receiver :: "os \<Rightarrow> int \<Rightarrow> unit proc" where
  "add_event_receiver os fd = (if os_epoll_add os fd then ok () else fail E_runtime)"

definition server_impl_new :: "os \<Rightarrow> server_impl proc" where
  "server_impl_new os =
     proc_then (signal_source_new os SIGINT) (\<lambda>ss.
       proc_guard (signal_source_delete ss)
         (case os_epoll_create os of
            None \<Rightarrow> fail E_runtime
          | Some epfd \<Rightarrow>
              proc_then (change (open_fd epfd)) (\<lambda>_.
                proc_then (add_event_receiver os (ss_read_pipe ss)) (\<lambda>_.
                  ok \<lparr>im_epfd = epfd, im_listenfd = - 1, im_loop = server_new, im_signal = ss\<rparr>))))"

definition server_impl_delete :: "server_impl \<Rightarrow> unit proc" where
  "server_impl_delete im =
     proc_then (change (close_fd (im_listenfd im) \<circ> close_fd (im_epfd im))) (\<lambda>_. signal_source_delete (im_signal im))"

text \<open>\<open>bind\<close>: the ports in turn, until one is free; the address family takes them in network order.\<close>

fun bind_loop :: "(u16 \<Rightarrow> bool) \<Rightarrow> u16 list \<Rightarrow> http_error + u16" where
  "bind_loop free [] = Inl E_runtime"
| "bind_loop free (port # ports) = (if free port then Inr port else bind_loop free ports)"

definition server_bind :: "os \<Rightarrow> server_config \<Rightarrow> http_error + u16" where
  "server_bind os c =
     (let try_ports = view_bind_ports c;
          try_ports = (if try_ports = [] then [0] else try_ports)
      in bind_loop (os_bind os) try_ports)"

text \<open>\<open>setup\<close>: the object with its listening descriptor, and the port. \<open>TCP_DEFER_ACCEPT\<close> may fail.\<close>

definition server_setup :: "os \<Rightarrow> server_config \<Rightarrow> server_impl \<Rightarrow> server_impl \<times> (u16 proc)" where
  "server_setup os c im =
     (case os_socket os of
        None \<Rightarrow> (im\<lparr>im_listenfd := - 1\<rparr>, fail E_runtime)
      | Some fd \<Rightarrow>
          (im\<lparr>im_listenfd := fd\<rparr>,
           proc_then (change (open_fd fd)) (\<lambda>_.
             proc_then (Pair (server_bind os c)) (\<lambda>port.
               proc_then (if os_listen os then ok () else fail E_runtime) (\<lambda>_.
                 proc_then (add_event_receiver os fd) (\<lambda>_. ok port))))))"


section \<open>Construction and destruction\<close>

text \<open>What the kernel promises of new descriptors.\<close>

definition os_ok :: "os \<Rightarrow> process \<Rightarrow> bool" where
  "os_ok os pr \<longleftrightarrow> - 1 \<notin> pr_open pr \<and>
     (\<forall>r w. os_pipe os = Some (r, w) \<longrightarrow> r \<noteq> w \<and> r \<notin> pr_open pr \<and> w \<notin> pr_open pr \<and> 0 \<le> r \<and> 0 \<le> w \<and>
        (\<forall>fd. os_epoll_create os = Some fd \<longrightarrow> fd \<noteq> r \<and> fd \<noteq> w \<and> fd \<notin> pr_open pr \<and> 0 \<le> fd))"

lemma signal_source_new_ok:
  assumes "os_pipe os = Some (r, w)" "pr_write_fd pr = - 1" "os_signal os"
  shows "signal_source_new os signum pr =
    (Inr \<lparr>ss_signum = signum, ss_prev_handler = pr_disposition pr signum, ss_read_pipe = r, ss_write_pipe = w\<rparr>,
     pr\<lparr>pr_open := insert w (insert r (pr_open pr)), pr_write_fd := w, pr_disposition := (pr_disposition pr)(signum := Write_to_pipe),
        pr_pipe := (pr_pipe pr)(r := []), pr_peer := (pr_peer pr)(w \<mapsto> r)\<rparr>)"
  using assms by (simp add: signal_source_new_def setup_pipe_def setup_signal_handler_def set_fd_def open_fd_def proc_defs)

lemma server_impl_new_ok:
  assumes "os_pipe os = Some (r, w)" "pr_write_fd pr = - 1" "os_signal os" "os_epoll_create os = Some epfd" "os_epoll_add os r"
  shows "server_impl_new os pr =
    (Inr \<lparr>im_epfd = epfd, im_listenfd = - 1, im_loop = server_new,
       im_signal = \<lparr>ss_signum = SIGINT, ss_prev_handler = pr_disposition pr SIGINT, ss_read_pipe = r, ss_write_pipe = w\<rparr>\<rparr>,
     pr\<lparr>pr_open := insert epfd (insert w (insert r (pr_open pr))), pr_write_fd := w,
        pr_disposition := (pr_disposition pr)(SIGINT := Write_to_pipe),
        pr_pipe := (pr_pipe pr)(r := []), pr_peer := (pr_peer pr)(w \<mapsto> r)\<rparr>)"
  using assms signal_source_new_ok[OF assms(1-3), of SIGINT]
  by (simp add: server_impl_new_def proc_then_def)
    (simp add: proc_defs open_fd_def add_event_receiver_def)

text \<open>A server that is constructed and destroyed leaves the process as it was: no descriptor stays
  open, the signal has its old disposition, and the next server can be constructed.  In between,
  SIGINT is written to the pipe.\<close>

lemma server_lifecycle:
  assumes "os_ok os pr" "os_pipe os = Some (r, w)" "os_epoll_create os = Some epfd" "os_signal os" "os_epoll_add os r"
    "pr_write_fd pr = - 1"
  shows "\<exists>im pr1 pr2. server_impl_new os pr = (Inr im, pr1) \<and> server_impl_delete im pr1 = (Inr (), pr2)
    \<and> pr_disposition pr1 SIGINT = Write_to_pipe \<and> pr_write_fd pr1 = w \<and> pr_open pr1 = pr_open pr \<union> {r, w, epfd}
    \<and> pr_open pr2 = pr_open pr \<and> pr_write_fd pr2 = - 1 \<and> pr_disposition pr2 = pr_disposition pr"
  using assms
  by (auto simp: server_impl_new_ok[OF assms(2,6,4,3,5)] server_impl_delete_def signal_source_delete_def remove_signal_handler_def
      close_pipe_def clear_fd_def proc_defs close_fd_def os_ok_def)

lemma server_lifecycle_witness:
  "let os = \<lparr>os_pipe = Some (3, 4), os_signal = True, os_epoll_create = Some 5, os_epoll_add = (\<lambda>_. True), os_socket = Some 6,
     os_bind = (\<lambda>p. p = 8080), os_listen = True\<rparr>;
     pr = \<lparr>pr_open = {0, 1, 2}, pr_write_fd = - 1, pr_disposition = (\<lambda>_. Not_ours 0), pr_pipe = (\<lambda>_. []), pr_peer = Map.empty\<rparr>
   in \<exists>im pr1 pr2. server_impl_new os pr = (Inr im, pr1) \<and> server_impl_delete im pr1 = (Inr (), pr2)
    \<and> pr_disposition pr1 SIGINT = Write_to_pipe \<and> pr_write_fd pr1 = 4 \<and> pr_open pr1 = pr_open pr \<union> {3, 4, 5}
    \<and> pr_open pr2 = pr_open pr \<and> pr_write_fd pr2 = - 1 \<and> pr_disposition pr2 = pr_disposition pr"
  unfolding Let_def by (rule server_lifecycle) (simp_all add: os_ok_def)

text \<open>A second server in the same process is refused with an exception, and its two pipe descriptors
  leak: the destructor of an object whose constructor throws is not run.  The first server keeps
  its signals.\<close>

lemma second_server_refused:
  assumes "pr_write_fd pr \<noteq> - 1" "os_pipe os = Some (r, w)" "0 \<le> w"
  shows "\<exists>pr'. server_impl_new os pr = (Inl E_runtime, pr') \<and> pr_open pr' = pr_open pr \<union> {r, w}
    \<and> pr_write_fd pr' = pr_write_fd pr \<and> pr_disposition pr' = pr_disposition pr"
  using assms
  by (auto simp: server_impl_new_def signal_source_new_def setup_pipe_def set_fd_def open_fd_def proc_defs)

lemma second_server_refused_witness:
  "let os = \<lparr>os_pipe = Some (7, 8), os_signal = True, os_epoll_create = Some 9, os_epoll_add = (\<lambda>_. True), os_socket = Some 10,
     os_bind = (\<lambda>p. p = 8080), os_listen = True\<rparr>;
     pr = \<lparr>pr_open = {3, 4, 5}, pr_write_fd = 4, pr_disposition = (\<lambda>_. Write_to_pipe), pr_pipe = (\<lambda>_. []), pr_peer = [4 \<mapsto> 3]\<rparr>
   in \<exists>pr'. server_impl_new os pr = (Inl E_runtime, pr') \<and> pr_open pr' = pr_open pr \<union> {7, 8}
    \<and> pr_write_fd pr' = pr_write_fd pr \<and> pr_disposition pr' = pr_disposition pr"
  unfolding Let_def by (rule second_server_refused) simp_all

lemma bind_loop_find: "bind_loop free ports = (case find free ports of None \<Rightarrow> Inl E_runtime | Some port \<Rightarrow> Inr port)"
  by (induction ports) simp_all

text \<open>\<open>setup\<close> takes the first port of the configuration that can be bound (any free port if the
  configuration is empty), and throws when none can, or when the socket cannot be made, put to
  listening or watched.\<close>

lemma server_listens:
  "fst (snd (server_setup os c im) pr) =
     (case os_socket os of
        None \<Rightarrow> Inl E_runtime
      | Some fd \<Rightarrow>
          (case find (os_bind os) (if bind_ports c = [] then [0] else bind_ports c) of
             None \<Rightarrow> Inl E_runtime
           | Some port \<Rightarrow> if os_listen os \<and> os_epoll_add os fd then Inr port else Inl E_runtime))"
  by (simp add: server_setup_def server_bind_def bind_loop_find view_bind_ports_def add_event_receiver_def proc_defs
      split: option.splits)


section \<open>Stopping\<close>

lemma octets_int_octets: "octets_int (int_octets n) = n"
  by (rule bit_word_eqI)
    (auto simp: octets_int_def int_octets_def upt_rec bit_simps not_less intro: ccontr)

lemma length_int_octets [simp]: "length (int_octets n) = 4"
  by (simp add: int_octets_def)

text \<open>The number of a signal travels through the pipe.\<close>

lemma signal_received:
  assumes "pr_write_fd pr \<in> pr_open pr" "pr_peer pr (pr_write_fd pr) = Some (ss_read_pipe ss)" "pr_pipe pr (ss_read_pipe ss) = []"
  shows "\<exists>pr1 pr2. handle_signal sig pr = Some pr1 \<and> signal_on_poll_in ss pr1 = (Inr sig, pr2) \<and> pr_pipe pr2 (ss_read_pipe ss) = []"
  using assms by (simp add: handle_signal_def signal_on_poll_in_def ok_def octets_int_octets)

lemma server_event_stopped: "server_event e garbage ev sv = Inr sv' \<Longrightarrow> \<not> sv_running sv \<Longrightarrow> \<not> sv_running sv'"
  by (cases ev) (auto simp: put_client_def Let_def split: if_splits sum.splits option.splits prod.splits)

lemma server_events_stopped:
  "server_events e garbage evs sv = Inr sv' \<Longrightarrow> \<not> sv_running sv \<or> Signalled \<in> set evs \<Longrightarrow> \<not> sv_running sv'"
proof (induction evs arbitrary: sv)
  case (Cons ev evs)
  obtain sv1 where sv1: "server_event e garbage ev sv = Inr sv1" "server_events e garbage evs sv1 = Inr sv'"
    using Cons.prems(1) by (auto split: sum.splits)
  have "\<not> sv_running sv1 \<or> Signalled \<in> set evs"
    using Cons.prems(2) sv1(1) server_event_stopped[OF sv1(1)] by auto
  then show ?case by (rule Cons.IH[OF sv1(2)])
qed simp

text \<open>SIGINT stops the server: the handler writes the signal's number into the pipe, the receiver
  reads it back, and the batch of events that tells of it is the last one the loop takes: then
  every connection is destroyed.\<close>

lemma sigint_stops_server:
  assumes "os_ok os pr" "os_pipe os = Some (r, w)" "os_epoll_create os = Some epfd" "os_signal os" "os_epoll_add os r"
    "pr_write_fd pr = - 1" "Signalled \<in> set evs" "sv_running sv" "server_batch e garbage evs sv = Inr sv1"
  shows "\<exists>im pr1 pr2 pr3. server_impl_new os pr = (Inr im, pr1)
    \<and> pr_disposition pr1 SIGINT = Write_to_pipe \<and> handle_signal SIGINT pr1 = Some pr2
    \<and> signal_on_poll_in (im_signal im) pr2 = (Inr SIGINT, pr3)
    \<and> server_loop e garbage (Events evs # waits) sv = Inr (cleanup sv1) \<and> sv_clients (cleanup sv1) = Map.empty"
proof -
  obtain sv0 where sv0: "server_events e garbage evs sv = Inr sv0" "sv1 = remove_dead_clients (sv_remove sv0) sv0"
    using assms(9) by (cases "server_events e garbage evs sv") (auto simp: server_batch_def)
  then have "\<not> sv_running sv1" using server_events_stopped[OF sv0(1)] assms(7) by (simp add: remove_dead_clients_eq)
  then have "server_loop e garbage (Events evs # waits) sv = Inr (cleanup sv1)" using assms(8,9) by simp
  then show ?thesis
    using assms(2) by (simp add: server_impl_new_ok[OF assms(2,6,4,3,5)] handle_signal_def signal_on_poll_in_def ok_def
        octets_int_octets cleanup_def)
qed

lemma sigint_stops_server_witness:
  "let os = \<lparr>os_pipe = Some (3, 4), os_signal = True, os_epoll_create = Some 5, os_epoll_add = (\<lambda>_. True), os_socket = Some 6,
     os_bind = (\<lambda>p. p = 8080), os_listen = True\<rparr>;
     pr = \<lparr>pr_open = {0, 1, 2}, pr_write_fd = - 1, pr_disposition = (\<lambda>_. Not_ours 0), pr_pipe = (\<lambda>_. []), pr_peer = Map.empty\<rparr>;
     sv1 = server_new\<lparr>sv_running := False\<rparr>
   in \<exists>im pr1 pr2 pr3. server_impl_new os pr = (Inr im, pr1)
    \<and> pr_disposition pr1 SIGINT = Write_to_pipe \<and> handle_signal SIGINT pr1 = Some pr2
    \<and> signal_on_poll_in (im_signal im) pr2 = (Inr SIGINT, pr3)
    \<and> server_loop (plain_env []) [] (Events [Signalled] # [Wait_failed]) server_new = Inr (cleanup sv1)
    \<and> sv_clients (cleanup sv1) = Map.empty"
  unfolding Let_def by (rule sigint_stops_server) (simp_all add: os_ok_def server_batch_def server_new_def)

end
