(* ===== verification/Server_Life.thy ===== *)
theory Server_Life
  imports Server_Setup
begin

text \<open>
  \<open>Server::run\<close> of \<open>src/Server.cpp\<close> with the descriptors: the loop of \<open>Server_Core\<close> over the process of
  \<open>Server_Setup\<close>.  What happens to the process comes as a list of occurrences: SIGINT is delivered,
  or \<open>epoll_wait\<close> returns.  The members of the server outlive an exception, and its destructor
  needs them: the result is how the run ended, the object and the process.  After an exception of
  a handler the clients in the object are those of the last complete batch.

  The descriptor of a client is opened by \<open>accept4\<close> and closed by \<open>remove_dead_clients\<close>.  A
  connection that is destroyed only hands its descriptor to the queue of \<open>remove_dead_clients\<close>.
\<close>

section \<open>The run\<close>

fun impl_event :: "env \<Rightarrow> octets \<Rightarrow> event \<Rightarrow> server_impl \<Rightarrow> server_impl proc" where
  "impl_event e garbage (Accepted fd reads io) im =
     proc_then (change (open_fd (int fd))) (\<lambda>_.
       proc_then (Pair (server_event e garbage (Accepted fd reads io) (im_loop im))) (\<lambda>sv. ok (im\<lparr>im_loop := sv\<rparr>)))"
| "impl_event e garbage (Client_ready fd writable readable reads io) im =
     proc_then (Pair (server_event e garbage (Client_ready fd writable readable reads io) (im_loop im)))
       (\<lambda>sv. ok (im\<lparr>im_loop := sv\<rparr>))"
| "impl_event e garbage Signalled im =
     proc_then (signal_on_poll_in (im_signal im)) (\<lambda>signum.
       proc_then (Pair (server_event e garbage Signalled (im_loop im))) (\<lambda>sv. ok (im\<lparr>im_loop := sv\<rparr>)))"

fun impl_events :: "env \<Rightarrow> octets \<Rightarrow> event list \<Rightarrow> server_impl \<Rightarrow> server_impl proc" where
  "impl_events e garbage [] im = ok im"
| "impl_events e garbage (ev # evs) im = proc_then (impl_event e garbage ev im) (impl_events e garbage evs)"

definition impl_remove_dead_clients :: "server_impl \<Rightarrow> process \<Rightarrow> server_impl \<times> process" where
  "impl_remove_dead_clients im pr =
     (im\<lparr>im_loop := remove_dead_clients (sv_remove (im_loop im)) (im_loop im)\<rparr>,
      fold (\<lambda>fd. close_fd (int fd)) (sv_remove (im_loop im)) pr)"

definition impl_cleanup :: "server_impl \<Rightarrow> process \<Rightarrow> server_impl \<times> process" where
  "impl_cleanup im pr =
     (im\<lparr>im_listenfd := - 1, im_loop := cleanup (im_loop im)\<rparr>, close_fd (im_listenfd im) pr)"

datatype occurrence = Interrupt | Wait wait_result

datatype run_end = Waiting | Ended | Threw http_error | Aborted

fun impl_loop :: "env \<Rightarrow> octets \<Rightarrow> occurrence list \<Rightarrow> server_impl \<Rightarrow> process \<Rightarrow> run_end \<times> server_impl \<times> process" where
  "impl_loop e garbage occs im pr =
     (if \<not> sv_running (im_loop im) then (Ended, impl_cleanup im pr)
      else (case occs of
              [] \<Rightarrow> (Waiting, im, pr)
            | Interrupt # occs \<Rightarrow>
                (case handle_signal SIGINT pr of
                   None \<Rightarrow> (Aborted, im, pr)
                 | Some pr \<Rightarrow> impl_loop e garbage occs im pr)
            | Wait r # occs \<Rightarrow>
                (case r of
                   Wait_failed \<Rightarrow> (Threw E_runtime, impl_cleanup im pr)
                 | Interrupted \<Rightarrow> (case impl_remove_dead_clients im pr of (im, pr) \<Rightarrow> impl_loop e garbage occs im pr)
                 | Events evs \<Rightarrow>
                     (case impl_events e garbage evs im pr of
                        (Inl err, pr) \<Rightarrow> (Threw err, im, pr)
                      | (Inr im, pr) \<Rightarrow>
                          (case impl_remove_dead_clients im pr of (im, pr) \<Rightarrow> impl_loop e garbage occs im pr)))))"

declare impl_loop.simps [simp del]

definition server_run ::
  "env \<Rightarrow> octets \<Rightarrow> os \<Rightarrow> server_config \<Rightarrow> occurrence list \<Rightarrow> server_impl \<Rightarrow> process \<Rightarrow> run_end \<times> server_impl \<times> process" where
  "server_run e garbage os c occs im pr =
     (case server_setup os c im of (im, listening) \<Rightarrow>
        (case listening pr of
           (Inl err, pr) \<Rightarrow> (Threw err, im, pr)
         | (Inr port, pr) \<Rightarrow> impl_loop e garbage occs im pr))"


section \<open>The loop of the server is the one without descriptors\<close>

lemma impl_loop_simps [simp]:
  "\<not> sv_running (im_loop im) \<Longrightarrow> impl_loop e garbage occs im pr = (Ended, impl_cleanup im pr)"
  "sv_running (im_loop im) \<Longrightarrow> impl_loop e garbage [] im pr = (Waiting, im, pr)"
  "sv_running (im_loop im) \<Longrightarrow> impl_loop e garbage (Interrupt # occs) im pr =
     (case handle_signal SIGINT pr of None \<Rightarrow> (Aborted, im, pr) | Some pr \<Rightarrow> impl_loop e garbage occs im pr)"
  "sv_running (im_loop im) \<Longrightarrow> impl_loop e garbage (Wait Wait_failed # occs) im pr = (Threw E_runtime, impl_cleanup im pr)"
  "sv_running (im_loop im) \<Longrightarrow> impl_loop e garbage (Wait Interrupted # occs) im pr =
     (case impl_remove_dead_clients im pr of (im, pr) \<Rightarrow> impl_loop e garbage occs im pr)"
  "sv_running (im_loop im) \<Longrightarrow> impl_loop e garbage (Wait (Events evs) # occs) im pr =
     (case impl_events e garbage evs im pr of
        (Inl err, pr) \<Rightarrow> (Threw err, im, pr)
      | (Inr im, pr) \<Rightarrow> (case impl_remove_dead_clients im pr of (im, pr) \<Rightarrow> impl_loop e garbage occs im pr))"
  by (subst impl_loop.simps, simp)+

lemma impl_event_loop:
  "impl_event e garbage ev im pr = (Inr im', pr') \<Longrightarrow> server_event e garbage ev (im_loop im) = Inr (im_loop im')"
  by (cases ev) (auto simp: proc_defs simp del: server_event.simps split: sum.splits prod.splits)

lemma impl_events_loop:
  "impl_events e garbage evs im pr = (Inr im', pr') \<Longrightarrow> server_events e garbage evs (im_loop im) = Inr (im_loop im')"
proof (induction evs arbitrary: im pr)
  case (Cons ev evs)
  then obtain im1 pr1 where "impl_event e garbage ev im pr = (Inr im1, pr1)" "impl_events e garbage evs im1 pr1 = (Inr im', pr')"
    by (auto simp: proc_then_def split: sum.splits prod.splits)
  then show ?case using Cons.IH impl_event_loop by fastforce
qed (simp add: ok_def)

fun wait_of :: "occurrence \<Rightarrow> wait_result list" where
  "wait_of Interrupt = []"
| "wait_of (Wait r) = [r]"

lemma impl_loop_refines:
  "impl_loop e garbage occs im pr = (how, im', pr') \<Longrightarrow> how = Waiting \<or> how = Ended \<Longrightarrow>
    server_loop e garbage (concat (map wait_of occs)) (im_loop im) = Inr (im_loop im')"
proof (induction occs arbitrary: im pr)
  case Nil
  then show ?case by (cases "sv_running (im_loop im)") (auto simp: impl_cleanup_def)
next
  case (Cons occ occs)
  show ?case
  proof (cases "sv_running (im_loop im)")
    case False
    then show ?thesis using Cons.prems by (auto simp: impl_cleanup_def)
  next
    case running: True
    show ?thesis
    proof (cases occ)
      case Interrupt
      then show ?thesis using Cons running by (auto split: option.splits)
    next
      case (Wait r)
      then show ?thesis
        using Cons running
        by (cases r) (fastforce simp: impl_remove_dead_clients_def server_batch_def dest: impl_events_loop
            split: sum.splits prod.splits)+
    qed
  qed
qed


section \<open>The descriptors of the process\<close>

text \<open>
  Beside the descriptors in \<open>base\<close>, exactly those of clients are open; a signal finds its way into the
  pipe.
\<close>

definition pipe_ok :: "int set \<Rightarrow> server_impl \<Rightarrow> process \<Rightarrow> bool" where
  "pipe_ok base im pr \<longleftrightarrow> pr_write_fd pr \<in> base \<and> pr_peer pr (pr_write_fd pr) = Some (ss_read_pipe (im_signal im))"

definition fds_ok :: "int set \<Rightarrow> server_impl \<Rightarrow> process \<Rightarrow> bool" where
  "fds_ok base im pr \<longleftrightarrow>
     pr_open pr = base \<union> int ` dom (sv_clients (im_loop im)) \<and> base \<inter> int ` dom (sv_clients (im_loop im)) = {}
     \<and> set (sv_remove (im_loop im)) \<subseteq> dom (sv_clients (im_loop im)) \<and> pipe_ok base im pr"

text \<open>What the loop leaves alone.\<close>

definition same_frame :: "server_impl \<Rightarrow> process \<Rightarrow> server_impl \<Rightarrow> process \<Rightarrow> bool" where
  "same_frame im pr im' pr' \<longleftrightarrow>
     im_epfd im' = im_epfd im \<and> im_listenfd im' = im_listenfd im \<and> im_signal im' = im_signal im
     \<and> pr_disposition pr' = pr_disposition pr \<and> pr_write_fd pr' = pr_write_fd pr \<and> pr_peer pr' = pr_peer pr"

lemma same_frame_refl [simp]: "same_frame im pr im pr"
  by (simp add: same_frame_def)

lemma same_frame_trans: "same_frame im pr im1 pr1 \<Longrightarrow> same_frame im1 pr1 im2 pr2 \<Longrightarrow> same_frame im pr im2 pr2"
  by (simp add: same_frame_def)

lemma server_event_dom:
  assumes "server_event e garbage ev sv = Inr sv'"
  shows "dom (sv_clients sv') = (case ev of Accepted fd reads io \<Rightarrow> insert fd (dom (sv_clients sv)) | _ \<Rightarrow> dom (sv_clients sv))"
    "set (sv_remove sv) \<subseteq> dom (sv_clients sv) \<Longrightarrow> set (sv_remove sv') \<subseteq> dom (sv_clients sv')"
  using assms by (cases ev; auto simp: put_client_def Let_def split: if_splits sum.splits option.splits prod.splits)+

text \<open>The kernel gives a new client a descriptor that is not open.\<close>

definition accept_fresh :: "event \<Rightarrow> process \<Rightarrow> bool" where
  "accept_fresh ev pr \<longleftrightarrow> (case ev of Accepted fd reads io \<Rightarrow> int fd \<notin> pr_open pr | _ \<Rightarrow> True)"

lemma impl_event_effect:
  assumes "impl_event e garbage ev im pr = (Inr im', pr')"
  shows "same_frame im pr im' pr'"
    "pr_open pr' = (case ev of Accepted fd reads io \<Rightarrow> insert (int fd) (pr_open pr) | _ \<Rightarrow> pr_open pr)"
  using assms
  by (cases ev; auto simp: proc_defs open_fd_def same_frame_def signal_on_poll_in_def Let_def
      simp del: server_event.simps split: sum.splits prod.splits if_splits)+

lemma impl_event_fds:
  assumes "impl_event e garbage ev im pr = (Inr im', pr')" "fds_ok base im pr" "accept_fresh ev pr"
  shows "fds_ok base im' pr' \<and> same_frame im pr im' pr'"
proof -
  note effect = impl_event_effect[OF assms(1)] server_event_dom[OF impl_event_loop[OF assms(1)]]
  have "pipe_ok base im' pr'" using assms(2) effect(1) by (auto simp: fds_ok_def pipe_ok_def same_frame_def)
  then show ?thesis
    using assms(2,3) effect unfolding fds_ok_def accept_fresh_def
    by (cases ev) (simp_all only: event.case image_insert Un_insert_right; blast)+
qed

text \<open>A batch, and what is closed behind it.\<close>

fun accepts_fresh :: "env \<Rightarrow> octets \<Rightarrow> event list \<Rightarrow> server_impl \<Rightarrow> process \<Rightarrow> bool" where
  "accepts_fresh e garbage [] im pr \<longleftrightarrow> True"
| "accepts_fresh e garbage (ev # evs) im pr \<longleftrightarrow> accept_fresh ev pr
     \<and> (case impl_event e garbage ev im pr of (Inr im, pr) \<Rightarrow> accepts_fresh e garbage evs im pr | _ \<Rightarrow> True)"

lemma impl_events_fds:
  "impl_events e garbage evs im pr = (Inr im', pr') \<Longrightarrow> fds_ok base im pr \<Longrightarrow> accepts_fresh e garbage evs im pr
    \<Longrightarrow> fds_ok base im' pr' \<and> same_frame im pr im' pr'"
proof (induction evs arbitrary: im pr)
  case (Cons ev evs)
  then obtain im1 pr1 where ev: "impl_event e garbage ev im pr = (Inr im1, pr1)"
    and evs: "impl_events e garbage evs im1 pr1 = (Inr im', pr')"
    by (auto simp: proc_then_def split: sum.splits prod.splits)
  have fds: "fds_ok base im1 pr1" "same_frame im pr im1 pr1" "accepts_fresh e garbage evs im1 pr1"
    using impl_event_fds[OF ev] Cons.prems ev by auto
  then show ?case using Cons.IH[OF evs] same_frame_trans by blast
qed (simp add: ok_def)

lemma remove_dead_clients_dom:
  "dom (sv_clients (remove_dead_clients fds sv)) = dom (sv_clients sv) - set fds"
  "sv_remove (remove_dead_clients fds sv) = []"
  by (induction fds arbitrary: sv) auto

lemma close_fds:
  "pr_open (fold (\<lambda>fd. close_fd (int fd)) fds pr) = pr_open pr - int ` set fds"
  "pr_write_fd (fold (\<lambda>fd. close_fd (int fd)) fds pr) = pr_write_fd pr"
  "pr_disposition (fold (\<lambda>fd. close_fd (int fd)) fds pr) = pr_disposition pr"
  "pr_peer (fold (\<lambda>fd. close_fd (int fd)) fds pr) = pr_peer pr"
  "pr_pipe (fold (\<lambda>fd. close_fd (int fd)) fds pr) = pr_pipe pr"
  by (induction fds arbitrary: pr) (auto simp: close_fd_def)

lemma Un_minus: "A \<inter> B = {} \<Longrightarrow> C \<subseteq> B \<Longrightarrow> (A \<union> B) - C = A \<union> (B - C)"
  by blast

lemma Int_minus: "A \<inter> B = {} \<Longrightarrow> A \<inter> (B - C) = {}"
  by blast

lemma impl_remove_dead_clients_fds:
  assumes "impl_remove_dead_clients im pr = (im', pr')" "fds_ok base im pr"
  shows "fds_ok base im' pr' \<and> same_frame im pr im' pr' \<and> sv_remove (im_loop im') = []"
proof -
  have pipe: "pipe_ok base im' pr'" "same_frame im pr im' pr'"
    using assms by (auto simp: impl_remove_dead_clients_def fds_ok_def pipe_ok_def same_frame_def close_fds)
  let ?D = "dom (sv_clients (im_loop im))" and ?R = "set (sv_remove (im_loop im))"
  have "im' = im\<lparr>im_loop := remove_dead_clients (sv_remove (im_loop im)) (im_loop im)\<rparr>"
    "pr' = fold (\<lambda>fd. close_fd (int fd)) (sv_remove (im_loop im)) pr"
    using assms(1) by (simp_all add: impl_remove_dead_clients_def)
  then have parts: "pr_open pr' = (base \<union> int ` ?D) - int ` ?R" "base \<inter> int ` ?D = {}" "?R \<subseteq> ?D"
    "dom (sv_clients (im_loop im')) = ?D - ?R" "sv_remove (im_loop im') = []"
    using assms(2) by (simp_all add: fds_ok_def remove_dead_clients_dom close_fds)
  have image: "int ` (?D - ?R) = int ` ?D - int ` ?R" by (rule image_set_diff) simp
  have "pr_open pr' = base \<union> int ` (?D - ?R)"
    unfolding parts(1) image by (rule Un_minus) (use parts in \<open>simp_all add: image_mono\<close>)
  moreover have "base \<inter> int ` (?D - ?R) = {}" unfolding image by (rule Int_minus) (rule parts(2))
  ultimately show ?thesis using pipe parts(4,5) unfolding fds_ok_def by simp
qed

text \<open>A run.\<close>

fun kernel_ok :: "env \<Rightarrow> octets \<Rightarrow> occurrence list \<Rightarrow> server_impl \<Rightarrow> process \<Rightarrow> bool" where
  "kernel_ok e garbage [] im pr \<longleftrightarrow> True"
| "kernel_ok e garbage (occ # occs) im pr \<longleftrightarrow>
     (case occ of Wait (Events evs) \<Rightarrow> accepts_fresh e garbage evs im pr | _ \<Rightarrow> True)
     \<and> (case impl_loop e garbage [occ] im pr of
          (Waiting, im, pr) \<Rightarrow> kernel_ok e garbage occs im pr
        | _ \<Rightarrow> True)"

abbreviation idle :: "server_impl \<Rightarrow> bool" where
  "idle im \<equiv> sv_remove (im_loop im) = []"

definition go_on :: "(server_impl \<Rightarrow> process \<Rightarrow> run_end \<times> server_impl \<times> process) \<Rightarrow>
  run_end \<times> server_impl \<times> process \<Rightarrow> run_end \<times> server_impl \<times> process" where
  "go_on f result = (case result of (how, im, pr) \<Rightarrow> if how = Waiting then f im pr else result)"

lemma go_on_simps [simp]:
  "go_on f (Waiting, im, pr) = f im pr"
  "how \<noteq> Waiting \<Longrightarrow> go_on f (how, rest) = (how, rest)"
  by (simp_all add: go_on_def split: prod.split)

lemma go_on_nothing [simp]: "go_on (impl_loop e garbage occs) (impl_loop e garbage [] im pr) = impl_loop e garbage occs im pr"
  by (cases "sv_running (im_loop im)") simp_all

lemma impl_loop_Cons: "impl_loop e garbage (occ # occs) im pr = go_on (impl_loop e garbage occs) (impl_loop e garbage [occ] im pr)"
proof (cases "sv_running (im_loop im)")
  case True
  show ?thesis
  proof (cases occ)
    case Interrupt
    then show ?thesis using True by (auto split: option.split)
  next
    case (Wait r)
    then show ?thesis using True by (cases r) (auto split: sum.split prod.split)
  qed
qed simp

lemma go_on_go_on: "go_on f (go_on g result) = go_on (\<lambda>im pr. go_on f (g im pr)) result"
  by (cases result) (simp add: go_on_def)

lemma impl_loop_append:
  "impl_loop e garbage (occs @ more_occs) im pr = go_on (impl_loop e garbage more_occs) (impl_loop e garbage occs im pr)"
proof (induction occs arbitrary: im pr)
  case (Cons occ occs)
  have "impl_loop e garbage ((occ # occs) @ more_occs) im pr
      = go_on (impl_loop e garbage (occs @ more_occs)) (impl_loop e garbage [occ] im pr)"
    using impl_loop_Cons[of e garbage occ "occs @ more_occs"] by simp
  also have "\<dots> = go_on (impl_loop e garbage more_occs) (impl_loop e garbage (occ # occs) im pr)"
    unfolding impl_loop_Cons[of e garbage occ occs] go_on_go_on Cons.IH ..
  finally show ?case .
qed simp

lemma handle_signal_fds:
  assumes "handle_signal sig pr = Some pr'" "fds_ok base im pr"
  shows "fds_ok base im pr' \<and> same_frame im pr im pr'"
proof -
  obtain r where "pr' = pr\<lparr>pr_pipe := (pr_pipe pr)(r := pr_pipe pr r @ int_octets sig)\<rparr>"
    using assms(1) by (auto simp: handle_signal_def split: if_splits)
  then show ?thesis using assms(2) by (simp add: fds_ok_def pipe_ok_def same_frame_def)
qed

lemma impl_step_fds:
  assumes "impl_loop e garbage [occ] im pr = (Waiting, im', pr')" "fds_ok base im pr"
    "case occ of Wait (Events evs) \<Rightarrow> accepts_fresh e garbage evs im pr | _ \<Rightarrow> True"
  shows "fds_ok base im' pr' \<and> same_frame im pr im' pr' \<and> (idle im \<longrightarrow> idle im')"
proof -
  have run: "sv_running (im_loop im)" using assms(1) by (cases "sv_running (im_loop im)") simp_all
  have stop: "im1 = im' \<and> pr1 = pr'" if "impl_loop e garbage [] im1 pr1 = (Waiting, im', pr')" for im1 pr1
    using that by (cases "sv_running (im_loop im1)") simp_all
  show ?thesis
  proof (cases occ)
    case Interrupt
    then show ?thesis using assms run handle_signal_fds stop by (fastforce split: option.splits)
  next
    case (Wait r)
    show ?thesis
    proof (cases r)
      case (Events evs)
      then obtain im1 pr1 where b: "impl_events e garbage evs im pr = (Inr im1, pr1)"
        "impl_remove_dead_clients im1 pr1 = (im', pr')"
        using assms(1) run Wait stop by (auto split: sum.splits prod.splits)
      have "fds_ok base im1 pr1" "same_frame im pr im1 pr1"
        using impl_events_fds[OF b(1) assms(2)] assms(3) Wait Events by auto
      then show ?thesis using impl_remove_dead_clients_fds[OF b(2)] same_frame_trans by blast
    next
      case Interrupted
      then have "impl_remove_dead_clients im pr = (im', pr')"
        using assms(1) run Wait stop by (auto split: prod.splits)
      then show ?thesis using impl_remove_dead_clients_fds assms(2) by blast
    qed (use assms(1) run Wait in simp)
  qed
qed

lemma impl_loop_fds:
  "impl_loop e garbage occs im pr = (Waiting, im', pr') \<Longrightarrow> fds_ok base im pr \<Longrightarrow> kernel_ok e garbage occs im pr
    \<Longrightarrow> fds_ok base im' pr' \<and> same_frame im pr im' pr' \<and> (idle im \<longrightarrow> idle im')"
proof (induction occs arbitrary: im pr)
  case Nil
  then show ?case by (cases "sv_running (im_loop im)") simp_all
next
  case (Cons occ occs)
  obtain im1 pr1 where step: "impl_loop e garbage [occ] im pr = (Waiting, im1, pr1)"
    and rest: "impl_loop e garbage occs im1 pr1 = (Waiting, im', pr')"
    using Cons.prems(1) by (subst (asm) impl_loop_Cons) (auto simp: go_on_def split: prod.splits if_splits)
  have "fds_ok base im1 pr1 \<and> same_frame im pr im1 pr1 \<and> (idle im \<longrightarrow> idle im1)"
    using impl_step_fds[OF step Cons.prems(2)] Cons.prems(3) by simp
  moreover have "kernel_ok e garbage occs im1 pr1" using Cons.prems(3) step by simp
  ultimately show ?case using Cons.IH[OF rest] same_frame_trans by blast
qed


section \<open>The end of a run\<close>

text \<open>A signal while the loop waits: the next batch reads it from the pipe.\<close>

lemma interrupt_ends:
  assumes "fds_ok base im pr" "sv_running (im_loop im)" "idle im"
  shows "\<exists>pr'. impl_loop e garbage [Interrupt, Wait (Events [Signalled])] im pr
    = (Ended, im\<lparr>im_listenfd := - 1, im_loop := cleanup ((im_loop im)\<lparr>sv_running := False, sv_remove := []\<rparr>)\<rparr>, pr')
    \<and> pr_open pr' = pr_open pr - {im_listenfd im} \<and> pr_disposition pr' = pr_disposition pr \<and> pr_write_fd pr' = pr_write_fd pr"
  using assms
  by (simp add: handle_signal_def fds_ok_def pipe_ok_def proc_defs signal_on_poll_in_def Let_def impl_remove_dead_clients_def
      impl_cleanup_def close_fd_def)

lemma impl_loop_running: "impl_loop e garbage occs im pr = (Waiting, im', pr') \<Longrightarrow> sv_running (im_loop im')"
proof (induction occs arbitrary: im pr)
  case Nil
  then show ?case by (cases "sv_running (im_loop im)") simp_all
next
  case (Cons occ occs)
  show ?case
    using Cons.prems by (subst (asm) impl_loop_Cons) (auto simp: go_on_def split: prod.splits if_splits dest: Cons.IH)
qed

lemma outer_descriptors:
  assumes "opened = insert a (insert b (insert c (insert d base))) \<union> clients"
    "insert a (insert b (insert c (insert d base))) \<inter> clients = {}"
    "a \<notin> base" "b \<notin> base" "c \<notin> base" "d \<notin> base" "(x::int) \<notin> base" "x \<notin> clients"
  shows "opened - {a} - {b} - {x} - {c} - {d} = base \<union> clients"
  using assms by blast

lemma proc_then_Inr: "proc_then m f pr = (Inr x, pr') \<longleftrightarrow> (\<exists>y pr1. m pr = (Inr y, pr1) \<and> f y pr1 = (Inr x, pr'))"
  by (auto simp: proc_then_def split: sum.split prod.split)

lemma proc_guard_Inr: "proc_guard destroy m pr = (Inr x, pr') \<longleftrightarrow> m pr = (Inr x, pr')"
  by (auto simp: proc_guard_def split: sum.split prod.split)

lemma ok_Inr: "ok y pr = (Inr x, pr') \<longleftrightarrow> y = x \<and> pr = pr'"
  by (simp add: ok_def)

lemma fail_Inr: "\<not> fail err pr = (Inr x, pr')"
  by (simp add: fail_def)

lemma change_Inr: "change g pr = (Inr u, pr') \<longleftrightarrow> pr' = g pr"
  by (auto simp: change_def)

lemma check_Inr: "(if b then ok y else fail err) pr = (Inr x, pr') \<longleftrightarrow> b \<and> y = x \<and> pr = pr'"
  by (simp add: ok_def fail_def)

lemma case_option_Inr:
  "(case v of None \<Rightarrow> fail err | Some y \<Rightarrow> f y) pr = (Inr x, pr') \<longleftrightarrow> (\<exists>y. v = Some y \<and> f y pr = (Inr x, pr'))"
  by (cases v) (simp_all add: fail_def)

lemmas proc_Inr = check_Inr case_option_Inr proc_then_Inr proc_guard_Inr ok_Inr fail_Inr change_Inr

lemma server_impl_new_Inr:
  assumes "server_impl_new os pr = (Inr im, pr')" "os_ok os pr"
  obtains r w epfd where "os_pipe os = Some (r, w)" "os_epoll_create os = Some epfd" "pr_write_fd pr = - 1"
    "os_signal os" "os_epoll_add os r"
proof -
  obtain ss pr1 where ss: "signal_source_new os SIGINT pr = (Inr ss, pr1)"
    "os_epoll_create os \<noteq> None" "os_epoll_add os (ss_read_pipe ss)"
    using assms(1) unfolding server_impl_new_def add_event_receiver_def proc_Inr by blast
  obtain p ss1 pr2 where p: "os_pipe os = Some p" "setup_pipe os \<lparr>ss_signum = SIGINT, ss_prev_handler = Not_ours 0, ss_read_pipe = - 1,
      ss_write_pipe = - 1\<rparr> pr = (Inr ss1, pr2)" "setup_signal_handler os ss1 pr2 = (Inr ss, pr1)"
    using ss(1) unfolding signal_source_new_def proc_Inr setup_pipe_def by blast
  obtain r w where rw: "p = (r, w)" by (cases p)
  then have "ss_read_pipe ss1 = r" "pr_write_fd pr = - 1 \<or> w = - 1"
    using p(1,2) by (auto simp: setup_pipe_def set_fd_def open_fd_def proc_defs split: if_splits)
  moreover have "os_signal os" "ss_read_pipe ss = ss_read_pipe ss1"
    using p(3) by (auto simp: setup_signal_handler_def fail_def split: if_splits)
  moreover have "w \<noteq> - 1" using assms(2) p(1) rw by (auto simp: os_ok_def)
  ultimately show ?thesis using that p(1) rw ss by auto
qed

lemma server_setup_Inr:
  assumes "server_setup os c im = (im', listening)" "listening pr = (Inr port, pr')"
  obtains fd where "os_socket os = Some fd" "im' = im\<lparr>im_listenfd := fd\<rparr>" "pr' = open_fd fd pr"
  using assms
  by (cases "os_socket os") (auto simp: server_setup_def add_event_receiver_def proc_Inr)

text \<open>The run with its descriptors refines the loop without them: whether it waits for further events
  or has ended, the clients of the server, their buffers and what they were sent are those that
  \<open>server_loop\<close> computes from the same results of \<open>epoll_wait\<close>.\<close>

lemma server_run_refines:
  assumes "server_run e garbage os c occs im pr = (how, im', pr')" "how \<in> {Waiting, Ended}"
  shows "server_loop e garbage (concat (map wait_of occs)) (im_loop im) = Inr (im_loop im')"
proof -
  obtain im0 listening where st: "server_setup os c im = (im0, listening)" by fastforce
  obtain result pr0 where r: "listening pr = (result, pr0)" by fastforce
  have "\<exists>port. result = Inr port \<and> impl_loop e garbage occs im0 pr0 = (how, im', pr')"
    using assms(2) assms(1)[unfolded server_run_def st prod.case r] by (cases result) auto
  then obtain port where l: "listening pr = (Inr port, pr0)" "impl_loop e garbage occs im0 pr0 = (how, im', pr')"
    using r by blast
  obtain fd where "im0 = im\<lparr>im_listenfd := fd\<rparr>" using server_setup_Inr[OF st l(1)] by metis
  then have "im_loop im0 = im_loop im" by simp
  then show ?thesis using impl_loop_refines[OF l(2)] assms(2) by simp
qed

text \<open>C24: A server that SIGINT stops ends its run, and its destructor gives back what the constructor took,
  but the descriptors of all clients that are connected at that moment stay open: their
  connections are destroyed behind the last call of \<open>remove_dead_clients\<close>, the only one to close
  them.\<close>

theorem shutdown_leaks_clients:
  assumes "os_ok os pr" "server_impl_new os pr = (Inr im0, pr0)" "\<And>fd. os_socket os = Some fd \<Longrightarrow> fd \<notin> pr_open pr0"
    "server_setup os c im0 = (im, listening)" "listening pr0 = (Inr port, prl)"
    "kernel_ok e garbage occs im prl" "impl_loop e garbage occs im prl = (Waiting, im1, pr1)"
  shows "\<exists>im2 pr2 pr3. server_run e garbage os c (occs @ [Interrupt, Wait (Events [Signalled])]) im0 pr0 = (Ended, im2, pr2)
    \<and> sv_clients (im_loop im2) = Map.empty \<and> server_impl_delete im2 pr2 = (Inr (), pr3)
    \<and> pr_open pr3 = pr_open pr \<union> int ` dom (sv_clients (im_loop im1))
    \<and> pr_disposition pr3 = pr_disposition pr \<and> pr_write_fd pr3 = - 1"
proof -
  obtain r w epfd where n: "os_pipe os = Some (r, w)" "os_epoll_create os = Some epfd" "pr_write_fd pr = - 1"
    "os_signal os" "os_epoll_add os r"
    using server_impl_new_Inr[OF assms(2,1)] .
  note new = assms(2)[unfolded server_impl_new_ok[OF n(1,3,4,2,5)]]
  obtain lfd where l: "os_socket os = Some lfd" "im = im0\<lparr>im_listenfd := lfd\<rparr>" "prl = open_fd lfd pr0"
    using server_setup_Inr[OF assms(4,5)] .
  have base: "fds_ok (insert lfd (insert epfd (insert w (insert r (pr_open pr))))) im prl" "idle im"
    using new l by (auto simp: fds_ok_def pipe_ok_def open_fd_def server_new_def)
  have inv: "fds_ok (insert lfd (insert epfd (insert w (insert r (pr_open pr))))) im1 pr1"
    "same_frame im prl im1 pr1" "idle im1"
    using impl_loop_fds[OF assms(7) base(1) assms(6)] base(2) by auto
  have run: "sv_running (im_loop im1)" using impl_loop_running[OF assms(7)] .
  obtain pr2 where ended: "impl_loop e garbage [Interrupt, Wait (Events [Signalled])] im1 pr1
      = (Ended, im1\<lparr>im_listenfd := - 1, im_loop := cleanup ((im_loop im1)\<lparr>sv_running := False, sv_remove := []\<rparr>)\<rparr>, pr2)"
    "pr_open pr2 = pr_open pr1 - {im_listenfd im1}" "pr_disposition pr2 = pr_disposition pr1" "pr_write_fd pr2 = pr_write_fd pr1"
    using interrupt_ends[OF inv(1) run inv(3)] by metis
  let ?im2 = "im1\<lparr>im_listenfd := - 1, im_loop := cleanup ((im_loop im1)\<lparr>sv_running := False, sv_remove := []\<rparr>)\<rparr>"
  have "server_run e garbage os c (occs @ [Interrupt, Wait (Events [Signalled])]) im0 pr0 = (Ended, ?im2, pr2)"
    using assms(4,5,7) ended(1) by (simp add: server_run_def impl_loop_append)
  moreover have "im_signal im1 = im_signal im0" "im_epfd im1 = epfd" "im_listenfd im1 = lfd"
    "ss_read_pipe (im_signal im0) = r" "ss_write_pipe (im_signal im0) = w" "ss_signum (im_signal im0) = SIGINT"
    "ss_prev_handler (im_signal im0) = pr_disposition pr SIGINT"
    "pr_disposition pr2 = (pr_disposition pr)(SIGINT := Write_to_pipe)"
    using inv(2) ended(3) new l by (auto simp: same_frame_def open_fd_def)
  moreover have "pr_open pr1 - {lfd} - {epfd} - {- 1} - {w} - {r} = pr_open pr \<union> int ` dom (sv_clients (im_loop im1))"
  proof (rule outer_descriptors)
    show "pr_open pr1 = insert lfd (insert epfd (insert w (insert r (pr_open pr)))) \<union> int ` dom (sv_clients (im_loop im1))"
      "insert lfd (insert epfd (insert w (insert r (pr_open pr)))) \<inter> int ` dom (sv_clients (im_loop im1)) = {}"
      using inv(1) by (simp_all add: fds_ok_def)
    show "lfd \<notin> pr_open pr" "epfd \<notin> pr_open pr" "w \<notin> pr_open pr" "r \<notin> pr_open pr" "- 1 \<notin> pr_open pr"
      using assms(1) n assms(3)[OF l(1)] new by (auto simp: os_ok_def)
  qed auto
  ultimately show ?thesis
    using ended(2)
    by (simp add: server_impl_delete_def signal_source_delete_def remove_signal_handler_def close_pipe_def clear_fd_def proc_defs
        close_fd_def cleanup_def)
qed


section \<open>Examples\<close>

definition test_os :: os where
  "test_os = \<lparr>os_pipe = Some (3, 4), os_signal = True, os_epoll_create = Some 5, os_epoll_add = (\<lambda>_. True), os_socket = Some 6,
     os_bind = (\<lambda>p. p = 8080), os_listen = True\<rparr>"

definition test_process :: process where
  "test_process = \<lparr>pr_open = {0, 1, 2}, pr_write_fd = - 1, pr_disposition = (\<lambda>_. Not_ours 0), pr_pipe = (\<lambda>_. []), pr_peer = Map.empty\<rparr>"

definition test_impl :: server_impl where
  "test_impl = \<lparr>im_epfd = 5, im_listenfd = - 1, im_loop = server_new,
     im_signal = \<lparr>ss_signum = SIGINT, ss_prev_handler = Not_ours 0, ss_read_pipe = 3, ss_write_pipe = 4\<rparr>\<rparr>"

definition test_constructed :: process where
  "test_constructed = \<lparr>pr_open = {0, 1, 2, 3, 4, 5}, pr_write_fd = 4, pr_disposition = (\<lambda>_. Not_ours 0)(SIGINT := Write_to_pipe),
     pr_pipe = (\<lambda>_. []), pr_peer = [4 \<mapsto> 3]\<rparr>"

lemma test_new: "server_impl_new test_os test_process = (Inr test_impl, test_constructed)"
  by (simp add: server_impl_new_ok test_os_def test_process_def test_impl_def test_constructed_def insert_commute fun_eq_iff)

lemma test_setup:
  "fst (server_setup test_os server_config_new test_impl) = test_impl\<lparr>im_listenfd := 6\<rparr>"
  "snd (server_setup test_os server_config_new test_impl) test_constructed = (Inr 8080, open_fd 6 test_constructed)"
  by (simp_all add: server_setup_def test_os_def server_bind_def view_bind_ports_def server_config_new_def default_ports_def
      add_event_receiver_def proc_defs)

text \<open>One client connects, and is there when the signal comes.\<close>

lemma test_run:
  "impl_loop e garbage [Wait (Events [Accepted 7 [] []])] (test_impl\<lparr>im_listenfd := 6\<rparr>) (open_fd 6 test_constructed) =
     (Waiting, test_impl\<lparr>im_listenfd := 6, im_loop := server_new\<lparr>sv_clients := [7 \<mapsto> client_new]\<rparr>\<rparr>,
      open_fd 7 (open_fd 6 test_constructed))"
  by (simp add: test_impl_def server_new_def put_client_def client_new_def conn_new_def proc_defs impl_remove_dead_clients_def)

lemma test_server_run:
  "server_run e garbage test_os server_config_new [Wait (Events [Accepted 7 [] []])] test_impl test_constructed =
     (Waiting, test_impl\<lparr>im_listenfd := 6, im_loop := server_new\<lparr>sv_clients := [7 \<mapsto> client_new]\<rparr>\<rparr>,
      open_fd 7 (open_fd 6 test_constructed))"
  unfolding server_run_def prod.case_eq_if test_setup by (simp only: test_run fst_conv snd_conv sum.case)

lemma server_run_refines_witness:
  "server_loop (plain_env []) [] (concat (map wait_of [Wait (Events [Accepted 7 [] []])])) (im_loop test_impl)
    = Inr (im_loop (test_impl\<lparr>im_listenfd := 6, im_loop := server_new\<lparr>sv_clients := [7 \<mapsto> client_new]\<rparr>\<rparr>))"
  by (rule server_run_refines[OF test_server_run]) simp

theorem shutdown_leaks_clients_witness:
  "\<exists>im2 pr2 pr3. server_run (plain_env []) [] test_os server_config_new ([Wait (Events [Accepted 7 [] []])] @ [Interrupt, Wait (Events [Signalled])])
      test_impl test_constructed = (Ended, im2, pr2)
    \<and> sv_clients (im_loop im2) = Map.empty \<and> server_impl_delete im2 pr2 = (Inr (), pr3)
    \<and> pr_open pr3 = pr_open test_process \<union> int ` dom (sv_clients (im_loop
        (test_impl\<lparr>im_listenfd := 6, im_loop := server_new\<lparr>sv_clients := [7 \<mapsto> client_new]\<rparr>\<rparr>)))
    \<and> pr_disposition pr3 = pr_disposition test_process \<and> pr_write_fd pr3 = - 1"
proof (rule shutdown_leaks_clients)
  show "server_impl_new test_os test_process = (Inr test_impl, test_constructed)" by (rule test_new)
  show "server_setup test_os server_config_new test_impl
      = (test_impl\<lparr>im_listenfd := 6\<rparr>, snd (server_setup test_os server_config_new test_impl))"
    using test_setup(1) by (simp add: prod_eq_iff)
  show "snd (server_setup test_os server_config_new test_impl) test_constructed = (Inr 8080, open_fd 6 test_constructed)"
    by (rule test_setup(2))
  show "impl_loop (plain_env []) [] [Wait (Events [Accepted 7 [] []])] (test_impl\<lparr>im_listenfd := 6\<rparr>) (open_fd 6 test_constructed) =
     (Waiting, test_impl\<lparr>im_listenfd := 6, im_loop := server_new\<lparr>sv_clients := [7 \<mapsto> client_new]\<rparr>\<rparr>,
      open_fd 7 (open_fd 6 test_constructed))"
    by (rule test_run)
  show "kernel_ok (plain_env []) [] [Wait (Events [Accepted 7 [] []])] (test_impl\<lparr>im_listenfd := 6\<rparr>) (open_fd 6 test_constructed)"
    by (simp add: test_run accept_fresh_def open_fd_def test_constructed_def split: sum.split prod.split run_end.split)
qed (simp_all add: test_os_def test_process_def test_constructed_def os_ok_def)

end
