(* ===== verification/Server_Http2.thy ===== *)
theory Server_Http2
  imports Server_Core
begin

text \<open>
  HTTP/2 from the first octet to the answers: what \<open>Server_Core\<close> shows of HTTP/1.  An abstract view
  of a connection holds what the answers depend on, the table of the HPACK decoder and the
  connection's window; \<open>http2_answer\<close> says what a frame does to it.  Outside of that
  specification are DATA frames and PING requests, which the transport does not handle as it should
  (\<open>h2_data_refused\<close>, \<open>h2_ping\<close>), and window updates of single streams.
\<close>

section \<open>Feeding a loop that never fails\<close>

context patient_input_loop
begin

lemma feed_whole:
  assumes "\<And>x. x \<noteq> [] \<Longrightarrow> prefix x (concat chunks) \<Longrightarrow> \<exists>a s' r. loop s (rest @ x) = (a, Inr (s', r))"
    "chunks \<noteq> []" "[] \<notin> set chunks"
  shows "feed s rest chunks = loop s (rest @ concat chunks)"
  using assms
proof (induction chunks arbitrary: s rest)
  case (Cons c cs)
  obtain a s1 r1 where c: "loop s (rest @ c) = (a, Inr (s1, r1))"
    using Cons.prems(1)[of c] Cons.prems(3) by auto
  show ?case
  proof (cases "cs = []")
    case True
    then show ?thesis using c by (simp add: and_then_def return_def)
  next
    case False
    have split: "loop s (rest @ c @ x) = prepend a (loop s1 (r1 @ x))" if "x \<noteq> []" for x
      using loop_chunks[OF c patient patient that] by simp
    have "feed s1 r1 cs = loop s1 (r1 @ concat cs)"
    proof (rule Cons.IH)
      fix x assume x: "x \<noteq> []" "prefix x (concat cs)"
      then obtain a' s' r' where "loop s (rest @ c @ x) = (a', Inr (s', r'))"
        using Cons.prems(1)[of "c @ x"] by auto
      then show "\<exists>a s' r. loop s1 (r1 @ x) = (a, Inr (s', r))"
        using split[OF x(1)] by (cases "loop s1 (r1 @ x)") (auto simp: prepend_def)
    qed (use False Cons.prems(3) in auto)
    moreover have "concat cs \<noteq> []" using False Cons.prems(3) by (cases cs) auto
    ultimately show ?thesis
      using c split[of "concat cs"] by (simp add: and_then_prepend)
  qed
qed simp

end


section \<open>What a frame does\<close>

record peer_view =
  pv_table :: dtable
  pv_window :: u32
  pv_updated :: bool

definition view :: "h2 \<Rightarrow> peer_view" where
  "view s = \<lparr>pv_table = h2_table s, pv_window = h2_window s, pv_updated = h2_updated s\<rparr>"

definition request_answer :: "31 word \<Rightarrow> action" where
  "request_answer sid = Send_payload [frame_header_octets (response_header sid), [0x88], []]"

definition settings_answer :: action where
  "settings_answer = Send_payload [frame_header_octets ack_header]"

definition http2_answer :: "env \<Rightarrow> frame_header \<Rightarrow> octets \<Rightarrow> peer_view \<Rightarrow> (action list \<times> peer_view) option" where
  "http2_answer e h body v =
     (if fh_type h = FT_DATA then None
      else if fh_type h = FT_HEADERS then
        (case parse_headers (e_ndebug e) (pv_table v) body [] of
           (Inl err, t) \<Rightarrow> None
         | (Inr hs, t) \<Rightarrow> Some ([request_answer (fh_stream h)], v\<lparr>pv_table := t\<rparr>))
      else if fh_type h = FT_PING then (if is_ping_ack h then Some ([], v) else None)
      else if fh_type h = FT_RST_STREAM then (if length body = 4 \<and> fh_stream h \<noteq> 0 then Some ([], v) else None)
      else if fh_type h = FT_SETTINGS then
        (if is_settings_ack h then Some ([], v)
         else (case settings_from_buffer (e_char_signed e) body of
                 Inl err \<Rightarrow> None
               | Inr peer \<Rightarrow>
                   Some ([settings_answer], if pv_updated v then v else v\<lparr>pv_window := setting_value INITIAL_WINDOW_SIZE peer\<rparr>)))
      else if fh_type h = FT_WINDOW_UPDATE then
        (if length body = 4 \<and> fh_stream h = 0 then
           (case add_window_size (sint (pv_window v)) (read_window_size body) of
              Inl err \<Rightarrow> None
            | Inr w \<Rightarrow> Some ([], v\<lparr>pv_window := word_of_int w, pv_updated := True\<rparr>))
         else None)
      else Some ([], v))"

fun http2_answers :: "env \<Rightarrow> (frame_header \<times> octets) list \<Rightarrow> peer_view \<Rightarrow> (action list \<times> peer_view) option" where
  "http2_answers e [] v = Some ([], v)"
| "http2_answers e ((h, body) # frames) v =
     (case http2_answer e h body v of
        None \<Rightarrow> None
      | Some (acts, v) \<Rightarrow> map_option (\<lambda>(acts', v). (acts @ acts', v)) (http2_answers e frames v))"

text \<open>The frames as they are sent: the length is that of the payload, and every octet of the header is
  read as it was written.\<close>

definition frame_sent :: "env \<Rightarrow> frame_header \<times> octets \<Rightarrow> bool" where
  "frame_sent e f \<longleftrightarrow> length (snd f) = unat (fh_length (fst f))
     \<and> (\<forall>c\<in>set (frame_header_octets (fst f)). char_exact (e_char_signed e) c)"

definition frame_octets :: "frame_header \<times> octets \<Rightarrow> octets" where
  "frame_octets f = frame_header_octets (fst f) @ snd f"


section \<open>The transport does it\<close>

text \<open>Where the transport is between two frames.\<close>

definition between_frames :: "h2 \<Rightarrow> bool" where
  "between_frames s \<longleftrightarrow> h2_current s = None \<and> h2_idle s \<and> h2_preface s"

lemma view_more [simp]:
  "view (s\<lparr>h2_current := c\<rparr>) = view s" "view (s\<lparr>h2_preface := b\<rparr>) = view s" "view (s\<lparr>h2_peer := pr\<rparr>) = view s"
  "view (s\<lparr>h2_streams := m\<rparr>) = view s" "view (h2_end_stream sid s) = view s"
  "view (s\<lparr>h2_table := t\<rparr>) = (view s)\<lparr>pv_table := t\<rparr>" "view (s\<lparr>h2_window := w\<rparr>) = (view s)\<lparr>pv_window := w\<rparr>"
  "view (s\<lparr>h2_updated := u\<rparr>) = (view s)\<lparr>pv_updated := u\<rparr>"
  "pv_table (view s) = h2_table s" "pv_window (view s) = h2_window s" "pv_updated (view s) = h2_updated s"
  by (simp_all add: view_def h2_end_stream_def)

lemma read_window_size_append: "length body = 4 \<Longrightarrow> read_window_size (body @ rest) = read_window_size body"
  by (simp add: read_window_size_def nth_append)

lemma frame_handler_answers:
  assumes "http2_answer e h body (view s) = Some (acts, v)" "length body = unat (fh_length h)" "h2_idle s"
  shows "\<exists>s'. frame_handler e h s (body @ rest) = (acts, Inr (s', body @ rest)) \<and> view s' = v \<and> h2_idle s'
    \<and> h2_preface s' = h2_preface s"
proof -
  consider "fh_type h = FT_HEADERS" | "fh_type h = FT_PING" | "fh_type h = FT_RST_STREAM" | "fh_type h = FT_SETTINGS"
    | "fh_type h = FT_WINDOW_UPDATE"
    | "fh_type h \<notin> {FT_DATA, FT_HEADERS, FT_PING, FT_RST_STREAM, FT_SETTINGS, FT_WINDOW_UPDATE}"
    using assms(1) by (auto simp: http2_answer_def split: if_splits)
  then show ?thesis
  proof cases
    case 1
    then obtain hs t where "parse_headers (e_ndebug e) (h2_table s) body [] = (Inr hs, t)"
      "acts = [request_answer (fh_stream h)]" "v = (view s)\<lparr>pv_table := t\<rparr>"
      using assms(1) by (auto simp: http2_answer_def frame_types split: prod.splits sum.splits)
    then show ?thesis
      using 1 receive_headers_idle_eq[OF assms(3), of h "body @ rest" e hs t] assms(2,3) h2_idle_end_stream
      by (simp add: frame_handler_def frame_types run_simps request_answer_def)
  next
    case 2
    then show ?thesis
      using assms by (auto simp: http2_answer_def frame_handler_def frame_types receive_ping_def run_simps split: if_splits)
  next
    case 3
    then show ?thesis
      using assms h2_idle_end_stream
      by (auto simp: http2_answer_def frame_handler_def frame_types receive_reset_stream_def run_simps split: if_splits)
  next
    case 4
    then show ?thesis
      using assms
      by (auto simp: http2_answer_def frame_handler_def frame_types receive_settings_def run_simps settings_answer_def
          ack_header_def ack_settings_def split: if_splits sum.splits)
  next
    case 5
    then show ?thesis
      using assms
      by (auto simp: http2_answer_def frame_handler_def frame_types receive_window_update_def add_connection_window_size_def
          read_window_size_append run_simps split: if_splits sum.splits)
  next
    case 6
    then show ?thesis
      using assms by (auto simp: http2_answer_def frame_handler_def run_simps)
  qed
qed

lemma receive_frame_answers:
  assumes "http2_answer e h body (view s) = Some (acts, v)" "frame_sent e (h, body)" "between_frames s"
  obtains s' where "\<forall>rest. receive_frame e s (frame_octets (h, body) @ rest) = (acts, Inr (True, s', rest))"
    "view s' = v" "between_frames s'"
proof -
  have len: "length body = unat (fh_length h)" and exact: "\<forall>c\<in>set (frame_header_octets h). char_exact (e_char_signed e) c"
    using assms(2) by (simp_all add: frame_sent_def)
  obtain s1 where "frame_handler e h (s\<lparr>h2_current := Some h\<rparr>) (body @ []) = (acts, Inr (s1, body @ []))"
    "view s1 = v" "h2_idle s1" "h2_preface s1"
    using frame_handler_answers[of e h body "s\<lparr>h2_current := Some h\<rparr>" acts v "[]"] assms len
    by (auto simp: between_frames_def)
  moreover from receive_frame_whole[OF _ exact len this(1)]
  have "receive_frame e s (frame_octets (h, body)) = (acts, Inr (True, s1\<lparr>h2_current := None\<rparr>, []))"
    using assms(3) len by (simp add: between_frames_def frame_octets_def advance_def)
  ultimately show ?thesis
    using receive_frame_more[of e s "frame_octets (h, body)" acts "s1\<lparr>h2_current := None\<rparr>" "[]"]
    by (intro that[of "s1\<lparr>h2_current := None\<rparr>"]) (simp_all add: between_frames_def)
qed

text \<open>A state that waits for more octets.\<close>

definition waits :: "env \<Rightarrow> h2 \<Rightarrow> octets \<Rightarrow> bool" where
  "waits e s r \<longleftrightarrow> receive_frame e s r = ([], Inr (False, s, r))"

lemma receive_frame_part:
  assumes "strict_prefix p (frame_octets (h, body))" "frame_sent e (h, body)" "between_frames s"
  obtains s' r where "receive_frame e s p = ([], Inr (False, s', r))" "waits e s' r"
proof (cases "length p < FRAME_HEADER_SIZE")
  case True
  then have "waits e s p" using assms(3) receive_frame_short by (simp add: waits_def between_frames_def)
  then show ?thesis using that by (simp add: waits_def)
next
  case False
  have "p = frame_header_octets h" if "prefix p (frame_header_octets h)"
  proof -
    obtain zs where zs: "frame_header_octets h = p @ zs" using \<open>prefix p (frame_header_octets h)\<close> by (auto simp: prefix_def)
    then have "length p + length zs = 9" by (metis length_append frame_header_octets_length)
    moreover have "9 \<le> length p" using False by (simp add: FRAME_HEADER_SIZE_def)
    ultimately have "length zs = 0" by linarith
    then show ?thesis using zs by simp
  qed
  then obtain q where p: "p = frame_header_octets h @ q"
    using assms(1) by (auto simp: frame_octets_def strict_prefix_def prefix_append)
  then have q: "p = frame_header_octets h @ q" "strict_prefix q body"
    using assms(1) by (simp_all add: frame_octets_def strict_prefix_def)
  have "receive_frame e s p = receive_frame e (s\<lparr>h2_current := Some h\<rparr>) q"
    using receive_frame_header_read[of s e p h q] read_frame_header_octets[of h "e_char_signed e" q] assms(2,3) q(1)
    by (simp add: between_frames_def frame_sent_def)
  moreover have "length q < unat (fh_length h)" using assms(2) prefix_length_less[OF q(2)] by (simp add: frame_sent_def)
  ultimately show ?thesis
    using that[of "s\<lparr>h2_current := Some h\<rparr>" q] by (simp add: receive_frame_pending waits_def)
qed

lemma waits_loop: "waits e s r \<Longrightarrow> receive_frames e s r = ([], Inr (s, r))"
  by (simp add: waits_def receive_frames.simps)

lemma between_frames_waits: "between_frames s \<Longrightarrow> waits e s []"
  using receive_frame_short by (simp add: waits_def between_frames_def FRAME_HEADER_SIZE_def)

lemma receive_frames_step:
  assumes "receive_frame e s buf = (a, Inr (True, s1, r))" "between_frames s1"
  shows "receive_frames e s buf = prepend a (receive_frames e s1 r)"
  using assms waits_loop[OF between_frames_waits[OF assms(2)], of e]
  by (subst receive_frames.simps) (simp add: prepend_def)

lemma frames_part:
  assumes "http2_answers e frames (view s) = Some (acts, v)" "\<forall>f\<in>set frames. frame_sent e f" "between_frames s"
    "prefix p (concat (map frame_octets frames))"
  shows "\<exists>a s' r. receive_frames e s p = (a, Inr (s', r)) \<and> waits e s' r"
  using assms
proof (induction frames arbitrary: s acts p)
  case Nil
  then show ?case using between_frames_waits waits_loop by fastforce
next
  case (Cons f frames)
  obtain h body where f: "f = (h, body)" by (cases f)
  obtain a1 v1 a2 where ans: "http2_answer e h body (view s) = Some (a1, v1)" "http2_answers e frames v1 = Some (a2, v)"
    using Cons.prems(1) f by (auto split: option.splits)
  have sent: "frame_sent e (h, body)" using Cons.prems(2) f by simp
  show ?case
  proof (cases "strict_prefix p (frame_octets (h, body))")
    case True
    obtain s' r where "receive_frame e s p = ([], Inr (False, s', r))" "waits e s' r"
      using receive_frame_part[OF True sent Cons.prems(3)] .
    then show ?thesis by (subst receive_frames.simps) simp
  next
    case False
    obtain q where p: "p = frame_octets (h, body) @ q" "prefix q (concat (map frame_octets frames))"
      using False Cons.prems(4) f by (auto simp: prefix_append strict_prefix_def)
    obtain s1 where s1: "\<forall>rest. receive_frame e s (frame_octets (h, body) @ rest) = (a1, Inr (True, s1, rest))"
      "view s1 = v1" "between_frames s1"
      using receive_frame_answers[OF ans(1) sent Cons.prems(3)] .
    obtain a s' r where "receive_frames e s1 q = (a, Inr (s', r))" "waits e s' r"
      using Cons.IH[of s1 a2 q] ans(2) s1(2,3) Cons.prems(2) p(2) by auto
    then show ?thesis using receive_frames_step[OF s1(1)[rule_format, of q] s1(3)] p(1) by (simp add: prepend_def)
  qed
qed

lemma frames_answered:
  assumes "http2_answers e frames (view s) = Some (acts, v)" "\<forall>f\<in>set frames. frame_sent e f" "between_frames s"
  shows "\<exists>s'. receive_frames e s (concat (map frame_octets frames)) = (acts, Inr (s', [])) \<and> view s' = v \<and> between_frames s'"
  using assms
proof (induction frames arbitrary: s acts)
  case Nil
  then show ?case using between_frames_waits waits_loop by fastforce
next
  case (Cons f frames)
  obtain h body where f: "f = (h, body)" by (cases f)
  obtain a1 v1 a2 where ans: "http2_answer e h body (view s) = Some (a1, v1)" "http2_answers e frames v1 = Some (a2, v)"
    "acts = a1 @ a2"
    using Cons.prems(1) f by (auto split: option.splits)
  have sent: "frame_sent e (h, body)" using Cons.prems(2) f by simp
  obtain s1 where s1: "\<forall>rest. receive_frame e s (frame_octets (h, body) @ rest) = (a1, Inr (True, s1, rest))"
    "view s1 = v1" "between_frames s1"
    using receive_frame_answers[OF ans(1) sent Cons.prems(3)] .
  obtain s' where "receive_frames e s1 (concat (map frame_octets frames)) = (a2, Inr (s', []))" "view s' = v" "between_frames s'"
    using Cons.IH[of s1 a2] ans(2) s1(2,3) Cons.prems(2) by auto
  then show ?case
    using receive_frames_step[OF s1(1)[rule_format] s1(3), of "concat (map frame_octets frames)"] f ans(3)
    by (simp add: prepend_def)
qed


section \<open>From the preface on\<close>

lemma transport_feed_http2:
  "h2_feed e s rest chunks = (acts, Inr (s', rest')) \<Longrightarrow>
   transport_feed e (Http2 s) rest chunks = (acts, Inr (Http2 s', rest'))"
proof (induction chunks arbitrary: s rest acts)
  case (Cons x xs)
  then show ?case by (auto simp: and_then_Inr http2_on_input_def run_simps)
qed (simp add: return_def)

lemma h2_new_preface:
  "h2_new e None = ([Send_raw server_preface], Inr (h2_ready\<lparr>h2_preface := False\<rparr>))"
  by (simp add: h2_new_def run_simps h2_ready_def)

lemma between_frames_ready: "between_frames h2_ready"
  using h2_reach_idle[OF h2_reach.start[OF h2_new_preface]]
  by (simp add: between_frames_def h2_ready_def h2_idle_def)

lemma preface_then_frames:
  assumes "receive_frames e h2_ready x = (a, Inr (s', r))" "waits e s' r"
  shows "switch_on_input e (CLIENT_PREFACE @ x) = (Send_raw server_preface # a, Inr (Http2 s', r))"
proof -
  have "h2_on_input e (h2_ready\<lparr>h2_preface := False\<rparr>) (CLIENT_PREFACE @ x) = (a, Inr (s', r))"
    using assms waits_loop[OF assms(2)]
    by (simp add: h2_on_input_def receive_preface_def run_simps advance_def) (simp add: h2_ready_def run_simps)
  then show ?thesis by (simp add: switch_on_input_def http2_on_input_def h2_new_preface run_simps)
qed

lemma rest_of_frames:
  assumes "\<And>y. prefix y (x @ concat chunks) \<Longrightarrow> \<exists>a s' r. receive_frames e h2_ready y = (a, Inr (s', r)) \<and> waits e s' r"
    "receive_frames e h2_ready (x @ concat chunks) = (acts, Inr (s', rest))"
    "receive_frames e h2_ready x = (a, Inr (s1, r1))" "[] \<notin> set chunks"
  shows "\<exists>a2. h2_feed e s1 r1 chunks = (a2, Inr (s', rest)) \<and> acts = a @ a2"
proof (cases "chunks = []")
  case True
  then show ?thesis using assms(2,3) by (simp add: return_def)
next
  case False
  have split: "receive_frames e h2_ready (x @ y) = prepend a (receive_frames e s1 (r1 @ y))" if "y \<noteq> []" for y
    using h2_input.loop_chunks[OF assms(3) TrueI TrueI that] .
  have "h2_input.feed e s1 r1 chunks = receive_frames e s1 (r1 @ concat chunks)"
  proof (rule h2_input.feed_whole)
    fix y assume y: "y \<noteq> []" "prefix y (concat chunks)"
    then have "prefix (x @ y) (x @ concat chunks)" by simp
    then show "\<exists>a s' r. receive_frames e s1 (r1 @ y) = (a, Inr (s', r))"
      using assms(1)[of "x @ y"] split[OF y(1)] by (cases "receive_frames e s1 (r1 @ y)") (auto simp: prepend_def)
  qed (use False assms(4) in auto)
  moreover have "h2_preface s1" using receive_frames_preface[OF assms(3)] by (simp add: h2_ready_def)
  moreover have "concat chunks \<noteq> []" using False assms(4) by (cases chunks) auto
  ultimately show ?thesis
    using split[of "concat chunks"] assms(2) h2_feed_frames[of s1 e r1 chunks]
    by (cases "receive_frames e s1 (r1 @ concat chunks)") (simp add: prepend_def)
qed

lemma switch_waits: "length b < 24 \<Longrightarrow> take (length b) CLIENT_PREFACE = b \<Longrightarrow> switch_on_input e b = ([], Inr (Switch, b))"
  by (simp add: switch_on_input_def run_simps)

lemma switch_then_http2:
  assumes "\<And>x. prefix x data \<Longrightarrow> \<exists>a s' r. receive_frames e h2_ready x = (a, Inr (s', r)) \<and> waits e s' r"
    "receive_frames e h2_ready data = (acts, Inr (s', rest))"
    "r @ concat chunks = CLIENT_PREFACE @ data" "length r < 24" "[] \<notin> set chunks"
  shows "transport_feed e Switch r chunks = (Send_raw server_preface # acts, Inr (Http2 s', rest))"
  using assms(3-5)
proof (induction chunks arbitrary: r)
  case Nil
  then show ?case using arg_cong[OF Nil(1), of length] by simp
next
  case (Cons c cs)
  let ?b = "r @ c"
  have whole: "?b @ concat cs = CLIENT_PREFACE @ data" using Cons.prems(1) by simp
  show ?case
  proof (cases "length ?b < 24")
    case True
    have "take (length ?b) (?b @ concat cs) = take (length ?b) CLIENT_PREFACE" unfolding whole using True by simp
    then have "switch_on_input e ?b = ([], Inr (Switch, ?b))" by (intro switch_waits[OF True]) (use True in \<open>simp add: min_def\<close>)
    moreover have "transport_feed e Switch ?b cs = (Send_raw server_preface # acts, Inr (Http2 s', rest))"
      using Cons.IH[OF whole True] Cons.prems(3) by simp
    ultimately show ?thesis by (simp add: run_simps)
  next
    case False
    have "take 24 (?b @ concat cs) = CLIENT_PREFACE" unfolding whole by simp
    then have "take 24 ?b = CLIENT_PREFACE" using False by simp
    then obtain x where x: "?b = CLIENT_PREFACE @ x" by (metis append_take_drop_id)
    then have data: "data = x @ concat cs" using whole by simp
    obtain a s1 r1 where x1: "receive_frames e h2_ready x = (a, Inr (s1, r1))" "waits e s1 r1"
      using assms(1)[of x] data by auto
    obtain a2 where feed: "h2_feed e s1 r1 cs = (a2, Inr (s', rest))" "acts = a @ a2"
      using rest_of_frames[OF assms(1)[unfolded data] assms(2)[unfolded data] x1(1)] Cons.prems(3) by auto
    have "transport_feed e Switch r (c # cs) = and_then (switch_on_input e ?b) (\<lambda>(t, rest). transport_feed e t rest cs)" by simp
    then show ?thesis
      using preface_then_frames[OF x1] x transport_feed_http2[OF feed(1)] feed(2) by (simp add: run_simps)
  qed
qed

lemma http2_answer_sends: "http2_answer e h body v = Some (acts, v') \<Longrightarrow> \<forall>a\<in>set acts. sends_something a"
  by (auto simp: http2_answer_def request_answer_def settings_answer_def frame_header_octets_def Let_def
      split: if_splits prod.splits sum.splits)

lemma http2_answers_send: "http2_answers e frames v = Some (acts, v') \<Longrightarrow> \<forall>a\<in>set acts. sends_something a"
proof (induction frames arbitrary: v acts)
  case (Cons f frames)
  obtain h body where f: "f = (h, body)" by (cases f)
  then obtain a1 v1 a2 where a: "http2_answer e h body v = Some (a1, v1)" "http2_answers e frames v1 = Some (a2, v')" "acts = a1 @ a2"
    using Cons.prems by (auto split: option.splits prod.splits)
  then show ?case using http2_answer_sends[OF a(1)] Cons.IH[OF a(2)] by auto
qed simp

lemma server_preface_sends: "server_preface \<noteq> []"
  by (simp add: server_preface_def frame_header_octets_def Let_def)

text \<open>C2: HTTP/2 from the first octet to the answers: a client sends the preface and frames, cut into
  segments and bursts in any way, and its socket neither fails nor closes nor has room again right
  after it was full.  The frames are those \<open>http2_answer\<close> covers: not DATA, PING other than
  acknowledgements, or window updates of streams, which the transport does not handle (C32, C33);
  and either \<open>char\<close> is unsigned or the octets of the frame headers are below 128 (C30).  Then the
  connection stays open, and the octets its socket has taken, followed by those queued because the
  socket was full, are the settings of the server and the answers \<open>http2_answers\<close> gives to the
  frames, in order, and nothing else; when the socket has room, all of them have been taken.\<close>

theorem server_answers_http2:
  assumes "http2_answers e frames (view h2_ready) = Some (acts, v)" "\<forall>f\<in>set frames. frame_sent e f"
    "concat (concat bursts) = CLIENT_PREFACE @ concat (map frame_octets frames)" "[] \<notin> set (concat bursts)"
    "length garbage = PAYLOAD_CAPACITY" "sound_socket (length (server_preface @ calls_octets acts)) io"
  shows "\<exists>cl io'. read_bursts e garbage bursts io client_new = Inr (cl, io') \<and> \<not> closed (cl_out cl)
    \<and> wire (cl_out cl) @ content (outgoing (cl_out cl)) = server_preface @ calls_octets acts
    \<and> (\<exists>s. cl_transport cl = Http2 s \<and> view s = v) \<and> cl_in cl = []
    \<and> (roomy_socket (length (server_preface @ calls_octets acts)) io \<and> Suc (length acts) \<le> length io
        \<longrightarrow> wire (cl_out cl) = server_preface @ calls_octets acts)"
proof -
  obtain s where s: "receive_frames e h2_ready (concat (map frame_octets frames)) = (acts, Inr (s, []))" "view s = v"
    using frames_answered[OF assms(1,2) between_frames_ready] by auto
  have feed: "transport_feed e Switch [] (concat bursts) = (Send_raw server_preface # acts, Inr (Http2 s, []))"
    using switch_then_http2[OF frames_part[OF assms(1,2) between_frames_ready] s(1)] assms(3,4) by simp
  have "\<forall>a\<in>set (Send_raw server_preface # acts). sends_something a"
    using http2_answers_send[OF assms(1)] server_preface_sends by simp
  from client_answered[OF feed assms(4,5) this, of io] assms(6) s(2) show ?thesis by auto
qed

text \<open>A client that sends its settings and then a request for \<open>/\<close> on stream 1.\<close>

definition get_header :: frame_header where
  "get_header = \<lparr>fh_length = 2, fh_type = FT_HEADERS, fh_flags = 5, fh_reserved = False, fh_stream = 1\<rparr>"

lemma parse_headers_get: "\<exists>hs. parse_headers nd t [0x82, 0x84] [] = (Inr hs, t)"
proof -
  let ?hs = "[mk_header (str '':method'') (str ''GET'') [] [] False, mk_header (str '':path'') (str ''/'') [] [] False]"
  have "reps_apply t [Indexed 2, Indexed 4] = Some (?hs, t)"
    by (simp add: entry_at_def static_table_def str_def)
  moreover have "concat (map rep_bytes [Indexed 2, Indexed 4]) = [0x82, 0x84]"
    by (simp add: hpack_int_def mask_eq_exp_minus_1)
  ultimately show ?thesis
    using parse_headers_reps[of "[Indexed 2, Indexed 4]" t _ t nd "[]" "[]"] by (simp add: parse_headers.simps[of nd t "[]"])
qed

lemma example_frames:
  "\<exists>v. http2_answers (plain_env []) [(settings_header 0, []), (get_header, [0x82, 0x84])] (view h2_ready)
    = Some ([settings_answer, request_answer 1], v)"
proof -
  obtain hs where "parse_headers (e_ndebug (plain_env [])) dt_new [0x82, 0x84] [] = (Inr hs, dt_new)"
    using parse_headers_get by blast
  then show ?thesis
    by (simp add: http2_answer_def settings_header_def get_header_def frame_header_new_def frame_types is_settings_ack_def
        flag_test_def settings_from_buffer_def settings_loop.simps h2_ready_def)
qed

lemma example_frames_sent: "\<forall>f\<in>set [(settings_header 0, []), (get_header, [0x82, 0x84])]. frame_sent (plain_env []) f"
  by (simp add: frame_sent_def settings_header_def get_header_def frame_header_new_def frame_header_octets_def char_exact_def frame_types)

theorem server_answers_http2_witness:
  "\<exists>cl io'. read_bursts (plain_env []) (replicate 1440 0)
        [[take 5 CLIENT_PREFACE], [drop 5 CLIENT_PREFACE @ take 3 (frame_octets (settings_header 0, [])),
          drop 3 (frame_octets (settings_header 0, [])) @ frame_octets (get_header, [0x82, 0x84])]]
        (replicate 3 (Sent 1000)) client_new = Inr (cl, io')
    \<and> \<not> closed (cl_out cl) \<and> wire (cl_out cl) = server_preface @ calls_octets [settings_answer, request_answer 1]"
proof -
  obtain v where v: "http2_answers (plain_env []) [(settings_header 0, []), (get_header, [0x82, 0x84])] (view h2_ready)
    = Some ([settings_answer, request_answer 1], v)"
    using example_frames by blast
  let ?N = "length (server_preface @ calls_octets [settings_answer, request_answer 1])"
  have "?N \<le> 1000"
    by (simp add: server_preface_def settings_answer_def request_answer_def)
  then have roomy: "roomy_socket ?N (replicate 3 (Sent 1000))" by (simp add: roomy_socket_def)
  have "0 < ?N" using server_preface_sends by simp
  then have sound: "sound_socket ?N (replicate 3 (Sent 1000))" by (rule roomy_sound[OF roomy])
  let ?bursts = "[[take 5 CLIENT_PREFACE], [drop 5 CLIENT_PREFACE @ take 3 (frame_octets (settings_header 0, [])),
    drop 3 (frame_octets (settings_header 0, [])) @ frame_octets (get_header, [0x82, 0x84])]]"
  have "concat (concat ?bursts) = CLIENT_PREFACE @ concat (map frame_octets [(settings_header 0, []), (get_header, [0x82, 0x84])])"
    "[] \<notin> set (concat ?bursts)" "length (replicate 1440 0 :: octets) = PAYLOAD_CAPACITY"
    by (simp_all add: PAYLOAD_CAPACITY_def frame_octets_def CLIENT_PREFACE_def frame_header_octets_def)
  from server_answers_http2[OF v example_frames_sent this sound] roomy show ?thesis
    by (auto simp del: read_bursts.simps on_poll_in.simps concat.simps calls_octets_simps)
qed

end
