(* ===== verification/Server_Api.thy ===== *)
theory Server_Api
  imports Server_Setup Server_Http2
begin

text \<open>
  What a program sees of the library: the constructors of \<open>src/Message.cpp\<close>, \<open>src/Response.*\<close> and
  \<open>src/Request.cpp\<close>, the message handlers, the class \<open>Server\<close> of \<open>src/Server.cpp\<close>, and the programs
  \<open>src/HelloWorld.cpp\<close> and \<open>src/PrintRequestServer.cpp\<close> that are built on it.

  A constructor from header strings can throw, so it yields a sum.  A handler is the list of its
  responses; what \<open>printRequest\<close> writes to the standard output is the function \<open>print_request_text\<close>.
\<close>

section \<open>Messages\<close>

definition message_of_body :: "octets \<Rightarrow> message" where
  "message_of_body body = \<lparr>m_body = body, m_headers = []\<rparr>"

definition message_of_headers :: "headers \<Rightarrow> message" where
  "message_of_headers hs = \<lparr>m_body = [], m_headers = hs\<rparr>"

definition message_of_body_strings :: "octets \<Rightarrow> octets list \<Rightarrow> http_error + message" where
  "message_of_body_strings body hs = map_sum id (\<lambda>hs. \<lparr>m_body = body, m_headers = hs\<rparr>) (hdr_of_strings hs [])"

definition message_of_body_pairs :: "octets \<Rightarrow> hdr list \<Rightarrow> message" where
  "message_of_body_pairs body hs = \<lparr>m_body = body, m_headers = hs\<rparr>"

definition message_of_strings :: "octets list \<Rightarrow> octets \<Rightarrow> http_error + message" where
  "message_of_strings hs body = map_sum id (\<lambda>hs. \<lparr>m_body = body, m_headers = hs\<rparr>) (hdr_of_strings hs [])"

definition message_of_pairs :: "hdr list \<Rightarrow> octets \<Rightarrow> message" where
  "message_of_pairs hs body = \<lparr>m_body = body, m_headers = hs\<rparr>"

definition message_of_body_headers :: "octets \<Rightarrow> headers \<Rightarrow> message" where
  "message_of_body_headers body hs = \<lparr>m_body = body, m_headers = hs\<rparr>"

definition message_of_span :: "headers \<Rightarrow> octets \<Rightarrow> message" where
  "message_of_span hs body = \<lparr>m_body = body, m_headers = hs\<rparr>"

definition response_of_body :: "octets \<Rightarrow> response" where
  "response_of_body body = \<lparr>rs_message = message_of_body body, rs_status = 200\<rparr>"

definition response_of_message :: "nat \<Rightarrow> message \<Rightarrow> response" where
  "response_of_message status m = \<lparr>rs_message = m, rs_status = status\<rparr>"

definition response_of_strings :: "octets list \<Rightarrow> octets \<Rightarrow> http_error + response" where
  "response_of_strings hs body = map_sum id (\<lambda>m. \<lparr>rs_message = m, rs_status = 200\<rparr>) (message_of_strings hs body)"

definition response_of_pairs :: "hdr list \<Rightarrow> octets \<Rightarrow> response" where
  "response_of_pairs hs body = \<lparr>rs_message = message_of_pairs hs body, rs_status = 200\<rparr>"

definition set_status_code :: "nat \<Rightarrow> response \<Rightarrow> response" where
  "set_status_code status r = r\<lparr>rs_status := status\<rparr>"

definition request_of_message :: "octets \<Rightarrow> octets \<Rightarrow> message \<Rightarrow> request" where
  "request_of_message meth path m = \<lparr>rq_message = m, rq_method = meth, rq_path = path\<rparr>"


section \<open>Message handlers\<close>

text \<open>
  A handler is what its three callbacks do to its state; the last one also yields what the handler
  does with the message.  \<open>onAllInOne\<close>, unless it is overridden, makes the three calls.
\<close>

record ('s, 'r) message_handler =
  mh_headers :: "headers \<Rightarrow> 's \<Rightarrow> 's"
  mh_body_part :: "octets \<Rightarrow> 's \<Rightarrow> 's"
  mh_end :: "headers option \<Rightarrow> 's \<Rightarrow> 's \<times> 'r"

definition on_all_in_one :: "('s, 'r) message_handler \<Rightarrow> headers \<Rightarrow> octets \<Rightarrow> headers option \<Rightarrow> 's \<Rightarrow> 's \<times> 'r" where
  "on_all_in_one mh hs body trailers s = mh_end mh trailers (mh_body_part mh body (mh_headers mh hs s))"

record message_buffer =
  mb_headers :: headers
  mb_body :: octets

definition message_buffer_new :: message_buffer where
  "message_buffer_new = \<lparr>mb_headers = [], mb_body = []\<rparr>"

definition buffer_on_headers :: "headers \<Rightarrow> message_buffer \<Rightarrow> message_buffer" where
  "buffer_on_headers hs b = b\<lparr>mb_headers := hs\<rparr>"

definition buffer_on_body_part :: "octets \<Rightarrow> message_buffer \<Rightarrow> message_buffer" where
  "buffer_on_body_part part b = b\<lparr>mb_body := mb_body b @ part\<rparr>"

text \<open>\<open>SimpleMessageHandler::onEndOfMessage\<close>; the headers are moved into the message.\<close>

definition simple_on_end_of_message ::
  "(message \<Rightarrow> 'r) \<Rightarrow> headers option \<Rightarrow> message_buffer \<Rightarrow> message_buffer \<times> 'r" where
  "simple_on_end_of_message handler trailers b =
     (let b = (case trailers of None \<Rightarrow> b | Some ts \<Rightarrow> b\<lparr>mb_headers := hdr_append (mb_headers b) ts\<rparr>)
      in (b\<lparr>mb_headers := []\<rparr>, handler (message_of_span (mb_headers b) (mb_body b))))"

definition simple_handler :: "(message \<Rightarrow> 'r) \<Rightarrow> (message_buffer, 'r) message_handler" where
  "simple_handler handler =
     \<lparr>mh_headers = buffer_on_headers, mh_body_part = buffer_on_body_part, mh_end = simple_on_end_of_message handler\<rparr>"

lemma buffer_parts: "fold buffer_on_body_part parts b = b\<lparr>mb_body := mb_body b @ concat parts\<rparr>"
  by (induction parts arbitrary: b) (simp_all add: buffer_on_body_part_def)

lemma hdr_append_eq: "hdr_append hs added = hs @ added"
  by (induction added arbitrary: hs) (simp_all add: hdr_append_def hdr_add_def split_beta)

text \<open>However a body is cut into parts, a simple handler gets the same message, once.\<close>

lemma simple_handler_parts:
  "mh_end (simple_handler handler) trailers
      (fold (mh_body_part (simple_handler handler)) parts (mh_headers (simple_handler handler) hs message_buffer_new))
    = on_all_in_one (simple_handler handler) hs (concat parts) trailers message_buffer_new"
  "snd (on_all_in_one (simple_handler handler) hs body trailers message_buffer_new)
    = handler \<lparr>m_body = body, m_headers = hs @ (case trailers of None \<Rightarrow> [] | Some ts \<Rightarrow> ts)\<rparr>"
  by (auto simp: on_all_in_one_def simple_handler_def buffer_parts buffer_on_headers_def buffer_on_body_part_def
      message_buffer_new_def simple_on_end_of_message_def message_of_span_def hdr_append_eq split: option.split)


section \<open>The class Server\<close>

record web_server =
  ws_config :: server_config
  ws_routes :: routes

definition web_server_new :: web_server where
  "web_server_new = \<lparr>ws_config = server_config_new, ws_routes = []\<rparr>"

definition web_server_with :: "server_config \<Rightarrow> web_server" where
  "web_server_with c = \<lparr>ws_config = c, ws_routes = []\<rparr>"

definition add_route_response :: "octets \<Rightarrow> response \<Rightarrow> web_server \<Rightarrow> web_server" where
  "add_route_response path r ws = ws\<lparr>ws_routes := add_handler path (static_responder r) (ws_routes ws)\<rparr>"

definition add_route_handler :: "octets \<Rightarrow> handler \<Rightarrow> web_server \<Rightarrow> web_server" where
  "add_route_handler path h ws = ws\<lparr>ws_routes := add_handler path h (ws_routes ws)\<rparr>"

definition web_server_dispatch :: "web_server \<Rightarrow> request \<Rightarrow> response list" where
  "web_server_dispatch ws req = routes_dispatch (ws_routes ws) req"

lemma take_is_prefix: "(take (length p) xs = p) = prefix p xs"
  by (metis append_eq_conv_conj prefix_def)

lemma routes_dispatch_append:
  "routes_dispatch (rs @ [(path, h)]) req =
     (if \<exists>p\<in>set rs. prefix (fst p) (rq_path req) then routes_dispatch rs req
      else if prefix path (rq_path req) then h req else [])"
  by (induction rs) (auto simp: take_is_prefix, force+)

text \<open>A later route counts only for requests that no earlier route takes.\<close>

lemma add_route_last:
  "web_server_dispatch (add_route_handler path h ws) req =
     (if \<exists>p\<in>set (ws_routes ws). prefix (fst p) (rq_path req) then web_server_dispatch ws req
      else if prefix path (rq_path req) then h req else [])"
  by (simp add: web_server_dispatch_def add_route_handler_def add_handler_def routes_dispatch_append)


section \<open>The programs\<close>

definition hello_world :: web_server where
  "hello_world = add_route_response (str ''/'') (response_of_body (str ''Hello, world!'' @ [CH_LF])) web_server_new"

definition unhandled_request_handler :: handler where
  "unhandled_request_handler = static_responder (response_new 400 (str ''No handler for request''))"

definition print_request_text :: "env \<Rightarrow> request \<Rightarrow> octets" where
  "print_request_text e req =
     rq_method req @ [CH_SP] @ rq_path req @ [CH_LF]
     @ concat (map (\<lambda>(k, v). k @ [CH_COLON, CH_SP] @ v @ [CH_LF]) (e_order e (m_headers (rq_message req)))) @ [CH_LF]
     @ (if m_body (rq_message req) = [] then [] else m_body (rq_message req) @ [CH_LF])"

definition print_request :: handler where
  "print_request = (\<lambda>request. [response_new 200 []])"

definition print_request_server :: web_server where
  "print_request_server = add_route_handler (str ''/'') print_request web_server_new"

text \<open>What the server of \<open>HelloWorld.cpp\<close> sends for every request.\<close>

definition hello_octets :: "env \<Rightarrow> octets" where
  "hello_octets e =
     str ''HTTP/1.1 200 '' @ [0xf0, 0x9f, 0x98, 0x8e] @ [CH_CR, CH_LF]
     @ render_headers (e_order e
         [(str ''content-length'', str ''14''), (str ''date'', e_now e), (str ''server'', str ''Shitty'')])
     @ str ''Hello, world!'' @ [CH_LF]"

lemma hello_answer:
  assumes "e_routes e = ws_routes hello_world" "take 1 (rq_path r) = str ''/''"
  shows "\<exists>act. answers e r = ([act], Inr ()) \<and> action_octets act = hello_octets e"
proof -
  let ?body = "str ''Hello, world!'' @ [CH_LF]"
  have "to_decimal 14 = str ''14''"
    by (subst to_decimal.simps, subst to_decimal.simps) (simp add: str_def of_char_def)
  moreover have "length ?body = 14" by (simp add: str_def)
  ultimately have len: "to_decimal (length ?body) = str ''14''" by (simp only:)
  have "routes_dispatch (e_routes e) (received r) = [add_standard_headers (response_of_body ?body)]"
    using assms(2) by (simp add: assms(1) hello_world_def add_route_response_def web_server_new_def add_handler_def
        static_responder_def received_def) (simp add: str_def)
  then have "answers e r = send_responses e [add_standard_headers (response_of_body ?body)]" by (simp add: answers_def)
  also have "\<dots> = ([Send_payload [str ''HTTP/1.1 200 '' @ [0xf0, 0x9f, 0x98, 0x8e], [CH_CR, CH_LF],
      render_headers (e_order e [(str ''content-length'', str ''14''), (str ''date'', e_now e), (str ''server'', str ''Shitty'')]),
      ?body]], Inr ())"
  proof -
    have "add_standard_headers (response_of_body ?body)
        = \<lparr>rs_message = \<lparr>m_body = ?body, m_headers = [(str ''content-length'', str ''14'')]\<rparr>, rs_status = 200\<rparr>"
      using len by (simp add: add_standard_headers_def response_of_body_def message_of_body_def hdr_set_def hdr_remove_def hdr_add_def
          del: length_append)
    moreover have "outgoing_headers e \<lparr>m_body = ?body, m_headers = [(str ''content-length'', str ''14'')]\<rparr>
        = [(str ''content-length'', str ''14''), (str ''date'', e_now e), (str ''server'', str ''Shitty'')]"
      by (simp add: outgoing_headers_def set_general_server_headers_def set_date_header_def set_server_header_def
          set_content_length_def hdr_matching_def hdr_add_def PRODUCT_def ci_equal_def str_def)
    moreover have "status_line 200 = Inr (str ''HTTP/1.1 200 '' @ [0xf0, 0x9f, 0x98, 0x8e])"
      by (simp add: status_line_def status_string_def str_def of_char_def Let_def)
    ultimately show ?thesis by (simp add: send_response_def send_message_def run_simps)
  qed
  finally show ?thesis by (simp add: hello_octets_def)
qed

text \<open>C4: The whole program of \<open>HelloWorld.cpp\<close>: whatever paths a client asks for, with whatever simple
  requests, one after the other, and however they are cut into segments and bursts, when its
  socket neither fails nor closes nor has room again right after it was full: the connection stays
  open, and the octets taken by the socket, followed by those queued because it was full, are the
  same response once for each request, and nothing else; when the socket has room, all of them
  have been taken.\<close>

theorem hello_world_serves:
  assumes "e_routes e = ws_routes hello_world" "rs \<noteq> []" "\<forall>r\<in>set rs. simple_request e r \<and> take 1 (rq_path r) = str ''/''"
    "concat (concat bursts) = concat (map request_octets rs)" "[] \<notin> set (concat bursts)" "length garbage = PAYLOAD_CAPACITY"
    "sound_socket (length rs * length (hello_octets e)) io"
  shows "\<exists>cl io'. read_bursts e garbage bursts io client_new = Inr (cl, io') \<and> \<not> closed (cl_out cl)
    \<and> wire (cl_out cl) @ content (outgoing (cl_out cl)) = concat (replicate (length rs) (hello_octets e))
    \<and> cl_in cl = []
    \<and> (roomy_socket (length rs * length (hello_octets e)) io \<and> length rs \<le> length io
        \<longrightarrow> wire (cl_out cl) = concat (replicate (length rs) (hello_octets e)))"
proof -
  let ?acts = "\<lambda>r. fst (answers e r)"
  have ans: "\<forall>r\<in>set rs. simple_request e r \<and> answers e r = (?acts r, Inr ())"
    using hello_answer[OF assms(1)] assms(3) by fastforce
  have "calls_octets (concat (map ?acts rs)) = concat (replicate (length rs) (hello_octets e)) \<and> length (concat (map ?acts rs)) = length rs"
    if "\<forall>r\<in>set rs. take 1 (rq_path r) = str ''/''" for rs
    using that
  proof (induction rs)
    case (Cons r rs)
    obtain act where "answers e r = ([act], Inr ())" "action_octets act = hello_octets e"
      using hello_answer[OF assms(1), of r] Cons.prems by auto
    then show ?case using Cons.IH Cons.prems by simp
  qed simp
  then have octets: "calls_octets (concat (map ?acts rs)) = concat (replicate (length rs) (hello_octets e))"
    "length (concat (map ?acts rs)) = length rs"
    using assms(3) by blast+
  have len: "length (concat (replicate (length rs) (hello_octets e))) = length rs * length (hello_octets e)"
    by (induction rs) simp_all
  have "\<forall>a\<in>set (concat (map ?acts rs)). sends_something a" using ans answers_send by fastforce
  from client_answered[OF pipeline_feed[OF assms(2) ans assms(4,5)] assms(5,6) this, of io] assms(7)
  show ?thesis unfolding octets len by blast
qed

theorem hello_world_serves_witness:
  "\<exists>cl io'. read_bursts (plain_env (ws_routes hello_world)) (replicate 1440 0)
      [[request_octets plain_request @ take 5 (request_octets plain_request)], [drop 5 (request_octets plain_request)]]
      (replicate 2 (Sent (2 * length (hello_octets (plain_env (ws_routes hello_world)))))) client_new = Inr (cl, io')
    \<and> \<not> closed (cl_out cl)
    \<and> wire (cl_out cl) = hello_octets (plain_env (ws_routes hello_world)) @ hello_octets (plain_env (ws_routes hello_world))"
proof -
  let ?e = "plain_env (ws_routes hello_world)" and ?o = "request_octets plain_request"
  let ?io = "replicate 2 (Sent (2 * length (hello_octets ?e)))" and ?rs = "[plain_request, plain_request]"
  have "14 \<le> length ?o" by (rule request_octets_length)
  then have segments: "[] \<notin> set (concat [[?o @ take 5 ?o], [drop 5 ?o]])" by auto
  have rs: "\<forall>r\<in>set ?rs. simple_request ?e r \<and> take 1 (rq_path r) = str ''/''"
    using plain_request_simple by (simp add: plain_request_def str_def)
  have roomy: "roomy_socket (length ?rs * length (hello_octets ?e)) ?io" by (simp add: roomy_socket_def)
  have "hello_octets ?e \<noteq> []" by (simp add: hello_octets_def)
  then have "sound_socket (length ?rs * length (hello_octets ?e)) ?io" by (intro roomy_sound[OF roomy]) simp
  moreover have "e_routes ?e = ws_routes hello_world" "length (replicate 1440 0 :: octets) = PAYLOAD_CAPACITY"
    "concat (concat [[?o @ take 5 ?o], [drop 5 ?o]]) = concat (map request_octets ?rs)"
    by (simp_all add: plain_env_def PAYLOAD_CAPACITY_def)
  moreover have "concat [hello_octets ?e, hello_octets ?e] = hello_octets ?e @ hello_octets ?e" by simp
  ultimately show ?thesis
    using hello_world_serves[OF _ _ rs _ segments, of "replicate 1440 0" ?io] roomy
    by (auto simp del: read_bursts.simps on_poll_in.simps concat.simps)
qed

end
