(* ===== verification/Safe_Fd.thy ===== *)
theory Safe_Fd
  imports Server_Setup
begin

text \<open>
  \<open>src/safefd.h\<close>: an object that owns a descriptor and closes it.  Moving exchanges the descriptors
  of two objects; a new object that is moved to gives -1 in exchange.  The answer of \<open>::close\<close> is an
  argument; as documented for Linux, the descriptor is released even when the call fails.
\<close>

section \<open>The class\<close>

record safe_fd =
  sf_fd :: int

definition safe_fd_new :: "int \<Rightarrow> safe_fd" where
  "safe_fd_new fd = \<lparr>sf_fd = fd\<rparr>"

definition safe_fd_swap :: "safe_fd \<Rightarrow> safe_fd \<Rightarrow> safe_fd \<times> safe_fd" where
  "safe_fd_swap s other = (s\<lparr>sf_fd := sf_fd other\<rparr>, other\<lparr>sf_fd := sf_fd s\<rparr>)"

definition safe_fd_move :: "safe_fd \<Rightarrow> safe_fd \<times> safe_fd" where
  "safe_fd_move other = (let s = \<lparr>sf_fd = - 1\<rparr> in (s\<lparr>sf_fd := sf_fd other\<rparr>, other\<lparr>sf_fd := sf_fd s\<rparr>))"

definition safe_fd_assign :: "safe_fd \<Rightarrow> safe_fd \<Rightarrow> safe_fd \<times> safe_fd" where
  "safe_fd_assign s other = (s\<lparr>sf_fd := sf_fd other\<rparr>, other\<lparr>sf_fd := sf_fd s\<rparr>)"

definition safe_fd_get :: "safe_fd \<Rightarrow> int" where
  "safe_fd_get s = sf_fd s"

definition safe_fd_valid :: "safe_fd \<Rightarrow> bool" where
  "safe_fd_valid s \<longleftrightarrow> sf_fd s \<noteq> - 1"

definition safe_fd_release :: "safe_fd \<Rightarrow> int \<times> safe_fd" where
  "safe_fd_release s = (let fd = sf_fd s in (fd, s\<lparr>sf_fd := - 1\<rparr>))"

definition safe_fd_close :: "bool \<Rightarrow> safe_fd \<Rightarrow> process \<Rightarrow> (http_error + unit) \<times> safe_fd \<times> process" where
  "safe_fd_close succeeds s pr =
     (if sf_fd s = - 1 then (Inr (), s, pr)
      else if succeeds then (Inr (), s\<lparr>sf_fd := - 1\<rparr>, close_fd (sf_fd s) pr)
      else (Inl E_runtime, s, close_fd (sf_fd s) pr))"

definition safe_fd_reset :: "bool \<Rightarrow> safe_fd \<Rightarrow> process \<Rightarrow> (http_error + unit) \<times> safe_fd \<times> process" where
  "safe_fd_reset = safe_fd_close"

text \<open>The destructor drops the exception.\<close>

definition safe_fd_delete :: "bool \<Rightarrow> safe_fd \<Rightarrow> process \<Rightarrow> process" where
  "safe_fd_delete succeeds s pr = (case safe_fd_close succeeds s pr of (_, _, pr) \<Rightarrow> pr)"

definition safe_fd_equal :: "safe_fd \<Rightarrow> safe_fd \<Rightarrow> bool" where
  "safe_fd_equal s other \<longleftrightarrow> sf_fd s = sf_fd other"

definition safe_fd_hash :: "safe_fd \<Rightarrow> 64 word" where
  "safe_fd_hash s = word_of_int (sf_fd s)"


section \<open>Ownership\<close>

text \<open>
  The objects of a program, by their number: objects are made for new descriptors, moved, assigned,
  exchanged, released, closed and destroyed.
\<close>

type_synonym owners = "nat \<Rightarrow> safe_fd option"

inductive fd_step :: "bool \<Rightarrow> owners \<times> process \<Rightarrow> owners \<times> process \<Rightarrow> bool" for succeeds where
  step_new: "m i = None \<Longrightarrow> fd \<noteq> - 1 \<Longrightarrow> fd \<notin> pr_open pr \<Longrightarrow>
    fd_step succeeds (m, pr) (m(i \<mapsto> safe_fd_new fd), open_fd fd pr)"
| step_empty: "m i = None \<Longrightarrow> fd_step succeeds (m, pr) (m(i \<mapsto> safe_fd_new (- 1)), pr)"
| step_move: "m i = None \<Longrightarrow> m j = Some s \<Longrightarrow> safe_fd_move s = (s1, s2) \<Longrightarrow>
    fd_step succeeds (m, pr) (m(i \<mapsto> s1, j \<mapsto> s2), pr)"
| step_assign: "m i = Some s \<Longrightarrow> m j = Some t \<Longrightarrow> i \<noteq> j \<Longrightarrow> safe_fd_assign s t = (s1, t1) \<Longrightarrow>
    fd_step succeeds (m, pr) (m(i \<mapsto> s1, j \<mapsto> t1), pr)"
| step_swap: "m i = Some s \<Longrightarrow> m j = Some t \<Longrightarrow> i \<noteq> j \<Longrightarrow> safe_fd_swap s t = (s1, t1) \<Longrightarrow>
    fd_step succeeds (m, pr) (m(i \<mapsto> s1, j \<mapsto> t1), pr)"
| step_release: "m i = Some s \<Longrightarrow> safe_fd_release s = (fd, s1) \<Longrightarrow> fd_step succeeds (m, pr) (m(i \<mapsto> s1), pr)"
| step_reset: "m i = Some s \<Longrightarrow> safe_fd_reset succeeds s pr = (result, s1, pr1) \<Longrightarrow>
    fd_step succeeds (m, pr) (m(i \<mapsto> s1), pr1)"
| step_delete: "m i = Some s \<Longrightarrow> fd_step succeeds (m, pr) (m(i := None), safe_fd_delete succeeds s pr)"

inductive fd_run :: "bool \<Rightarrow> owners \<times> process \<Rightarrow> bool" for succeeds where
  fd_start: "fd_run succeeds (Map.empty, pr)"
| fd_next: "fd_run succeeds st \<Longrightarrow> fd_step succeeds st st' \<Longrightarrow> fd_run succeeds st'"

text \<open>What an object owns is open, and nobody else owns it.\<close>

definition owners_ok :: "owners \<times> process \<Rightarrow> bool" where
  "owners_ok st \<longleftrightarrow> (case st of (m, pr) \<Rightarrow>
     \<forall>i s. m i = Some s \<longrightarrow> sf_fd s \<noteq> - 1 \<longrightarrow>
       sf_fd s \<in> pr_open pr \<and> (\<forall>j t. m j = Some t \<longrightarrow> sf_fd t = sf_fd s \<longrightarrow> j = i))"

lemmas safe_fd_defs = safe_fd_new_def safe_fd_swap_def safe_fd_move_def safe_fd_assign_def safe_fd_release_def
  safe_fd_close_def safe_fd_reset_def safe_fd_delete_def Let_def

lemma fd_step_ok: "fd_step True st st' \<Longrightarrow> owners_ok st \<Longrightarrow> owners_ok st'"
  by (induction rule: fd_step.induct)
    (auto simp: owners_ok_def safe_fd_defs open_fd_def close_fd_def split: if_splits)

lemma safe_fd_owner: "fd_run True st \<Longrightarrow> owners_ok st"
proof (induction rule: fd_run.induct)
  case (fd_start pr)
  then show ?case by (simp add: owners_ok_def)
qed (rule fd_step_ok)

text \<open>A close that fails leaves the object with a descriptor that is not open any more, and the
  destructor closes it once more, whoever has got it in between.\<close>

lemma failed_close_closes_again:
  assumes "sf_fd s \<noteq> - 1"
  shows "\<exists>s1 pr1. safe_fd_reset False s pr = (Inl E_runtime, s1, pr1) \<and> sf_fd s1 \<notin> pr_open pr1
    \<and> sf_fd s1 \<in> pr_open (open_fd (sf_fd s) pr1)
    \<and> sf_fd s1 \<notin> pr_open (safe_fd_delete True s1 (open_fd (sf_fd s) pr1))"
  using assms by (auto simp: safe_fd_defs close_fd_def open_fd_def)

end
