(* ===== verification/Http1_Invariant.thy ===== *)
theory Http1_Invariant
  imports Http1_Upgrade
begin

text \<open>
  The states an HTTP/1 transport (\<open>src/http1/Transport.cpp\<close>) can be in: which combinations of its
  members occur, whatever the peer sends and whatever the handler of messages does.
\<close>

section \<open>Well-formed states\<close>

text \<open>
  Between two messages the state is the initial one.  While the head is read there is no body yet;
  behind the head a body is expected and not yet complete.  The last header is one of the
  message, so that a continuation line finds it.
\<close>

definition h1_wf :: "h1 \<Rightarrow> bool" where
  "h1_wf s \<longleftrightarrow>
     (case h1_incoming s of
        None \<Rightarrow> s = h1_new
      | Some m \<Rightarrow>
          (if h1_headers_complete s then - 1 \<le> h1_expected s \<and> int (length (m_body (im_message m))) \<noteq> h1_expected s
           else h1_expected s = 0 \<and> m_body (im_message m) = []) \<and>
          (h1_last_header s \<noteq> [] \<longrightarrow> hdr_matching (h1_last_header s) (m_headers (im_message m)) \<noteq> []))"

fun h1_state_wf :: "'t h1_state \<Rightarrow> bool" where
  "h1_state_wf (Active s) = h1_wf s"
| "h1_state_wf (Replaced t) = True"

lemma h1_wf_new [simp]: "h1_wf h1_new"
  by (simp add: h1_wf_def h1_new_def)

lemma reset_is_new: "reset_incoming_message s = h1_new"
  by (simp add: reset_incoming_message_def h1_new_def)

lemma extend_entry_matching:
  "hdr_matching n (extend_entry h xs hs) = [] \<longleftrightarrow> hdr_matching n hs = []"
  by (induction hs) (auto simp: hdr_matching_def split_beta)

lemma get_content_length_range: "get_content_length pick hs = Inr n \<Longrightarrow> - 1 \<le> n"
  by (auto simp: get_content_length_def split: option.splits if_splits prod.splits)

lemma handle_message_wf: "handle_message e c s = (acts, Inr t) \<Longrightarrow> h1_state_wf t"
  by (auto simp: handle_message_def raise_def return_def Let_def and_then_Inr reset_is_new split: option.splits)

lemma header_line_wf:
  assumes "header_line line s = Inr s'" "h1_wf s" "h1_incoming s \<noteq> None"
  shows "h1_wf s'"
  using assms
  by (auto simp: header_line_def h1_wf_def set_message_headers_def message_headers_def Let_def split: option.splits)

lemma header_continuation_wf:
  assumes "header_continuation e line s = Inr s'" "h1_wf s" "h1_incoming s \<noteq> None"
  shows "h1_wf s'"
  using assms
  by (auto simp: header_continuation_def h1_wf_def set_message_headers_def message_headers_def extend_entry_matching
      split: option.splits if_splits)

lemma header_continuation_finds: "h1_wf s \<Longrightarrow> header_continuation e line s \<noteq> Inl E_logic"
  by (auto simp: header_continuation_def h1_wf_def h1_new_def message_headers_def hdr_find_def Let_def
      split: option.splits if_splits)

lemma process_line_wf:
  assumes "process_line e c line s = (acts, Inr (go, t))" "h1_wf s" "\<not> h1_headers_complete s"
  shows "h1_state_wf t"
proof (cases "h1_incoming s")
  case None
  then show ?thesis
    using assms by (auto simp: process_line_def return_def h1_wf_def h1_new_def message_new_def)
next
  case (Some m)
  show ?thesis
  proof (cases "line = []")
    case True
    obtain n a1 a2 where "get_content_length (e_pick e) (message_headers s) = Inr n"
      and t: "(if is_message_complete (s\<lparr>h1_headers_complete := True, h1_expected := n\<rparr>)
         then and_then (handle_message e c (s\<lparr>h1_headers_complete := True, h1_expected := n\<rparr>)) (\<lambda>t. return (True, t))
         else return (False, Active (s\<lparr>h1_headers_complete := True, h1_expected := n\<rparr>))) = (a2, Inr (go, t))"
      using assms(1) Some True
      by (auto simp: process_line_def mark_headers_complete_def and_then_Inr return_def lift_sum_def)
    then show ?thesis
      using assms(2) Some get_content_length_range
      by (auto simp: and_then_Inr return_def is_message_complete_def h1_wf_def handle_message_wf split: if_splits)
  next
    case False
    then show ?thesis
      using assms Some header_line_wf[of line s] header_continuation_wf[of e line s]
      by (auto simp: process_line_def and_then_Inr return_def lift_sum_def split: if_splits)
  qed
qed

lemma process_input_wf:
  assumes "process_input e c t buf = (acts, Inr (go, t', rest))" "h1_state_wf t"
  shows "h1_state_wf t'"
proof -
  obtain s where t: "t = Active s" "h1_wf s" using assms by (cases t) (auto simp: process_input_def raise_def)
  show ?thesis
  proof (cases "h1_headers_complete s")
    case True
    then obtain m where m: "h1_incoming s = Some m" "\<not> is_message_complete s"
      using t(2) by (auto simp: h1_wf_def h1_new_def is_message_complete_def split: option.splits)
    show ?thesis
    proof (cases "buf = []")
      case False
      then show ?thesis
        using assms(1) t True m
        by (auto simp: process_input_def read_body_def read_chunked_def read_content_def raise_def return_def lift_sum_def
            and_then_Inr append_body_def handle_message_wf Let_def h1_wf_def is_message_complete_def split: if_splits)
    qed (use assms t in \<open>simp add: process_input_def return_def\<close>)
  next
    case False
    then show ?thesis
      using assms(1) t process_line_wf[of e c _ s]
      by (auto simp: process_input_head and_then_Inr return_def split: option.splits prod.splits)
  qed
qed

lemma h1_on_input_wf:
  assumes "h1_on_input e c st buf = (acts, Inr (t, rest))"
  shows "h1_state_wf st \<longrightarrow> h1_state_wf t"
  using assms by (induction rule: h1_input.loop_induct) (auto dest: process_input_wf)

text \<open>C10: Whatever arrives, and whatever the handlers do, the transport stays in a well-formed state: a
  new message begins in the initial state, no body is attached before the head is complete, and
  a continuation line always finds the header it continues.\<close>

theorem h1_well_formed:
  assumes "h1_wf s"
  shows "(case snd (h1_on_input e c (Active s) buf) of Inr (t, rest) \<Rightarrow> h1_state_wf t | Inl err \<Rightarrow> True)
    \<and> header_continuation e line s \<noteq> Inl E_logic"
  using h1_on_input_wf[of e c "Active s" buf] assms header_continuation_finds[OF assms]
  by (cases "h1_on_input e c (Active s) buf") (auto split: sum.splits)

theorem h1_well_formed_witness:
  "(case snd (h1_on_input (plain_env []) (h1_server (plain_env [])) (Active h1_new) [71, 10, 32, 10]) of
      Inr (t, rest) \<Rightarrow> h1_state_wf t | Inl err \<Rightarrow> True)
    \<and> header_continuation (plain_env []) [32] h1_new \<noteq> Inl E_logic"
  by (rule h1_well_formed) simp

end
