(* ===== verification/Hpack_Static.thy ===== *)
theory Hpack_Static
  imports Hpack_Blocks
begin

text \<open>
  \<open>enum class StaticHeader\<close> of \<open>src/dependencies/hpack/header.cpp\<close>: names for the entries of the static
  table.  The enumerators are strings here, in the order of the code; the first has the value 1.
\<close>

definition static_headers :: "string list" where
  "static_headers =
     [''AUTHORITY'', ''METHOD_GET'', ''METHOD_POST'', ''PATH_SLASH'', ''PATH_SLASH_INDEX_HTML'', ''SCHEME_HTTP'', ''SCHEME_HTTPS'',
      ''STATUS_200'', ''STATUS_204'', ''STATUS_206'', ''STATUS_304'', ''STATUS_400'', ''STATUS_404'', ''STATUS_500'',
      ''ACCEPT_CHARSET'', ''ACCEPT_ENCODING_GZIP_DEFLATE'', ''ACCEPT_LANGUAGE'', ''ACCEPT_RANGES'', ''ACCEPT'',
      ''ACCESS_CONTROL_ALLOW_ORIGIN'', ''AGE'', ''ALLOW'', ''AUTHORIZATION'', ''CACHE_CONTROL'', ''CONTENT_DISPOSITION'',
      ''CONTENT_ENCODING'', ''CONTENT_LANGUAGE'', ''CONTENT_LENGTH'', ''CONTENT_LOCATION'', ''CONTENT_RANGE'', ''CONTENT_TYPE'',
      ''COOKIE'', ''DATE'', ''ETAG'', ''EXPECT'', ''EXPIRES'', ''FROM'', ''HOST'', ''IF_MATCH'', ''IF_MODIFIED_SINCE'',
      ''IF_NONE_MATCH'', ''IF_RANGE'', ''IF_UNMODIFIED_SINCE'', ''LAST_MODIFIED'', ''LINK'', ''LOCATION'', ''MAX_FORWARDS'',
      ''PROXY_AUTHENTICATE'', ''PROXY_AUTHORIZATION'', ''RANGE'', ''REFERER'', ''REFRESH'', ''RETRY_AFTER'', ''SERVER'',
      ''SET_COOKIE'', ''STRICT_TRANSPORT_SECURITY'', ''TRANSFER_ENCODING'', ''USER_AGENT'', ''VARY'', ''VIA'', ''WWW_AUTHENTICATE'']"

definition static_header :: "string \<Rightarrow> nat" where
  "static_header name = length (takeWhile (\<lambda>n. n \<noteq> name) static_headers) + 1"

text \<open>
  The name an entry has by the convention of the enumeration: its words in capitals, which differ
  from small letters (and from them alone in the table) in bit 5 of an octet with bit 6.
\<close>

fun capital :: "char \<Rightarrow> char" where
  "capital (Char b0 b1 b2 b3 b4 b5 b6 b7) = Char b0 b1 b2 b3 b4 (b5 \<and> \<not> b6) b6 b7"

fun words_of :: "string \<Rightarrow> string \<Rightarrow> string list" where
  "words_of w [] = (if w = [] then [] else [rev w])"
| "words_of w (c # cs) =
     (if c \<in> set ''-:., '' then (if w = [] then [] else [rev w]) @ words_of [] cs
      else if c = CHR ''/'' then (if w = [] then [] else [rev w]) @ ''slash'' # words_of [] cs
      else words_of (c # w) cs)"

fun joined :: "string list \<Rightarrow> string" where
  "joined [] = ''''"
| "joined [w] = map capital w"
| "joined (w # ws) = map capital w @ ''_'' @ joined ws"

definition entry_name :: "string \<times> string \<Rightarrow> string" where
  "entry_name e = joined (words_of [] (fst e) @ words_of [] (snd e))"

text \<open>Each enumerator is the number of the entry it names.\<close>

lemma static_headers_entries: "static_headers = map entry_name (tl static_table)"
  by code_simp

lemma static_headers_distinct: "distinct static_headers"
  by code_simp

lemma takeWhile_distinct: "distinct xs \<Longrightarrow> k < length xs \<Longrightarrow> takeWhile (\<lambda>x. x \<noteq> xs ! k) xs = take k xs"
  by (intro takeWhile_eq_take_P_nth) (auto simp: nth_eq_iff_index_eq)

lemma static_header_entry:
  assumes "0 < i" "i < length static_table"
  shows "static_header (entry_name (static_table ! i)) = i"
proof -
  have i: "i - 1 < length static_headers" "entry_name (static_table ! i) = static_headers ! (i - 1)"
    using assms by (simp_all add: static_headers_entries nth_tl)
  show ?thesis
    unfolding static_header_def i(2) takeWhile_distinct[OF static_headers_distinct i(1)] using i(1) assms(1) by simp
qed

end
