(* ===== verification/Headers_Frame.thy ===== *)
theory Headers_Frame
  imports Http2_Transport
begin

text \<open>
  The rest of \<open>src/http2/HeadersFrame.h\<close> and \<open>src/http2/ServerStream.h\<close>: the tests of the flags and the
  members the transport does not call.  The frames a program can build are an inductive
  predicate; in each of them the header agrees with what follows it, so a reader finds its end.
\<close>

section \<open>The code\<close>

definition hf_is_end_stream :: "headers_frame \<Rightarrow> bool" where
  "hf_is_end_stream f = flag_test 0 (hf_header f)"

definition hf_is_end_headers :: "headers_frame \<Rightarrow> bool" where
  "hf_is_end_headers f = flag_test 2 (hf_header f)"

definition hf_is_padded :: "headers_frame \<Rightarrow> bool" where
  "hf_is_padded f = flag_test 3 (hf_header f)"

definition hf_is_priority :: "headers_frame \<Rightarrow> bool" where
  "hf_is_priority f = flag_test 5 (hf_header f)"

definition stream_set_state :: "stream_state \<Rightarrow> stream \<Rightarrow> stream" where
  "stream_set_state st s = s\<lparr>st_state := st\<rparr>"

definition available_window_size :: "stream \<Rightarrow> int" where
  "available_window_size s = st_window s"


section \<open>The frames that can be built\<close>

inductive hf_built :: "headers_frame \<Rightarrow> bool" where
  new: "hf_built (headers_frame_new sid)"
| end_stream: "hf_built f \<Longrightarrow> hf_built (hf_set_end_stream v f)"
| end_headers: "hf_built f \<Longrightarrow> hf_built (hf_set_end_headers v f)"
| is_priority: "hf_built f \<Longrightarrow> hf_built (hf_set_is_priority v f)"
| weight: "hf_built f \<Longrightarrow> hf_set_weight w f = Inr f' \<Longrightarrow> hf_built f'"
| fragment: "hf_built f \<Longrightarrow> hf_built (hf_set_fragment frag f)"
| padded: "hf_built f \<Longrightarrow> hf_built (hf_set_padding pdg f)"

definition hf_ok :: "headers_frame \<Rightarrow> bool" where
  "hf_ok f \<longleftrightarrow> fh_type (hf_header f) = FT_HEADERS \<and> \<not> fh_reserved (hf_header f)
     \<and> fh_length (hf_header f) = ucast (hf_length f) \<and> hf_is_padded f = (hf_padding f \<noteq> [])"

lemma flag_test_set: "i < 8 \<Longrightarrow> flag_test i (flag_set j v h) = (if i = j then v else flag_test i h)"
  by (auto simp: flag_test_def flag_set_def bit_simps)

lemma flag_set_fields [simp]:
  "fh_type (flag_set i v h) = fh_type h" "fh_length (flag_set i v h) = fh_length h"
  "fh_reserved (flag_set i v h) = fh_reserved h" "fh_stream (flag_set i v h) = fh_stream h"
  by (simp_all add: flag_set_def)

lemma flag_test_length [simp]: "flag_test i (h\<lparr>fh_length := n\<rparr>) = flag_test i h"
  by (simp add: flag_test_def)

lemmas hf_defs =
  hf_is_end_stream_def hf_is_end_headers_def hf_is_padded_def hf_is_priority_def hf_set_end_stream_def
  hf_set_end_headers_def hf_set_is_priority_def hf_set_fragment_def hf_set_padding_def hf_length_def

lemma hf_built_ok: "hf_built f \<Longrightarrow> hf_ok f"
proof (induction rule: hf_built.induct)
  case (new sid)
  show ?case by (simp add: hf_ok_def headers_frame_new_def hf_defs flag_test_set frame_header_new_def) (simp add: flag_test_def)
next
  case (weight f w f')
  then show ?case by (auto simp: hf_ok_def hf_set_weight_def hf_defs split: if_splits)
qed (simp_all add: hf_ok_def hf_defs flag_test_set Let_def)

text \<open>Each setter changes what it is meant to change and no other flag; a weight is read back.\<close>

lemma hf_flags:
  "hf_is_end_stream (hf_set_end_stream v f) = v" "hf_is_end_headers (hf_set_end_stream v f) = hf_is_end_headers f"
  "hf_is_end_headers (hf_set_end_headers v f) = v" "hf_is_end_stream (hf_set_end_headers v f) = hf_is_end_stream f"
  "hf_is_priority (hf_set_is_priority v f) = v" "hf_is_priority (hf_set_end_stream v f) = hf_is_priority f"
  "hf_is_end_stream (hf_set_padding pdg f) = hf_is_end_stream f" "hf_is_end_headers (headers_frame_new sid)"
  by (simp_all add: hf_defs headers_frame_new_def flag_test_set Let_def)

lemma hf_weight_roundtrip: "hf_set_weight w f = Inr f' \<Longrightarrow> hf_get_weight f' = w"
  by (auto simp: hf_set_weight_def hf_get_weight_def unat_of_nat simp del: of_nat_diff split: if_splits)

lemma ucast_length:
  assumes "n < 2 ^ 24"
  shows "unat (ucast (of_nat n :: u32) :: 24 word) = n"
  using assms by (simp add: unsigned_ucast_eq take_bit_eq_mod unat_of_nat)

text \<open>What is written of such a frame reads back as its header and, behind it, as many octets as the
  header says: the fragment and the padding.  A length octet for the padding, which RFC 7540, 6.2,
  wants at the front of a padded frame, is not among them.\<close>

lemma headers_frame_framed:
  assumes "hf_built f" "length (hf_fragment f @ hf_padding f) < 2 ^ 24"
    "\<forall>c\<in>set (frame_header_octets (hf_header f)). char_exact cs c"
  shows "read_frame_header cs (concat (headers_frame_pieces f) @ rest)
      = Inr (hf_header f, (hf_fragment f @ hf_padding f) @ rest)"
    "unat (fh_length (hf_header f)) = length (hf_fragment f @ hf_padding f)"
  using hf_built_ok[OF assms(1)] assms(2) read_frame_header_octets[OF assms(3)]
  by (simp_all add: headers_frame_pieces_def hf_ok_def hf_length_def ucast_length flip: of_nat_add)

text \<open>The check of \<open>receiveData\<close> is right in itself: on a stream that \<open>setState\<close> has made \<open>Open\<close>, a DATA
  frame passes it and takes its length from the window.  No such stream exists, since nothing
  calls \<open>setState\<close>.\<close>

lemma open_stream_takes_data:
  assumes "fh_stream h \<noteq> 0" "h2_streams s (fh_stream h) = Some (stream_set_state Open st)"
    "0 \<le> available_window_size st" "available_window_size st \<le> INT32_MAX"
  shows "\<exists>st'. data_stream h s = Inr st' \<and> available_window_size st' = available_window_size st - int (unat (fh_length h))
    \<and> st_state st' = Open"
proof -
  have "uint (fh_length h) < 2 ^ 24" "0 \<le> uint (fh_length h)"
    using unsigned_less[of "fh_length h", where ?'a = int] by simp_all
  then have "st_window st - uint (fh_length h) \<le> INT32_MAX"
    using assms(4) unfolding available_window_size_def by linarith
  with \<open>uint (fh_length h) < 2 ^ 24\<close> show ?thesis
    using assms by (simp add: data_stream_def h2_get_stream_def stream_set_state_def available_window_size_def
        stream_subtract_window_size_def subtract_window_size_def int32_def int32_ok_def INT32_MAX_def INT32_MIN_def)
qed

end
