(* ===== verification/Repo_Tests.thy ===== *)
theory Repo_Tests
  imports Hpack_Blocks Http_Text
begin

text \<open>
  The tests and benchmarks of the repository, as functions: \<open>src/dependencies/hpack/test.c\<close>, the tests
  of \<open>huffy\<close>, and the classes of \<open>src/benchmarks\<close>.  A test yields its exit status; \<open>None\<close> is undefined
  behaviour.  What a test leaves uninitialised, and the octets \<open>random-test.c\<close> reads, are arguments;
  messages to the standard error are left out.  The theorems say which tests succeed, for every
  value of these arguments.
\<close>

section \<open>Numbers: test.c\<close>

definition encode_tests :: "byte list \<Rightarrow> byte list \<Rightarrow> int" where
  "encode_tests buf shortbuf =
     (let buf = buf[0 := 0];
          (r, b) = encode_number 10 5 (Some buf) (length buf)
      in if r \<noteq> 1 then 1
         else if the b ! 0 \<noteq> 10 then 1
         else
           let (r, b) = encode_number 1337 5 b (length buf)
           in if r \<noteq> 3 then 1
              else if the b ! 0 \<noteq> 31 \<or> the b ! 1 \<noteq> 154 \<or> the b ! 2 \<noteq> 10 then 1
              else
                let (r, b) = encode_number 42 8 b 1
                in if r \<noteq> 1 \<or> the b ! 0 \<noteq> 42 then 1
                   else
                     let (r, s) = encode_number 1337 5 (Some shortbuf) (length shortbuf)
                     in if 0 \<le> r then 1
                        else
                          let (r, s) = encode_number 64 5 s (length shortbuf)
                          in if 0 \<le> r then 1 else 0)"

definition decode_inputs :: "(byte list \<times> nat \<times> u64) list" where
  "decode_inputs = [([0x0a], 5, 10), ([0xea], 5, 10), ([0x1f, 0x9a, 0x0a], 5, 1337)]"

definition decode_test :: "byte list \<times> nat \<times> u64 \<Rightarrow> bool" where
  "decode_test input =
     (case input of (bytes, bits, expect) \<Rightarrow>
        (case decode_number (Some bytes) (length bytes) bits (Some 0x7fffffffffffffff) of
           (used, number) \<Rightarrow> used = int (length bytes) \<and> number = Some expect))"

definition decode_tests :: int where
  "decode_tests = (if \<forall>input\<in>set decode_inputs. decode_test input then 0 else - 1)"

primrec sequence_from :: "nat \<Rightarrow> u64 \<Rightarrow> byte list \<Rightarrow> int" where
  "sequence_from 0 i buf = 0"
| "sequence_from (Suc n) i buf =
     (case encode_number i 7 (Some buf) (length buf) of
        (len, b) \<Rightarrow>
          if len < 1 then 1
          else (case decode_number b (length buf) 7 (Some (NOT i)) of
                  (used, decoded) \<Rightarrow>
                    if used \<noteq> len then 1
                    else if decoded \<noteq> Some i then 1
                    else sequence_from n (i + 1) (the b)))"

definition sequence_tests :: "byte list \<Rightarrow> int" where
  "sequence_tests buf = sequence_from 100000 0 buf"

definition number_tests :: "byte list \<Rightarrow> byte list \<Rightarrow> byte list \<Rightarrow> int" where
  "number_tests buf shortbuf seqbuf =
     (if encode_tests buf shortbuf \<noteq> 0 then 1
      else if decode_tests \<noteq> 0 then 1
      else if sequence_tests seqbuf \<noteq> 0 then 1
      else 0)"

text \<open>The representations the tests expect.\<close>

lemma test_representations:
  "hpack_int 5 0 10 = [10]" "hpack_int 5 10 1337 = [31, 154, 10]" "hpack_int 8 31 42 = [42]"
  "length (hpack_int 5 x 1337) = 3" "length (hpack_int 5 x 64) = 2"
  by (simp_all add: hpack_int_def venc.simps mask_eq_exp_minus_1)

lemma encode_tests_pass:
  assumes "length buf = 123" "length shortbuf = 1"
  shows "encode_tests buf shortbuf = 0"
proof -
  obtain x xs where buf: "buf = x # xs" "length xs = 122" using assms(1) by (cases buf) auto
  obtain y where short: "shortbuf = [y]" using assms(2) by (cases shortbuf) auto
  have "encode_number 10 5 (Some (0 # xs)) 123 = (1, Some (10 # xs))"
    using encode_number_spec[of 5 123 "0 # xs" 10] buf by (simp add: test_representations)
  moreover have "encode_number 1337 5 (Some (10 # xs)) 123 = (3, Some ([31, 154, 10] @ drop (Suc (Suc 0)) xs))"
    using encode_number_spec[of 5 123 "10 # xs" 1337] buf by (simp add: test_representations)
  moreover have "encode_number 42 8 (Some ([31, 154, 10] @ drop (Suc (Suc 0)) xs)) 1 = (1, Some ([42, 154, 10] @ drop (Suc (Suc 0)) xs))"
    using encode_number_spec[of 8 1 "[31, 154, 10] @ drop (Suc (Suc 0)) xs" 42] by (simp add: test_representations)
  moreover have "encode_number 1337 5 (Some [y]) 1 = (- 1, Some [y OR 31])"
    by (simp add: encode_number_def mask_from_bits_def encode_loop.simps)
  moreover have "fst (encode_number 64 5 (Some [y OR 31]) 1) = - 1"
    using encode_number_spec[of 5 1 "[y OR 31]" 64] by (simp add: test_representations)
  ultimately show ?thesis
    using buf short by (simp add: encode_tests_def split_beta)
qed

lemma decode_tests_pass: "decode_tests = 0"
proof -
  have "decode_test input" if "input \<in> set decode_inputs" for input
    using that decode_number_spec[of 5 1 "[0x0a]"] decode_number_spec[of 5 1 "[0xea]"]
      decode_number_spec[of 5 3 "[0x1f, 0x9a, 0x0a]"]
    by (auto simp: decode_inputs_def decode_test_def numeral_3_eq_3)
  then show ?thesis by (simp add: decode_tests_def)
qed

lemma sequence_from_pass:
  "k + n \<le> 100000 \<Longrightarrow> length buf = 8 \<Longrightarrow> sequence_from n (of_nat k) buf = 0"
proof (induction n arbitrary: k buf)
  case (Suc n)
  let ?e = "hpack_int 7 (hd buf) k"
  have k: "k < 100000" "unat (of_nat k :: u64) = k" using Suc.prems(1) by (simp_all add: unat_of_nat)
  have "length (venc (k - 127)) \<le> 3" using k(1) by (intro length_venc_le) auto
  then have len: "length ?e \<le> 8" "1 \<le> length ?e" by (simp_all add: hpack_int_def)
  let ?b = "?e @ drop (length ?e) buf"
  have enc: "encode_number (of_nat k) 7 (Some buf) 8 = (int (length ?e), Some ?b)"
    using encode_number_spec[of 7 8 buf "of_nat k"] len Suc.prems(2) k(2) by simp
  have "length ?b = 8" using len Suc.prems(2) by simp
  moreover have dec: "decode_number (Some ?b) 8 7 (Some v) = (int (length ?e), Some (of_nat k))" for v
    using decode_hpack_int[of 7 k "hd buf" 8 "drop (length ?e) buf" v] len Suc.prems(2) k(1) by simp
  moreover have "sequence_from n (of_nat (Suc k)) ?b = 0"
    using Suc.IH[of "Suc k" ?b] Suc.prems len by simp
  ultimately show ?case using enc len Suc.prems(2) by (simp add: add.commute)
qed simp

lemma number_tests_pass:
  assumes "length buf = 123" "length shortbuf = 1" "length seqbuf = 8"
  shows "number_tests buf shortbuf seqbuf = 0"
  using encode_tests_pass[OF assms(1,2)] decode_tests_pass sequence_from_pass[of 0 100000 seqbuf] assms(3)
  by (simp add: number_tests_def sequence_tests_def)


section \<open>The bit reader: bitbuf-test.c\<close>

definition bitbuf_input :: "byte list" where
  "bitbuf_input = [0xf1, 0xe3, 0xc2, 0xe5, 0xf2, 0x3a, 0x6b, 0xa0, 0xab, 0x90, 0xf4, 0xff]"

definition symbol_matches :: "byte \<Rightarrow> byte \<Rightarrow> nat \<Rightarrow> bool" where
  "symbol_matches oct symbol bits = (drop_bit (8 - bits) oct = symbol)"

definition bitbuf_expect :: "(byte \<times> nat) list" where
  "bitbuf_expect = [(0x78, 7), (0x78, 7), (0x78, 7), (0x17, 6), (0x05, 5), (0x79, 7), (0x03, 5), (0x29, 6), (0x2b, 6),
     (0x28, 6), (0x05, 5), (0x17, 6), (0x04, 5), (0x07, 5), (0x29, 6)]"

fun bitbuf_loop :: "(byte \<times> nat) list \<Rightarrow> bb_reader \<Rightarrow> bool \<Rightarrow> bool \<times> bb_reader" where
  "bitbuf_loop [] reader ok = (ok, reader)"
| "bitbuf_loop ((symbol, bits) # expect) reader ok =
     bitbuf_loop expect (bb_next reader bits) (ok \<and> symbol_matches (bb_peek reader) symbol bits)"

definition bitbuf_test :: int where
  "bitbuf_test =
     (let (ok, reader) = bitbuf_loop bitbuf_expect (bb_reader_init bitbuf_input) True;
          ok = (ok \<and> symbol_matches (bb_peek reader) 0xff 8)
      in if ok then 0 else 1)"

lemma bitbuf_test_passes: "bitbuf_test = 0"
  by code_simp



section \<open>The Huffman coder: encode-test.c, decode-test.c, random-test.c\<close>

definition encode_test_expect :: "byte list" where
  "encode_test_expect = [0x8c, 0xf1, 0xe3, 0xc2, 0xe5, 0xf2, 0x3a, 0x6b, 0xa0, 0xab, 0x90, 0xf4, 0xff]"

definition encode_test :: "(byte \<Rightarrow> encv) \<Rightarrow> byte list \<Rightarrow> byte list \<Rightarrow> int option" where
  "encode_test et num buf =
     (case huffman_encode et num (str ''www.example.com'') buf of
        None \<Rightarrow> None
      | Some (len, buf) \<Rightarrow>
          if len < 0 then Some 1
          else if length encode_test_expect < nat len then None
          else if nat len = length encode_test_expect \<and> take (nat len) buf = take (nat len) encode_test_expect then Some 0
          else Some 1)"

definition decode_test_input :: "byte list" where
  "decode_test_input =
     [0xd0, 0x7a, 0xbe, 0x94, 0x10, 0x54, 0xd4, 0x44, 0xa8, 0x20, 0x05, 0x95, 0x04, 0x0b, 0x81, 0x66,
      0xe0, 0x82, 0xa6, 0x2d, 0x1b, 0xff]"

text \<open>The text ends with a null octet, which \<open>memcmp\<close> may look at; it looks at \<open>len\<close> octets, however
  many these are.\<close>

definition huffman_decode_test :: "byte list \<Rightarrow> int option" where
  "huffman_decode_test decoded =
     (let expect = str ''Mon, 21 Oct 2013 20:13:21 GMT'' @ [0]
      in case huffman_decode (Some decode_test_input) 8 (Some (take 34 decoded)) of
           Some (len, Some d) \<Rightarrow>
             if len < 0 then Some 1
             else if length expect < nat len then None
             else if take (nat len) d \<noteq> take (nat len) expect then Some 1
             else Some 0
         | _ \<Rightarrow> None)"

text \<open>The loop of \<open>random-test.c\<close> reads an octet before it looks at the length.\<close>

fun skip_prefix :: "byte list \<Rightarrow> nat \<Rightarrow> nat option" where
  "skip_prefix [] encsz = None"
| "skip_prefix (x # xs) encsz =
     (if x AND 0x80 \<noteq> 0 \<and> 0 < encsz then map_option Suc (skip_prefix xs (encsz - 1)) else Some 0)"

text \<open>The test is skipped when the file of random octets cannot be opened or is too short.\<close>

definition random_test ::
  "(byte \<Rightarrow> encv) \<Rightarrow> byte list \<Rightarrow> byte list option \<Rightarrow> byte list \<Rightarrow> byte list \<Rightarrow> int option" where
  "random_test et num file encoded decoded =
     (case file of
        None \<Rightarrow> Some 0
      | Some data \<Rightarrow>
          if length data \<noteq> 1024 then Some 0
          else
            case huffman_encode et num data encoded of
              None \<Rightarrow> None
            | Some (encsz, encoded) \<Rightarrow>
                if encsz < 0 then Some 1
                else
                  (case skip_prefix encoded (nat encsz) of
                     None \<Rightarrow> None
                   | Some start \<Rightarrow>
                       if start = nat encsz then Some 1
                       else
                         let start = start + 1
                         in (case huffman_decode (Some (take (nat encsz - start) (drop start encoded))) 8 (Some decoded) of
                               Some (decsz, Some d) \<Rightarrow>
                                 if decsz \<noteq> int (length data) then Some 1
                                 else if data \<noteq> d then Some 1
                                 else Some 0
                             | _ \<Rightarrow> None)))"

lemma encode_test_passes:
  assumes "generated_etable et" "length num = 10" "length buf = 123"
  shows "encode_test et num buf = Some 0"
proof -
  have "pack (text_bits (str ''www.example.com'')) = tl encode_test_expect"
    by (rule pack_eqI[of _ _ 7])
      (simp_all add: str_def of_char_def encode_test_expect_def symbol_bits_def code_of_eqs bits_simps bit_0)
  then have l: "hpack_huff_string (str ''www.example.com'') = encode_test_expect"
    by (simp add: hpack_huff_string_def hpack_int_def mask_eq_exp_minus_1 encode_test_expect_def)
  have len: "length encode_test_expect = 13" by (simp add: encode_test_expect_def)
  show ?thesis
    using huffman_encode_cases(1)[OF assms(1,2), of buf "str ''www.example.com''"] assms(3)
    by (simp add: encode_test_def l len SSIZE_MAX_def)
qed

lemma decode_test_passes:
  assumes "length decoded = 35"
  shows "huffman_decode_test decoded = Some 0"
proof -
  let ?t = "str ''Mon, 21 Oct 2013 20:13:21 GMT''"
  have "bytes_bits decode_test_input = text_bits ?t @ replicate 6 True"
    by (simp add: str_def of_char_def decode_test_input_def symbol_bits_def code_of_eqs bits_simps bit_0)
  then have t: "huff_text (bytes_bits decode_test_input) = (?t, replicate 6 True)"
    using huff_text_text[of 6 ?t] by simp
  have len: "length ?t = 29" by (simp add: str_def)
  have "huffman_decode (Some decode_test_input) 8 (Some (take 34 decoded)) = Some (29, Some (?t @ drop 29 (take 34 decoded)))"
    using huffman_decode_outcome[of 8 decode_test_input "take 34 decoded"] assms by (simp add: huff_outcome_def t len)
  then show ?thesis by (simp add: huffman_decode_test_def len)
qed

text \<open>\<open>random-test.c\<close> finds the end of the length by the high bits.\<close>

lemma high_bit: "((of_nat n :: byte) AND 0x80 = 0) = even (n div 128)"
proof -
  have "((of_nat n :: byte) AND 2 ^ 7 = 0) = (\<not> bit (of_nat n :: byte) 7)" by (rule and_exp_eq_0_iff_not_bit)
  also have "\<dots> = (\<not> bit n 7)" by (simp add: bit_simps)
  also have "\<dots> = even (n div 2 ^ 7)" by (simp only: bit_iff_odd not_not)
  finally show ?thesis by simp
qed

lemma skip_venc: "length (venc n) \<le> k \<Longrightarrow> skip_prefix (venc n @ ys) k = Some (length (venc n) - 1)"
proof (induction n arbitrary: k rule: venc.induct)
  case (1 n)
  show ?case
  proof (cases "n < 128")
    case True
    then have "(of_nat n :: byte) AND 0x80 = 0" by (simp add: high_bit)
    then show ?thesis using True by (simp add: venc.simps[of n])
  next
    case False
    have "(128 + n mod 128) div 128 = 1" by (subst div_add_self1) simp_all
    then have "(of_nat (128 + n mod 128) :: byte) AND 0x80 \<noteq> 0" unfolding high_bit by simp
    then have x: "((of_nat (128 + n mod 128) :: byte) AND 0x80 \<noteq> 0) = True" by simp
    have v: "venc n = of_nat (128 + n mod 128) # venc (n div 128)" by (subst venc.simps) (simp only: False if_False)
    have k: "0 < k" "length (venc (n div 128)) \<le> k - 1" using "1.prems" unfolding v list.size by linarith+
    have "skip_prefix (venc (n div 128) @ ys) (k - 1) = Some (length (venc (n div 128)) - 1)" by (rule "1.IH"[OF False k(2)])
    then show ?thesis
      unfolding v append_Cons skip_prefix.simps x using k(1) length_venc_pos[of "n div 128"] by simp
  qed
qed

lemma text_bits_at_least: "5 * length xs \<le> length (text_bits xs)"
  by (induction xs) (use code_bits_ge_5 in \<open>auto simp: length_symbol_bits intro: add_mono\<close>)

lemma text_bits_at_most: "length (text_bits xs) \<le> 30 * length xs"
proof (induction xs)
  case (Cons x xs)
  have "unat x < 256" using unsigned_less[of x, where ?'a = nat] by simp
  then show ?case using Cons code_bits_range[of "unat x"] by (simp add: length_symbol_bits)
qed simp

text \<open>C15: The repository's test with random octets succeeds, whatever they are, unless their code is so
  long that with its length it does not fit in the buffer of the test: then the encoder writes
  behind the end of the buffer.\<close>

theorem random_test_passes:
  assumes "generated_etable et" "length num = 10" "length data = 1024" "length encoded = 3841" "length decoded = 1024"
  shows "random_test et num (Some data) encoded decoded = (if length (hpack_huff_string data) \<le> 3841 then Some 0 else None)"
proof -
  let ?s = "pack (text_bits data)"
  have small: "length encoded + 10 \<le> SSIZE_MAX" using assms(4) by (simp add: SSIZE_MAX_def)
  have bits: "length (text_bits data) \<le> 30 * 1024" using text_bits_at_most[of data] assms(3) by simp
  have ge: "127 \<le> length ?s" using text_bits_at_least[of data] assms(3) by (simp add: length_pack)
  have lt: "length ?s < length encoded" using bits assms(4) by (simp add: length_pack)
  show ?thesis
  proof (cases "length (hpack_huff_string data) \<le> 3841")
    case True
    obtain v where v: "hpack_huff_string data = 0xff # venc (length ?s - 127) @ ?s"
      using ge by (simp add: hpack_huff_string_def hpack_int_def mask_eq_exp_minus_1 Let_def)
    let ?n = "length (hpack_huff_string data)" and ?v = "venc (length ?s - 127)"
    have enc: "huffman_encode et num data encoded = Some (int ?n, hpack_huff_string data @ drop ?n encoded)"
      using huffman_encode_cases(1)[OF assms(1,2) small, of data] True assms(4) by simp
    have "skip_prefix (hpack_huff_string data @ drop ?n encoded) ?n = Some (length ?v)"
      using skip_venc[of "length ?s - 127" "?n - 1" "?s @ drop ?n encoded"] length_venc_pos[of "length ?s - 127"]
      by (simp add: v)
    moreover have "take (?n - (length ?v + 1)) (drop (length ?v + 1) (hpack_huff_string data @ drop ?n encoded)) = ?s"
      by (simp add: v)
    moreover have "huffman_decode (Some ?s) 8 (Some decoded) = Some (1024, Some data)"
    proof -
      obtain k where k: "k \<le> 8" "bytes_bits ?s = text_bits data @ replicate k True" using text_bits_pack by blast
      then have "huff_text (bytes_bits ?s) = (data, replicate k True)" by (simp add: huff_text_text)
      then show ?thesis
        using huffman_decode_outcome[of 8 ?s decoded] assms(3,5) k(1) by (simp add: huff_outcome_def at_padding_def)
    qed
    moreover have "length ?v \<noteq> ?n" using ge by (simp add: v)
    ultimately show ?thesis using enc assms(3) True by (simp add: random_test_def)
  next
    case False
    then show ?thesis
      using huffman_encode_cases(2)[OF assms(1,2) small, of data] lt assms(3,4) by (simp add: random_test_def)
  qed
qed

theorem random_test_passes_witness:
  "random_test huff_etable (replicate 10 7) (Some (replicate 1024 0)) (replicate 3841 7) (replicate 1024 9) = Some 0"
proof -
  have "length (text_bits (replicate 1024 0)) = 13312"
    by (simp add: text_bits_def length_concat_replicate length_symbol_bits code_of_eqs)
  then have l: "length (hpack_huff_string (replicate 1024 0)) \<le> 3841"
    by (simp add: hpack_huff_string_def hpack_int_def Let_def length_pack venc.simps)
  have "generated_etable huff_etable" by (simp add: generated_etable_eq)
  from random_test_passes[OF this, of "replicate 10 7" "replicate 1024 0" "replicate 3841 7" "replicate 1024 9"] l
  show ?thesis by (simp only: length_replicate if_True refl simp_thms)
qed

section \<open>Texts of status codes: src/benchmarks\<close>

text \<open>Three tables of the texts of all status codes: strings in an array, characters in one array
  (which the constructor finds with any contents), and strings in a map.\<close>

definition array_status_strings :: "octets list" where
  "array_status_strings = map to_decimal [100..<600]"

definition array_get :: "octets list \<Rightarrow> nat \<Rightarrow> http_error + octets" where
  "array_get strs code = (if code < 100 \<or> 599 < code then Inl E_range else Inr (strs ! (code - 100)))"

definition digits :: "octets" where
  "digits = str ''0123456789''"

definition continuous_fill :: "octets \<Rightarrow> nat \<Rightarrow> octets" where
  "continuous_fill strs i =
     strs[(i - 100) * 4 := digits ! (i div 100),
          (i - 100) * 4 + 1 := digits ! (i mod 100 div 10),
          (i - 100) * 4 + 2 := digits ! (i mod 10),
          (i - 100) * 4 + 3 := 0]"

definition continuous_status_strings :: "octets \<Rightarrow> octets" where
  "continuous_status_strings strs = foldl continuous_fill strs [100..<600]"

text \<open>The pointer \<open>str\<close> returns is the rest of the array behind it; what is read from it is a
  C string.\<close>

definition continuous_str :: "octets \<Rightarrow> nat \<Rightarrow> http_error + octets" where
  "continuous_str strs code =
     (if code < 100 \<or> 599 < code then Inl E_runtime else Inr (drop ((code - 100) * 4) strs))"

definition c_string :: "octets \<Rightarrow> octets" where
  "c_string s = takeWhile (\<lambda>c. c \<noteq> 0) s"

definition umap_status_strings :: "nat \<rightharpoonup> octets" where
  "umap_status_strings = map_of (map (\<lambda>code. (code, to_decimal code)) [100..<600])"

definition three_digits :: "nat \<Rightarrow> octets" where
  "three_digits n = [of_nat (48 + n div 100), of_nat (48 + n div 10 mod 10), of_nat (48 + n mod 10)]"

lemma to_decimal_three: "100 \<le> n \<Longrightarrow> n < 600 \<Longrightarrow> to_decimal n = three_digits n"
proof -
  assume n: "100 \<le> n" "n < 600"
  have d: "n div 10 div 10 = n div 100" by (simp flip: div_mult2_eq)
  have "\<not> n < 10" "\<not> n div 10 < 10" "n div 10 div 10 < 10"
    using n unfolding d by linarith+
  then show ?thesis
    by (simp add: to_decimal.simps[of n] to_decimal.simps[of "n div 10"] to_decimal.simps[of "n div 100"]
        three_digits_def d)
qed

lemma digits_upt: "digits = map (\<lambda>k. of_nat (48 + k)) [0..<10]"
  by (simp add: digits_def str_def of_char_def upt_rec[of _ 10])

lemma nth_digits: "k < 10 \<Longrightarrow> digits ! k = of_nat (48 + k)"
  unfolding digits_upt by (subst nth_map) (simp_all del: of_nat_add)

lemma status_string_three: "100 \<le> n \<Longrightarrow> n < 600 \<Longrightarrow> status_string n = Inr (three_digits n)"
  by (simp add: status_string_def three_digits_def)

lemma take_4_drop: "i + 4 \<le> length xs \<Longrightarrow> take 4 (drop i xs) = [xs ! i, xs ! (i + 1), xs ! (i + 2), xs ! (i + 3)]"
  by (simp add: list_eq_iff_nth_eq nth_Cons less_Suc_eq numeral_eq_Suc)

lemma continuous_fill_entry:
  assumes "length strs = 2000" "k < 500" "j < 500"
  shows "take 4 (drop (j * 4) (continuous_fill strs (100 + k))) =
    (if j = k then three_digits (100 + k) @ [0] else take 4 (drop (j * 4) strs))"
proof -
  have "(100 + k) div 100 < 10" "(100 + k) mod 100 div 10 < 10" using assms(2) by linarith+
  moreover have "(100 + k) mod 100 div 10 = (100 + k) div 10 mod 10"
    using mod_mult2_eq[of "100 + k" 10 10] by simp
  moreover have "j \<noteq> k \<Longrightarrow> j * 4 + a \<noteq> k * 4 + b" if "a < 4" "b < 4" for a b using that by presburger
  ultimately show ?thesis
    using assms by (simp add: take_4_drop continuous_fill_def nth_list_update nth_digits three_digits_def)
qed

lemma continuous_fill_entries:
  assumes "length strs = 2000"
  shows "k \<le> 500 \<Longrightarrow> length (foldl continuous_fill strs [100..<100 + k]) = 2000
    \<and> (\<forall>j < k. take 4 (drop (j * 4) (foldl continuous_fill strs [100..<100 + k])) = three_digits (100 + j) @ [0])"
proof (induction k)
  case (Suc k)
  have "[100..<100 + Suc k] = [100..<100 + k] @ [100 + k]"
    unfolding add_Suc_right by (rule upt_Suc_append) simp
  then show ?case
    using Suc continuous_fill_entry[of "foldl continuous_fill strs [100..<100 + k]" k]
    by (auto simp: less_Suc_eq continuous_fill_def[of _ "100 + k"] simp del: upt_Suc)
qed (simp add: assms)

lemma c_string_three:
  assumes "100 \<le> n" "n < 600" "take 4 xs = three_digits n @ [0]"
  shows "c_string xs = three_digits n"
proof -
  have x: "xs = three_digits n @ 0 # drop 4 xs" using append_take_drop_id[of 4 xs] assms(3) by simp
  have "(of_nat (48 + d) :: byte) \<noteq> 0" if "d < 10" for d
    using that by (simp add: word_of_nat_eq_0_iff nat_dvd_not_less del: of_nat_add)
  moreover have "n div 100 < 10" "n div 10 mod 10 < 10" "n mod 10 < 10" using assms by linarith+
  ultimately have "\<forall>c \<in> set (three_digits n). c \<noteq> 0" by (simp add: three_digits_def del: of_nat_add)
  then show ?thesis unfolding c_string_def by (subst x) (simp add: takeWhile_append2)
qed

text \<open>The tables hold the same texts, and the first two refuse the same codes; whatever the array
  held before does not show.\<close>

lemma array_entry: "100 \<le> n \<Longrightarrow> n < 600 \<Longrightarrow> array_status_strings ! (n - 100) = to_decimal n"
  unfolding array_status_strings_def by (subst nth_map) (simp_all only: length_upt nth_upt, simp_all)

lemma array_get_status_string: "array_get array_status_strings code = status_string code"
proof (cases "100 \<le> code \<and> code < 600")
  case True
  then show ?thesis by (simp add: array_get_def array_entry to_decimal_three status_string_three)
next
  case False
  then show ?thesis by (auto simp: array_get_def status_string_def)
qed

lemma map_of_map_pair: "map_of (map (\<lambda>k. (k, f k)) ks) k = (if k \<in> set ks then Some (f k) else None)"
  by (induction ks) auto

lemma umap_status_string:
  "umap_status_strings code = (case status_string code of Inl e \<Rightarrow> None | Inr s \<Rightarrow> Some s)"
proof -
  have u: "umap_status_strings code = (if 100 \<le> code \<and> code < 600 then Some (to_decimal code) else None)"
    unfolding umap_status_strings_def map_of_map_pair by (simp only: set_upt atLeastLessThan_iff)
  show ?thesis
  proof (cases "100 \<le> code \<and> code < 600")
    case True
    then show ?thesis unfolding u by (simp add: to_decimal_three status_string_three)
  next
    case False
    then show ?thesis unfolding u by (auto simp: status_string_def)
  qed
qed

text \<open>The three tables of the benchmark hold the text the program's own table has for every
  status code; the two that check the code refuse what it refuses.\<close>

lemma status_tables_agree:
  assumes "length strs = 2000"
  shows "(case continuous_str (continuous_status_strings strs) code of
            Inl e \<Rightarrow> e = E_runtime \<and> status_string code = Inl E_range
          | Inr s \<Rightarrow> status_string code = Inr (c_string s))
    \<and> array_get array_status_strings code = status_string code
    \<and> umap_status_strings code = (case status_string code of Inl e \<Rightarrow> None | Inr s \<Rightarrow> Some s)"
proof (cases "100 \<le> code \<and> code < 600")
  case True
  define j where "j = code - 100"
  have j: "code = 100 + j" "j < 500" using True by (auto simp: j_def)
  have "take 4 (drop (j * 4) (continuous_status_strings strs)) = three_digits code @ [0]"
    using continuous_fill_entries[OF assms, of 500] j unfolding continuous_status_strings_def by simp
  then have "c_string (drop (j * 4) (continuous_status_strings strs)) = three_digits code"
    using True by (intro c_string_three) simp_all
  then show ?thesis
    using True by (simp add: continuous_str_def status_string_three array_get_status_string umap_status_string flip: j_def)
next
  case False
  then have "status_string code = Inl E_range" by (auto simp: status_string_def)
  then show ?thesis
    using False by (auto simp: continuous_str_def array_get_status_string umap_status_string)
qed

end
